(* ===== verification/Akar_Prelude.thy ===== *)
theory Akar_Prelude
  imports Main "HOL-Library.Word"
begin

text \<open>
  Shared vocabulary of the development: the machine integers of the Rust sources as words, the
  little- and big-endian byte encodings of \<^verbatim>\<open>to_le_bytes\<close>/\<^verbatim>\<open>to_be_bytes\<close> and their inverses, the
  standard library's mutex with its poison flag, and an interface (a locale) for byte codecs:
  an encoder and a decoder that returns the unread rest of its input. The codec interface is what
  the log, the free-space map and the index file formats rely on; its client lemma (a
  concatenation of encoded items decodes to the items) is proved once here.
\<close>

section \<open>Machine integers and bytes\<close>

type_synonym u8 = "8 word"
type_synonym u16 = "16 word"
type_synonym u32 = "32 word"
type_synonym u64 = "64 word"
type_synonym bytes = "u8 list"

named_theorems codec_simps \<open>round trips and lengths of byte encodings\<close>
named_theorems txn_simps \<open>projections of the transaction manager's operations\<close>

abbreviation u64_max :: u64 where
  "u64_max \<equiv> - 1"

abbreviation u32_max :: u32 where
  "u32_max \<equiv> - 1"

text \<open>\<^verbatim>\<open>to_le_bytes\<close> of an n-byte integer with value v: the lowest byte first.\<close>

fun le_bytes :: "nat \<Rightarrow> nat \<Rightarrow> bytes" where
  "le_bytes 0 v = []"
| "le_bytes (Suc n) v = word_of_nat v # le_bytes n (v div 256)"

text \<open>\<^verbatim>\<open>from_le_bytes\<close>, as the number the bytes denote.\<close>

fun nat_of_le :: "bytes \<Rightarrow> nat" where
  "nat_of_le [] = 0"
| "nat_of_le (b # bs) = unat b + 256 * nat_of_le bs"

definition u64_le :: "u64 \<Rightarrow> bytes" where
  "u64_le w = le_bytes 8 (unat w)"

definition u32_le :: "u32 \<Rightarrow> bytes" where
  "u32_le w = le_bytes 4 (unat w)"

definition u16_le :: "u16 \<Rightarrow> bytes" where
  "u16_le w = le_bytes 2 (unat w)"

definition u64_of_le :: "bytes \<Rightarrow> u64" where
  "u64_of_le bs = word_of_nat (nat_of_le bs)"

definition u32_of_le :: "bytes \<Rightarrow> u32" where
  "u32_of_le bs = word_of_nat (nat_of_le bs)"

definition u16_of_le :: "bytes \<Rightarrow> u16" where
  "u16_of_le bs = word_of_nat (nat_of_le bs)"

definition be_bytes :: "nat \<Rightarrow> nat \<Rightarrow> bytes" where
  "be_bytes n v = rev (le_bytes n v)"

text \<open>A Rust slice \<^verbatim>\<open>xs[a..b]\<close> with both bounds in range.\<close>

definition slice :: "nat \<Rightarrow> nat \<Rightarrow> 'a list \<Rightarrow> 'a list" where
  "slice a b xs = take (b - a) (drop a xs)"

section \<open>Mutexes\<close>

text \<open>
  \<^verbatim>\<open>std::sync::Mutex\<close>: the guarded value and the poison flag that a panic inside a critical section
  sets. \<^verbatim>\<open>lock()\<close> fails on a poisoned mutex; the sources use three idioms: \<open>lock_update\<close> is
  \<^verbatim>\<open>if let Ok(mut g) = m.lock() { .. }\<close> (silently skipped when poisoned), \<open>lock_read\<close> is
  \<^verbatim>\<open>m.lock().map(..)\<close>, and \<open>mutex_set\<close> stores through a guard already held.
\<close>

datatype 'a mutex = Mutex (is_poisoned: bool) (guarded: 'a)

definition mutex_new :: "'a \<Rightarrow> 'a mutex" where
  "mutex_new a = Mutex False a"

definition lock_read :: "'a mutex \<Rightarrow> 'a option" where
  "lock_read m = (if is_poisoned m then None else Some (guarded m))"

definition mutex_set :: "'a mutex \<Rightarrow> 'a \<Rightarrow> 'a mutex" where
  "mutex_set m a = Mutex (is_poisoned m) a"

definition lock_update :: "('a \<Rightarrow> 'a) \<Rightarrow> 'a mutex \<Rightarrow> 'a mutex" where
  "lock_update f m = (if is_poisoned m then m else mutex_set m (f (guarded m)))"

lemma is_poisoned_simps [simp]:
  "is_poisoned (mutex_new a) = False"
  "is_poisoned (mutex_set m a) = is_poisoned m"
  "is_poisoned (lock_update f m) = is_poisoned m"
  by (simp_all add: mutex_new_def mutex_set_def lock_update_def)

lemma guarded_simps [simp]:
  "guarded (mutex_new a) = a"
  "guarded (mutex_set m a) = a"
  "\<not> is_poisoned m \<Longrightarrow> guarded (lock_update f m) = f (guarded m)"
  by (simp_all add: mutex_new_def mutex_set_def lock_update_def)

lemma lock_read_simps [simp]:
  "\<not> is_poisoned m \<Longrightarrow> lock_read m = Some (guarded m)"
  "is_poisoned m \<Longrightarrow> lock_read m = None"
  by (simp_all add: lock_read_def)

section \<open>Encodings\<close>

lemma unat_bounds:
  "unat (b :: u8) < 256" "unat (h :: u16) < 65536" "unat (v :: u32) < 4294967296"
  "unat (w :: u64) < 18446744073709551616"
  using unsigned_less [where 'a = nat, of b] unsigned_less [where 'a = nat, of h]
    unsigned_less [where 'a = nat, of v] unsigned_less [where 'a = nat, of w] by simp_all

lemma length_le_bytes [simp]: "length (le_bytes n v) = n"
  by (induction n arbitrary: v) auto

lemma nat_of_le_bytes: "nat_of_le (le_bytes n v) = v mod 256 ^ n"
proof (induction n arbitrary: v)
  case 0
  then show ?case by simp
next
  case (Suc n)
  have "unat (word_of_nat v :: u8) = v mod 256"
    by (simp add: unat_of_nat)
  with Suc show ?case
    by (simp add: mod_mult2_eq)
qed

lemma nat_of_le_bound: "nat_of_le bs < 256 ^ length bs"
proof (induction bs)
  case Nil
  then show ?case by simp
next
  case (Cons b bs)
  have "unat b < 256" by (rule unat_bounds)
  with Cons show ?case by simp
qed

lemma le_bytes_nat_of_le: "le_bytes (length bs) (nat_of_le bs) = bs"
proof (induction bs)
  case Nil
  then show ?case by simp
next
  case (Cons b bs)
  have b: "unat b < 256" by (rule unat_bounds)
  then have "(unat b + 256 * nat_of_le bs) div 256 = nat_of_le bs" by simp
  moreover have "word_of_nat (unat b + 256 * nat_of_le bs) = b"
  proof -
    have "(word_of_nat (unat b + 256 * nat_of_le bs) :: u8)
        = word_of_nat (unat b) + word_of_nat 256 * word_of_nat (nat_of_le bs)"
      by simp
    also have "word_of_nat 256 = (0 :: u8)" by simp
    finally show ?thesis by simp
  qed
  ultimately show ?case using Cons by simp
qed

lemma length_word_le [simp, codec_simps]:
  "length (u64_le w) = 8" "length (u32_le v) = 4" "length (u16_le x) = 2"
  by (simp_all add: u64_le_def u32_le_def u16_le_def)

lemma word_le_inverse [simp, codec_simps]:
  "u64_of_le (u64_le w) = w" "u32_of_le (u32_le v) = v" "u16_of_le (u16_le x) = x"
proof -
  have "unat w mod 256 ^ 8 = unat w" "unat v mod 256 ^ 4 = unat v" "unat x mod 256 ^ 2 = unat x"
    using unat_bounds(4) [of w] unat_bounds(3) [of v] unat_bounds(2) [of x] by simp_all
  then show "u64_of_le (u64_le w) = w" "u32_of_le (u32_le v) = v" "u16_of_le (u16_le x) = x"
    by (simp_all only: u64_of_le_def u64_le_def u32_of_le_def u32_le_def u16_of_le_def u16_le_def
        nat_of_le_bytes of_nat_unat ucast_id)
qed

lemma u32_of_le_of_nat:
  "n < 2 ^ 32 \<Longrightarrow> unat (u32_of_le (u32_le (word_of_nat n))) = n"
  by (simp add: unat_of_nat)

lemma slice_append_left [simp]: "length xs = n \<Longrightarrow> slice 0 n (xs @ ys) = xs"
  by (simp add: slice_def)

lemma length_slice [simp]: "b \<le> length xs \<Longrightarrow> length (slice a b xs) = b - a"
  by (simp add: slice_def)

text \<open>The i-th block of a concatenation of blocks of one size.\<close>

lemma concat_block:
  assumes "\<forall>x\<in>set xs. length (f x) = k" "i < length xs"
  shows "take k (drop (i * k) (concat (map f xs) @ rest)) = f (xs ! i)"
  using assms
proof (induction xs arbitrary: i)
  case (Cons x xs)
  then show ?case by (cases i) simp_all
qed simp

lemma length_concat_blocks: "\<forall>x\<in>set xs. length (f x) = k \<Longrightarrow> length (concat (map f xs)) = length xs * k"
  by (induction xs) auto

lemma distinct_concat_nth:
  assumes "\<And>i. i < length ls \<Longrightarrow> distinct (ls ! i)"
    and "\<And>i j. i < length ls \<Longrightarrow> j < length ls \<Longrightarrow> i \<noteq> j \<Longrightarrow> set (ls ! i) \<inter> set (ls ! j) = {}"
  shows "distinct (concat ls)"
  using assms
proof (induction ls)
  case (Cons l ls)
  have "set l \<inter> set (ls ! j) = {}" if "j < length ls" for j
    using Cons.prems(2) [of 0 "Suc j"] that by simp
  then have "set l \<inter> set (concat ls) = {}" by (fastforce simp: in_set_conv_nth)
  moreover have "distinct (concat ls)"
    using Cons.prems(1) [of "Suc _"] Cons.prems(2) [of "Suc _" "Suc _"] by (intro Cons.IH) simp_all
  ultimately show ?case using Cons.prems(1) [of 0] by simp
qed simp

lemma find_SomeD: "find P xs = Some w \<Longrightarrow> w \<in> set xs \<and> P w"
  by (auto simp: find_Some_iff)

section \<open>The codec interface\<close>

text \<open>
  A codec writes a value as bytes and reads it back from the front of a buffer, handing the rest
  on. \<open>valid\<close> is the set of values the format can carry (a length that fits its length field, for
  instance).
\<close>

locale codec =
  fixes enc :: "'a \<Rightarrow> bytes"
    and dec :: "bytes \<Rightarrow> ('a \<times> bytes) option"
    and valid :: "'a \<Rightarrow> bool"
  assumes dec_enc: "valid a \<Longrightarrow> dec (enc a @ rest) = Some (a, rest)"
begin

fun dec_many :: "nat \<Rightarrow> bytes \<Rightarrow> ('a list \<times> bytes) option" where
  "dec_many 0 bs = Some ([], bs)"
| "dec_many (Suc n) bs =
     (case dec bs of
        None \<Rightarrow> None
      | Some (a, rest) \<Rightarrow>
          (case dec_many n rest of None \<Rightarrow> None | Some (xs, rest') \<Rightarrow> Some (a # xs, rest')))"

lemma dec_many_concat:
  "list_all valid xs \<Longrightarrow> dec_many (length xs) (concat (map enc xs) @ rest) = Some (xs, rest)"
  by (induction xs) (simp_all add: dec_enc)

lemma enc_prefix_free:
  assumes "valid a" and "valid b" and "enc a @ xs = enc b @ ys"
  shows "a = b \<and> xs = ys"
proof -
  have "Some (a, xs) = dec (enc a @ xs)" by (simp only: dec_enc [OF assms(1)])
  also have "\<dots> = dec (enc b @ ys)" by (simp only: assms(3))
  also have "\<dots> = Some (b, ys)" by (simp only: dec_enc [OF assms(2)])
  finally show ?thesis by simp
qed

lemma enc_injective: "valid a \<Longrightarrow> valid b \<Longrightarrow> enc a = enc b \<Longrightarrow> a = b"
  using enc_prefix_free [of a b "[]" "[]"] by simp

end

text \<open>Fixed-width readers of \<^verbatim>\<open>akar-common/src/serialization.rs\<close>: \<^verbatim>\<open>read_exact\<close> then \<^verbatim>\<open>from_le_bytes\<close>.\<close>

definition read_exact :: "nat \<Rightarrow> bytes \<Rightarrow> (bytes \<times> bytes) option" where
  "read_exact n bs = (if n \<le> length bs then Some (take n bs, drop n bs) else None)"

definition deserialize_u64 :: "bytes \<Rightarrow> (u64 \<times> bytes) option" where
  "deserialize_u64 bs = map_option (map_prod u64_of_le id) (read_exact 8 bs)"

definition deserialize_u32 :: "bytes \<Rightarrow> (u32 \<times> bytes) option" where
  "deserialize_u32 bs = map_option (map_prod u32_of_le id) (read_exact 4 bs)"

definition deserialize_u8 :: "bytes \<Rightarrow> (u8 \<times> bytes) option" where
  "deserialize_u8 bs = (case bs of [] \<Rightarrow> None | b # rest \<Rightarrow> Some (b, rest))"

lemma read_exact_append [simp, codec_simps]:
  "length xs = n \<Longrightarrow> read_exact n (xs @ ys) = Some (xs, ys)"
  by (simp add: read_exact_def)

lemma deserialize_append [simp, codec_simps]:
  "deserialize_u64 (u64_le w @ rest) = Some (w, rest)"
  "deserialize_u32 (u32_le v @ rest) = Some (v, rest)"
  "deserialize_u8 (b # rest) = Some (b, rest)"
  by (simp_all add: deserialize_u64_def deserialize_u32_def deserialize_u8_def)

interpretation u64_codec: codec u64_le deserialize_u64 "\<lambda>_. True"
  by unfold_locales simp

interpretation u32_codec: codec u32_le deserialize_u32 "\<lambda>_. True"
  by unfold_locales simp

section \<open>Arithmetic on counters\<close>

lemma unat_Suc_word:
  fixes n :: "'a::len word"
  assumes "n \<noteq> - 1"
  shows "unat (n + 1) = Suc (unat n)"
proof -
  have "1 + n \<noteq> 0" using assms by (simp add: add_eq_0_iff)
  then show ?thesis using unatSuc [of n] by (simp add: add.commute)
qed

lemma word_less_Suc:
  fixes n x :: "'a::len word"
  assumes "n \<noteq> - 1"
  shows "x < n + 1 \<longleftrightarrow> x < n \<or> x = n"
  using unat_Suc_word [OF assms] by (auto simp: word_less_nat_alt less_Suc_eq dest: unsigned_word_eqI)

lemma unat_pred_word:
  fixes n :: "'a::len word"
  assumes "0 < unat n"
  shows "unat (n - 1) = unat n - 1"
  using assms by (simp add: unat_minus_one unat_gt_0)

section \<open>Invariants of transition systems\<close>

text \<open>
  A transition system with an invariant: every component that is a step relation interprets this
  locale on its own initial states, steps and invariant.
\<close>

locale inv_system =
  fixes initial :: "'s \<Rightarrow> bool"
    and step :: "'s \<Rightarrow> 's \<Rightarrow> bool"
    and inv :: "'s \<Rightarrow> bool"
  assumes inv_initial: "initial s \<Longrightarrow> inv s"
    and inv_step: "inv s \<Longrightarrow> step s t \<Longrightarrow> inv t"
begin

lemma inv_steps: "step\<^sup>*\<^sup>* s t \<Longrightarrow> inv s \<Longrightarrow> inv t"
  by (induction rule: rtranclp_induct) (auto intro: inv_step)

lemma inv_reachable: "initial s \<Longrightarrow> step\<^sup>*\<^sup>* s t \<Longrightarrow> inv t"
  by (rule inv_steps) (auto intro: inv_initial)

lemma inv_along:
  assumes "step\<^sup>*\<^sup>* s t" and "inv s" and "\<And>u v. inv u \<Longrightarrow> step u v \<Longrightarrow> f u \<le> (f v :: 'o::preorder)"
  shows "f s \<le> f t"
  using assms(1)
proof (induction rule: rtranclp_induct)
  case (step u v)
  then have "f u \<le> f v" using assms(2,3) inv_steps by blast
  with step.IH show ?case by (rule order_trans)
qed simp

end

end
