(* ===== verification/Txn_Manager.thy ===== *)
theory Txn_Manager
  imports Akar_Prelude
begin

text \<open>
  The transaction manager of \<^verbatim>\<open>akar-transaction/src/lib.rs\<close>: transactions and their undo records,
  the lifecycle registry (identifiers, timestamps, active set, commit history), concurrency control
  (table locks, the writer count, the row conflict tracker of optimistic concurrency control), the
  checkpoint coordinator (new-transaction gate, drain protocol, background worker) and the manager's
  own operations over the three. Atomic counters are words, so \<^verbatim>\<open>fetch_add\<close>/\<^verbatim>\<open>fetch_sub\<close> wrap. A call
  that parks the calling thread (the gate is held, or the condition variable of single-writer mode)
  has the value \<open>None\<close>. Hash maps are partial functions; a hash set is a list, whose order is
  arbitrary, and no statement of the development depends on it.
\<close>

section \<open>Transactions\<close>

datatype transaction_type = ReadOnly | Write

datatype transaction_status = Active | Committed | RolledBack

datatype undo_type = UndoUpdate | UndoInsert | UndoDelete

record undo_record =
  ur_table_id :: u64
  ur_row_id :: u64
  ur_column :: u32
  ur_old_data :: bytes
  ur_undo_type :: undo_type

definition undo_update :: "u64 \<Rightarrow> u64 \<Rightarrow> u32 \<Rightarrow> bytes \<Rightarrow> undo_record" where
  "undo_update table_id row_id column old_data =
     \<lparr>ur_table_id = table_id, ur_row_id = row_id, ur_column = column, ur_old_data = old_data,
      ur_undo_type = UndoUpdate\<rparr>"

definition undo_insert :: "u64 \<Rightarrow> u64 \<Rightarrow> undo_record" where
  "undo_insert table_id row_id =
     \<lparr>ur_table_id = table_id, ur_row_id = row_id, ur_column = 0, ur_old_data = [],
      ur_undo_type = UndoInsert\<rparr>"

definition undo_delete :: "u64 \<Rightarrow> u64 \<Rightarrow> bytes \<Rightarrow> undo_record" where
  "undo_delete table_id row_id old_row_data =
     \<lparr>ur_table_id = table_id, ur_row_id = row_id, ur_column = 0, ur_old_data = old_row_data,
      ur_undo_type = UndoDelete\<rparr>"

datatype transaction_error =
    TableLocked (te_table_id: u64) (te_owner_txn: u64)
  | WriteConflict (te_table_id: u64) (te_row_id: u64) (te_conflicting_txn: u64)
  | ConcurrentWriteDisabled
  | ShuttingDown
  | NoActiveTransaction
  | LockPoisoned string

abbreviation lock_poisoned :: transaction_error where
  "lock_poisoned \<equiv> LockPoisoned ''poisoned lock: another task failed inside''"

record transaction =
  transaction_id :: u64
  transaction_type :: transaction_type
  commit_ts :: "u64 option"
  status :: transaction_status
  undo_records :: "undo_record list"
  modified_tables :: "u64 list"
  snapshot_ts :: "u64 option"
  written_rows :: "(u64 \<times> u64) list"

definition transaction_new :: "u64 \<Rightarrow> transaction_type \<Rightarrow> transaction" where
  "transaction_new tid ty =
     \<lparr>transaction_id = tid, transaction_type = ty, commit_ts = None, status = Active,
      undo_records = [], modified_tables = [], snapshot_ts = None, written_rows = []\<rparr>"

text \<open>The shared tail of the three undo recorders: remember the table once.\<close>

definition note_modified_table :: "u64 \<Rightarrow> transaction \<Rightarrow> transaction" where
  "note_modified_table table_id tx =
     (if table_id \<in> set (modified_tables tx) then tx
      else tx\<lparr>modified_tables := modified_tables tx @ [table_id]\<rparr>)"

definition txn_record_undo :: "transaction \<Rightarrow> u64 \<Rightarrow> u64 \<Rightarrow> u32 \<Rightarrow> bytes \<Rightarrow> transaction" where
  "txn_record_undo tx table_id row_id column old_data =
     note_modified_table table_id
       (tx\<lparr>undo_records := undo_records tx @ [undo_update table_id row_id column old_data]\<rparr>)"

definition txn_record_insert_undo :: "transaction \<Rightarrow> u64 \<Rightarrow> u64 \<Rightarrow> transaction" where
  "txn_record_insert_undo tx table_id row_id =
     note_modified_table table_id
       (tx\<lparr>undo_records := undo_records tx @ [undo_insert table_id row_id]\<rparr>)"

definition txn_record_delete_undo :: "transaction \<Rightarrow> u64 \<Rightarrow> u64 \<Rightarrow> bytes \<Rightarrow> transaction" where
  "txn_record_delete_undo tx table_id row_id old_row_data =
     note_modified_table table_id
       (tx\<lparr>undo_records := undo_records tx @ [undo_delete table_id row_id old_row_data]\<rparr>)"

definition txn_record_write :: "transaction \<Rightarrow> u64 \<Rightarrow> u64 \<Rightarrow> transaction" where
  "txn_record_write tx table_id row_id =
     tx\<lparr>written_rows := written_rows tx @ [(table_id, row_id)]\<rparr>"

definition txn_is_active :: "transaction \<Rightarrow> bool" where
  "txn_is_active tx \<longleftrightarrow> status tx = Active"

definition txn_is_committed :: "transaction \<Rightarrow> bool" where
  "txn_is_committed tx \<longleftrightarrow> status tx = Committed"

datatype commit_result = CommitResult_Committed (committed_at: u64)

record transaction_manager_config =
  cfg_concurrent_writes :: bool

definition config_default :: transaction_manager_config where
  "config_default = \<lparr>cfg_concurrent_writes = True\<rparr>"

section \<open>Lifecycle\<close>

record transaction_lifecycle =
  next_id :: u64
  next_commit_ts :: u64
  active_transactions :: "(u64 \<rightharpoonup> transaction) mutex"
  commit_history :: "(u64 \<rightharpoonup> u64) mutex"
  active_txn_count :: u32

definition lifecycle_new :: transaction_lifecycle where
  "lifecycle_new =
     \<lparr>next_id = 1, next_commit_ts = 1, active_transactions = mutex_new Map.empty,
      commit_history = mutex_new Map.empty, active_txn_count = 0\<rparr>"

definition next_txn_id :: "transaction_lifecycle \<Rightarrow> u64 \<times> transaction_lifecycle" where
  "next_txn_id lc = (next_id lc, lc\<lparr>next_id := next_id lc + 1\<rparr>)"

definition lc_snapshot_ts :: "transaction_lifecycle \<Rightarrow> u64" where
  "lc_snapshot_ts lc = next_commit_ts lc"

definition assign_commit_ts :: "transaction_lifecycle \<Rightarrow> u64 \<times> transaction_lifecycle" where
  "assign_commit_ts lc = (next_commit_ts lc, lc\<lparr>next_commit_ts := next_commit_ts lc + 1\<rparr>)"

definition lc_register :: "transaction \<Rightarrow> transaction_lifecycle \<Rightarrow> transaction_lifecycle" where
  "lc_register tx lc =
     lc\<lparr>active_transactions :=
          lock_update (\<lambda>active. active(transaction_id tx \<mapsto> tx)) (active_transactions lc),
        active_txn_count := active_txn_count lc + 1\<rparr>"

definition lc_deregister :: "u64 \<Rightarrow> transaction_lifecycle \<Rightarrow> transaction_lifecycle" where
  "lc_deregister tid lc =
     lc\<lparr>active_transactions :=
          lock_update (\<lambda>active. active(tid := None)) (active_transactions lc),
        active_txn_count := active_txn_count lc - 1\<rparr>"

definition push_commit_history :: "u64 \<Rightarrow> u64 \<Rightarrow> transaction_lifecycle \<Rightarrow> transaction_lifecycle" where
  "push_commit_history tid ts lc =
     lc\<lparr>commit_history := lock_update (\<lambda>h. h(tid \<mapsto> ts)) (commit_history lc)\<rparr>"

definition lc_is_visible :: "transaction_lifecycle \<Rightarrow> u64 \<Rightarrow> u64 \<Rightarrow> bool" where
  "lc_is_visible lc tid ts =
     (case lock_read (commit_history lc) of
        Some history \<Rightarrow> (case history tid of Some cts \<Rightarrow> cts \<le> ts | None \<Rightarrow> False)
      | None \<Rightarrow> False)"

definition lc_commit_history_snapshot :: "transaction_lifecycle \<Rightarrow> (u64 \<rightharpoonup> u64)" where
  "lc_commit_history_snapshot lc =
     (case lock_read (commit_history lc) of Some h \<Rightarrow> h | None \<Rightarrow> Map.empty)"

definition lc_current_commit_ts :: "transaction_lifecycle \<Rightarrow> u64" where
  "lc_current_commit_ts lc = next_commit_ts lc"

definition lc_num_active :: "transaction_lifecycle \<Rightarrow> nat" where
  "lc_num_active lc =
     (case lock_read (active_transactions lc) of Some a \<Rightarrow> card (dom a) | None \<Rightarrow> 0)"

definition lc_active_snapshot ::
  "transaction_lifecycle \<Rightarrow> transaction_error + (u64 \<rightharpoonup> transaction)" where
  "lc_active_snapshot lc =
     (case lock_read (active_transactions lc) of Some a \<Rightarrow> Inr a | None \<Rightarrow> Inl lock_poisoned)"

section \<open>Concurrency control\<close>

record row_conflict_tracker =
  active_writes :: "(u64 \<times> u64 \<rightharpoonup> u64 list) mutex"

definition tracker_new :: row_conflict_tracker where
  "tracker_new = \<lparr>active_writes = mutex_new Map.empty\<rparr>"

definition register_write ::
  "u64 \<Rightarrow> u64 \<Rightarrow> u64 \<Rightarrow> row_conflict_tracker \<Rightarrow> row_conflict_tracker" where
  "register_write table_id row_id tid rt =
     rt\<lparr>active_writes :=
          lock_update
            (\<lambda>writes. writes((table_id, row_id) \<mapsto>
               List.insert tid (case writes (table_id, row_id) of Some ws \<Rightarrow> ws | None \<Rightarrow> [])))
            (active_writes rt)\<rparr>"

text \<open>The double loop of \<^verbatim>\<open>validate_write_set\<close>: the first writer of a row other than the committer.\<close>

fun validate_rows ::
  "(u64 \<times> u64 \<rightharpoonup> u64 list) \<Rightarrow> (u64 \<times> u64) list \<Rightarrow> u64 \<Rightarrow> transaction_error + unit" where
  "validate_rows writes [] committing = Inr ()"
| "validate_rows writes ((table_id, row_id) # rows) committing =
     (case writes (table_id, row_id) of
        None \<Rightarrow> validate_rows writes rows committing
      | Some writer_set \<Rightarrow>
          (case find (\<lambda>w. w \<noteq> committing) writer_set of
             Some w \<Rightarrow> Inl (WriteConflict table_id row_id w)
           | None \<Rightarrow> validate_rows writes rows committing))"

definition tracker_validate_write_set ::
  "row_conflict_tracker \<Rightarrow> (u64 \<times> u64) list \<Rightarrow> u64 \<Rightarrow> transaction_error + unit" where
  "tracker_validate_write_set rt rows committing =
     (case lock_read (active_writes rt) of
        None \<Rightarrow> Inl lock_poisoned
      | Some writes \<Rightarrow> validate_rows writes rows committing)"

text \<open>\<^verbatim>\<open>retain\<close> on every writer set, then \<^verbatim>\<open>retain\<close> of the rows that still have a writer.\<close>

definition drop_writer ::
  "u64 \<Rightarrow> (u64 \<times> u64 \<rightharpoonup> u64 list) \<Rightarrow> (u64 \<times> u64 \<rightharpoonup> u64 list)" where
  "drop_writer tid writes row =
     (case map_option (filter (\<lambda>w. w \<noteq> tid)) (writes row) of
        Some writer_set \<Rightarrow> if writer_set = [] then None else Some writer_set
      | None \<Rightarrow> None)"

definition clear_txn_writes :: "u64 \<Rightarrow> row_conflict_tracker \<Rightarrow> row_conflict_tracker" where
  "clear_txn_writes tid rt = rt\<lparr>active_writes := lock_update (drop_writer tid) (active_writes rt)\<rparr>"

record concurrency_control =
  table_locks :: "(u64 \<rightharpoonup> u64) mutex"
  concurrent_writes :: bool
  active_write_count :: "u32 mutex"
  row_tracker :: row_conflict_tracker

definition cc_new :: "bool \<Rightarrow> concurrency_control" where
  "cc_new concurrent =
     \<lparr>table_locks = mutex_new Map.empty, concurrent_writes = concurrent,
      active_write_count = mutex_new 0, row_tracker = tracker_new\<rparr>"

text \<open>\<open>None\<close>: the caller waits on \<^verbatim>\<open>writer_condvar\<close> until the count is zero.\<close>

definition acquire_write ::
  "concurrency_control \<Rightarrow> (transaction_error + concurrency_control) option" where
  "acquire_write cc =
     (case lock_read (active_write_count cc) of
        None \<Rightarrow> Some (Inl lock_poisoned)
      | Some count \<Rightarrow>
          if \<not> concurrent_writes cc then
            if count > 0 then None
            else Some (Inr (cc\<lparr>active_write_count := mutex_set (active_write_count cc) 1\<rparr>))
          else Some (Inr (cc\<lparr>active_write_count := mutex_set (active_write_count cc) (count + 1)\<rparr>)))"

definition release_write :: "concurrency_control \<Rightarrow> concurrency_control" where
  "release_write cc =
     cc\<lparr>active_write_count :=
          lock_update (\<lambda>count. if count > 0 then count - 1 else count) (active_write_count cc)\<rparr>"

definition cc_lock_table ::
  "concurrency_control \<Rightarrow> u64 \<Rightarrow> u64 \<Rightarrow> transaction_error + concurrency_control" where
  "cc_lock_table cc tid table_id =
     (case lock_read (table_locks cc) of
        None \<Rightarrow> Inl lock_poisoned
      | Some locks \<Rightarrow>
          let grant = Inr (cc\<lparr>table_locks := mutex_set (table_locks cc) (locks(table_id \<mapsto> tid))\<rparr>)
          in case locks table_id of
               Some owner \<Rightarrow> if owner \<noteq> tid then Inl (TableLocked table_id owner) else grant
             | None \<Rightarrow> grant)"

definition release_locks :: "u64 \<Rightarrow> concurrency_control \<Rightarrow> concurrency_control" where
  "release_locks tid cc =
     cc\<lparr>table_locks :=
          lock_update (\<lambda>locks t. if locks t = Some tid then None else locks t) (table_locks cc)\<rparr>"

section \<open>Checkpoint coordination\<close>

text \<open>
  \<open>gate_held\<close> is the state of \<^verbatim>\<open>mtx_for_starting_new_txns\<close>, \<open>gate_poisoned\<close> its poison flag. The worker
  thread's join handle is reduced to whether there is one.
\<close>

record checkpoint_coordinator =
  gate_held :: bool
  gate_poisoned :: bool
  checkpoint_requested :: bool
  shutdown_requested :: bool
  worker_spawned :: bool

definition coordinator_new :: checkpoint_coordinator where
  "coordinator_new =
     \<lparr>gate_held = False, gate_poisoned = False, checkpoint_requested = False,
      shutdown_requested = False, worker_spawned = False\<rparr>"

definition gate_new_transaction :: "checkpoint_coordinator \<Rightarrow> unit option" where
  "gate_new_transaction ck = (if gate_held ck then None else Some ())"

definition ck_schedule_auto_checkpoint :: "checkpoint_coordinator \<Rightarrow> checkpoint_coordinator" where
  "ck_schedule_auto_checkpoint ck = ck\<lparr>checkpoint_requested := True\<rparr>"

definition ck_clear_checkpoint_requested :: "checkpoint_coordinator \<Rightarrow> checkpoint_coordinator" where
  "ck_clear_checkpoint_requested ck = ck\<lparr>checkpoint_requested := False\<rparr>"

definition ck_request_shutdown :: "checkpoint_coordinator \<Rightarrow> checkpoint_coordinator" where
  "ck_request_shutdown ck = ck\<lparr>shutdown_requested := True\<rparr>"

text \<open>
  The drain loop, one transition per critical section: take the gate, test the count, test the
  clock, and wait. \<^verbatim>\<open>Condvar::wait_timeout\<close> releases the gate for the time of the wait and takes it
  again before it returns; returning drops the guard. \<open>expired\<close> is the outcome of the test
  \<^verbatim>\<open>start.elapsed() >= timeout\<close>.
\<close>

datatype drain_pc = DrainStart | DrainTest | DrainWait | DrainReturned bool

fun drain_step ::
  "u32 \<Rightarrow> bool \<Rightarrow> drain_pc \<times> checkpoint_coordinator \<Rightarrow> (drain_pc \<times> checkpoint_coordinator) option"
where
  "drain_step count expired (DrainStart, ck) =
     (if gate_held ck then None
      else if gate_poisoned ck then Some (DrainReturned False, ck)
      else Some (DrainTest, ck\<lparr>gate_held := True\<rparr>))"
| "drain_step count expired (DrainTest, ck) =
     (if count = 0 then Some (DrainReturned True, ck\<lparr>gate_held := False\<rparr>)
      else if expired then Some (DrainReturned False, ck\<lparr>gate_held := False\<rparr>)
      else Some (DrainWait, ck\<lparr>gate_held := False\<rparr>))"
| "drain_step count expired (DrainWait, ck) =
     (if gate_held ck then None
      else if gate_poisoned ck then Some (DrainReturned False, ck)
      else Some (DrainTest, ck\<lparr>gate_held := True\<rparr>))"
| "drain_step count expired (DrainReturned r, ck) = None"

text \<open>
  One round of the worker loop: leave on shutdown, otherwise serve a pending request. The second
  component says whether the round called \<^verbatim>\<open>checkpoint_fn\<close>; its result is only logged.
\<close>

definition worker_round :: "checkpoint_coordinator \<Rightarrow> bool \<times> bool \<times> checkpoint_coordinator" where
  "worker_round ck =
     (if shutdown_requested ck then (True, False, ck)
      else if checkpoint_requested ck then (False, True, ck\<lparr>checkpoint_requested := False\<rparr>)
      else (False, False, ck))"

definition ck_start_worker :: "bool \<Rightarrow> checkpoint_coordinator \<Rightarrow> checkpoint_coordinator" where
  "ck_start_worker spawn_ok ck = (if spawn_ok then ck\<lparr>worker_spawned := True\<rparr> else ck)"

definition ck_join_worker :: "checkpoint_coordinator \<Rightarrow> checkpoint_coordinator" where
  "ck_join_worker ck = ck\<lparr>worker_spawned := False\<rparr>"

section \<open>The manager\<close>

record transaction_manager =
  lifecycle :: transaction_lifecycle
  concurrency :: concurrency_control
  checkpoint :: checkpoint_coordinator

definition tm_new_with_config :: "transaction_manager_config \<Rightarrow> transaction_manager" where
  "tm_new_with_config config =
     \<lparr>lifecycle = lifecycle_new, concurrency = cc_new (cfg_concurrent_writes config),
      checkpoint = coordinator_new\<rparr>"

definition tm_new :: transaction_manager where
  "tm_new = tm_new_with_config config_default"

definition set_concurrent_writes :: "bool \<Rightarrow> transaction_manager \<Rightarrow> transaction_manager" where
  "set_concurrent_writes enabled tm =
     tm\<lparr>concurrency := (concurrency tm)\<lparr>concurrent_writes := enabled\<rparr>\<rparr>"

definition begin_read :: "transaction_manager \<Rightarrow> (transaction \<times> transaction_manager) option" where
  "begin_read tm =
     (case gate_new_transaction (checkpoint tm) of
        None \<Rightarrow> None
      | Some _ \<Rightarrow>
          let (tid, lc) = next_txn_id (lifecycle tm);
              tx = (transaction_new tid ReadOnly)\<lparr>snapshot_ts := Some (lc_snapshot_ts lc)\<rparr>
          in Some (tx, tm\<lparr>lifecycle := lc_register tx lc\<rparr>))"

text \<open>
  \<^verbatim>\<open>begin_write\<close> draws its identifier and its snapshot before it waits for the write slot, so it is
  two transitions: up to the wait, and from the moment \<^verbatim>\<open>acquire_write\<close> returns.
\<close>

definition begin_write_start ::
  "transaction_manager \<Rightarrow> (transaction \<times> transaction_manager) option" where
  "begin_write_start tm =
     (case gate_new_transaction (checkpoint tm) of
        None \<Rightarrow> None
      | Some _ \<Rightarrow>
          let (tid, lc) = next_txn_id (lifecycle tm)
          in Some ((transaction_new tid Write)\<lparr>snapshot_ts := Some (lc_snapshot_ts lc)\<rparr>,
                   tm\<lparr>lifecycle := lc\<rparr>))"

definition begin_write_acquire ::
  "transaction_manager \<Rightarrow> transaction \<Rightarrow> (transaction_error + transaction \<times> transaction_manager) option"
where
  "begin_write_acquire tm tx =
     (case acquire_write (concurrency tm) of
        None \<Rightarrow> None
      | Some (Inl e) \<Rightarrow> Some (Inl e)
      | Some (Inr cc) \<Rightarrow>
          Some (Inr (tx, tm\<lparr>concurrency := cc, lifecycle := lc_register tx (lifecycle tm)\<rparr>)))"

definition begin_write ::
  "transaction_manager \<Rightarrow> (transaction_error + transaction \<times> transaction_manager) option" where
  "begin_write tm =
     (case begin_write_start tm of None \<Rightarrow> None | Some (tx, tm') \<Rightarrow> begin_write_acquire tm' tx)"

definition lock_table ::
  "transaction_manager \<Rightarrow> u64 \<Rightarrow> u64 \<Rightarrow> transaction_error + transaction_manager" where
  "lock_table tm tid table_id =
     (case cc_lock_table (concurrency tm) tid table_id of
        Inl e \<Rightarrow> Inl e
      | Inr cc \<Rightarrow> Inr (tm\<lparr>concurrency := cc\<rparr>))"

definition record_write :: "transaction_manager \<Rightarrow> u64 \<Rightarrow> u64 \<Rightarrow> u64 \<Rightarrow> transaction_manager" where
  "record_write tm tid table_id row_id =
     tm\<lparr>concurrency := (concurrency tm)
          \<lparr>row_tracker := register_write table_id row_id tid (row_tracker (concurrency tm))\<rparr>,
        lifecycle := (lifecycle tm)
          \<lparr>active_transactions :=
             lock_update
               (\<lambda>active. case active tid of
                   Some tx \<Rightarrow> active(tid \<mapsto> txn_record_write tx table_id row_id)
                 | None \<Rightarrow> active)
               (active_transactions (lifecycle tm))\<rparr>\<rparr>"

definition tm_validate_write_set :: "transaction_manager \<Rightarrow> u64 \<Rightarrow> transaction_error + unit" where
  "tm_validate_write_set tm tid =
     (case lock_read (active_transactions (lifecycle tm)) of
        None \<Rightarrow> Inl lock_poisoned
      | Some active \<Rightarrow>
          (case active tid of
             Some tx \<Rightarrow>
               if written_rows tx \<noteq> [] then
                 tracker_validate_write_set (row_tracker (concurrency tm)) (written_rows tx) tid
               else Inr ()
           | None \<Rightarrow> Inr ()))"

text \<open>The release sequence \<^verbatim>\<open>release_locks; clear_txn_writes; release_write\<close>.\<close>

definition release_resources :: "u64 \<Rightarrow> transaction_manager \<Rightarrow> transaction_manager" where
  "release_resources tid tm =
     (let cc1 = release_locks tid (concurrency tm);
          cc2 = cc1\<lparr>row_tracker := clear_txn_writes tid (row_tracker cc1)\<rparr>
      in tm\<lparr>concurrency := release_write cc2\<rparr>)"

text \<open>The read-only exit that \<^verbatim>\<open>commit\<close> and \<^verbatim>\<open>prepare_commit\<close> share.\<close>

definition commit_read_only ::
  "transaction_manager \<Rightarrow> transaction \<Rightarrow>
   (transaction_error + commit_result) \<times> transaction \<times> transaction_manager" where
  "commit_read_only tm tx =
     (let (ts, lc) = assign_commit_ts (lifecycle tm);
          tx' = tx\<lparr>status := Committed, commit_ts := Some ts\<rparr>
      in (Inr (CommitResult_Committed ts), tx',
          tm\<lparr>lifecycle := lc_deregister (transaction_id tx) lc,
             concurrency := release_locks (transaction_id tx) (concurrency tm)\<rparr>))"

text \<open>The failed-validation exit that \<^verbatim>\<open>commit\<close> and \<^verbatim>\<open>prepare_commit\<close> share.\<close>

definition commit_conflict ::
  "transaction_manager \<Rightarrow> transaction \<Rightarrow> transaction_error \<Rightarrow>
   (transaction_error + commit_result) \<times> transaction \<times> transaction_manager" where
  "commit_conflict tm tx e =
     (Inl e, tx\<lparr>status := RolledBack\<rparr>,
      release_resources (transaction_id tx)
        (tm\<lparr>lifecycle := lc_deregister (transaction_id tx) (lifecycle tm)\<rparr>))"

definition commit ::
  "transaction_manager \<Rightarrow> transaction \<Rightarrow>
   (transaction_error + commit_result) \<times> transaction \<times> transaction_manager" where
  "commit tm tx =
     (if transaction_type tx = ReadOnly then commit_read_only tm tx
      else case tm_validate_write_set tm (transaction_id tx) of
        Inl e \<Rightarrow> commit_conflict tm tx e
      | Inr _ \<Rightarrow>
          let (ts, lc) = assign_commit_ts (lifecycle tm);
              tx' = tx\<lparr>status := Committed, commit_ts := Some ts\<rparr>;
              lc' = lc_deregister (transaction_id tx) (push_commit_history (transaction_id tx) ts lc)
          in (Inr (CommitResult_Committed ts), tx',
              release_resources (transaction_id tx) (tm\<lparr>lifecycle := lc'\<rparr>)))"

definition prepare_commit ::
  "transaction_manager \<Rightarrow> transaction \<Rightarrow>
   (transaction_error + commit_result) \<times> transaction \<times> transaction_manager" where
  "prepare_commit tm tx =
     (if transaction_type tx = ReadOnly then commit_read_only tm tx
      else case tm_validate_write_set tm (transaction_id tx) of
        Inl e \<Rightarrow> commit_conflict tm tx e
      | Inr _ \<Rightarrow>
          let (ts, lc) = assign_commit_ts (lifecycle tm)
          in (Inr (CommitResult_Committed ts), tx\<lparr>status := Committed, commit_ts := Some ts\<rparr>,
              tm\<lparr>lifecycle := lc_deregister (transaction_id tx) lc\<rparr>))"

definition finish_commit :: "transaction_manager \<Rightarrow> transaction \<Rightarrow> transaction_manager" where
  "finish_commit tm tx =
     release_resources (transaction_id tx)
       (tm\<lparr>lifecycle := push_commit_history (transaction_id tx)
             (case commit_ts tx of Some ts \<Rightarrow> ts | None \<Rightarrow> 0) (lifecycle tm)\<rparr>)"

definition rollback ::
  "transaction_manager \<Rightarrow> transaction \<Rightarrow> undo_record list \<times> transaction \<times> transaction_manager" where
  "rollback tm tx =
     (undo_records tx, tx\<lparr>status := RolledBack\<rparr>,
      release_resources (transaction_id tx)
        (tm\<lparr>lifecycle := lc_deregister (transaction_id tx) (lifecycle tm)\<rparr>))"

definition is_visible :: "transaction_manager \<Rightarrow> u64 \<Rightarrow> u64 \<Rightarrow> bool" where
  "is_visible tm tid ts = lc_is_visible (lifecycle tm) tid ts"

definition commit_history_snapshot :: "transaction_manager \<Rightarrow> (u64 \<rightharpoonup> u64)" where
  "commit_history_snapshot tm = lc_commit_history_snapshot (lifecycle tm)"

definition current_commit_ts :: "transaction_manager \<Rightarrow> u64" where
  "current_commit_ts tm = lc_current_commit_ts (lifecycle tm)"

definition num_active :: "transaction_manager \<Rightarrow> nat" where
  "num_active tm = lc_num_active (lifecycle tm)"

definition active_snapshot :: "transaction_manager \<Rightarrow> transaction_error + (u64 \<rightharpoonup> transaction)" where
  "active_snapshot tm = lc_active_snapshot (lifecycle tm)"

text \<open>\<^verbatim>\<open>Drop\<close>: ask the worker to stop and join it.\<close>

definition tm_drop :: "transaction_manager \<Rightarrow> transaction_manager" where
  "tm_drop tm = tm\<lparr>checkpoint := ck_join_worker (ck_request_shutdown (checkpoint tm))\<rparr>"

end
