(* ===== verification/Txn_System.thy ===== *)
theory Txn_System
  imports Txn_Manager
begin

text \<open>
  The manager under concurrent use. The state is the manager together with the transaction handles
  its clients hold and the \<^verbatim>\<open>begin_write\<close> calls that are parked; a step is one client performing one
  operation, so every interleaving of clients is a sequence of steps. The clients follow the
  protocol of the sources' comments: a handle is committed or rolled back once, \<^verbatim>\<open>finish_commit\<close>
  follows a successful \<^verbatim>\<open>prepare_commit\<close>, and only write transactions register writes and roll back.
  The invariant relates the registry, the counters, the table locks, the conflict tracker and the
  commit history to the handles.
\<close>

section \<open>States and steps\<close>

datatype phase = Running | Prepared

record tsys =
  mgr :: transaction_manager
  handles :: "u64 \<rightharpoonup> transaction \<times> phase"
  parked :: "u64 \<rightharpoonup> transaction"

definition tsys_init :: "transaction_manager_config \<Rightarrow> tsys" where
  "tsys_init config =
     \<lparr>mgr = tm_new_with_config config, handles = Map.empty, parked = Map.empty\<rparr>"

abbreviation act :: "transaction_manager \<Rightarrow> u64 \<rightharpoonup> transaction" where
  "act m \<equiv> guarded (active_transactions (lifecycle m))"

abbreviation hist :: "transaction_manager \<Rightarrow> u64 \<rightharpoonup> u64" where
  "hist m \<equiv> guarded (commit_history (lifecycle m))"

abbreviation locks :: "transaction_manager \<Rightarrow> u64 \<rightharpoonup> u64" where
  "locks m \<equiv> guarded (table_locks (concurrency m))"

abbreviation writes :: "transaction_manager \<Rightarrow> u64 \<times> u64 \<rightharpoonup> u64 list" where
  "writes m \<equiv> guarded (active_writes (row_tracker (concurrency m)))"

abbreviation wcount :: "transaction_manager \<Rightarrow> u32" where
  "wcount m \<equiv> guarded (active_write_count (concurrency m))"

text \<open>
  Room in the counters: fewer than 2 to the 64 transactions and commits ever, and fewer than 2 to
  the 32 transactions open at a time.
\<close>

definition capacity :: "transaction_manager \<Rightarrow> bool" where
  "capacity m \<longleftrightarrow>
     next_id (lifecycle m) \<noteq> u64_max \<and> next_commit_ts (lifecycle m) \<noteq> u64_max \<and>
     active_txn_count (lifecycle m) \<noteq> u32_max \<and> wcount m \<noteq> u32_max"

inductive tm_step :: "tsys \<Rightarrow> tsys \<Rightarrow> bool" where
  Begin_read: "capacity (mgr s) \<Longrightarrow> begin_read (mgr s) = Some (tx, m) \<Longrightarrow>
     tm_step s (s\<lparr>mgr := m, handles := (handles s)(transaction_id tx \<mapsto> (tx, Running))\<rparr>)"
| Begin_write_start: "capacity (mgr s) \<Longrightarrow> begin_write_start (mgr s) = Some (tx, m) \<Longrightarrow>
     tm_step s (s\<lparr>mgr := m, parked := (parked s)(transaction_id tx \<mapsto> tx)\<rparr>)"
| Begin_write_acquire: "capacity (mgr s) \<Longrightarrow> parked s tid = Some tx \<Longrightarrow>
     begin_write_acquire (mgr s) tx = Some (Inr (tx', m)) \<Longrightarrow>
     tm_step s (s\<lparr>mgr := m, parked := (parked s)(tid := None),
                  handles := (handles s)(tid \<mapsto> (tx', Running))\<rparr>)"
| Record_write: "handles s tid = Some (tx, Running) \<Longrightarrow> transaction_type tx = Write \<Longrightarrow>
     tm_step s (s\<lparr>mgr := record_write (mgr s) tid table_id row_id\<rparr>)"
| Lock_table: "handles s tid = Some (tx, Running) \<Longrightarrow> lock_table (mgr s) tid table_id = Inr m \<Longrightarrow>
     tm_step s (s\<lparr>mgr := m\<rparr>)"
| Commit: "capacity (mgr s) \<Longrightarrow> handles s tid = Some (tx, Running) \<Longrightarrow>
     commit (mgr s) tx = (r, tx', m) \<Longrightarrow>
     tm_step s (s\<lparr>mgr := m, handles := (handles s)(tid := None)\<rparr>)"
| Prepare: "capacity (mgr s) \<Longrightarrow> handles s tid = Some (tx, Running) \<Longrightarrow>
     transaction_type tx = Write \<Longrightarrow> prepare_commit (mgr s) tx = (r, tx', m) \<Longrightarrow>
     tm_step s (s\<lparr>mgr := m,
       handles := (handles s)(tid := (case r of Inl _ \<Rightarrow> None | Inr _ \<Rightarrow> Some (tx', Prepared)))\<rparr>)"
| Finish: "handles s tid = Some (tx, Prepared) \<Longrightarrow>
     tm_step s (s\<lparr>mgr := finish_commit (mgr s) tx, handles := (handles s)(tid := None)\<rparr>)"
| Rollback: "handles s tid = Some (tx, Running) \<Longrightarrow> transaction_type tx = Write \<Longrightarrow>
     rollback (mgr s) tx = (recs, tx', m) \<Longrightarrow>
     tm_step s (s\<lparr>mgr := m, handles := (handles s)(tid := None)\<rparr>)"

definition tm_reachable :: "transaction_manager_config \<Rightarrow> tsys \<Rightarrow> bool" where
  "tm_reachable config s \<longleftrightarrow> tm_step\<^sup>*\<^sup>* (tsys_init config) s"

section \<open>The invariant\<close>

definition running :: "(u64 \<rightharpoonup> transaction \<times> phase) \<Rightarrow> u64 set" where
  "running h = {tid. \<exists>tx. h tid = Some (tx, Running)}"

definition writers :: "(u64 \<rightharpoonup> transaction \<times> phase) \<Rightarrow> u64 set" where
  "writers h = {tid. \<exists>tx p. h tid = Some (tx, p) \<and> transaction_type tx = Write}"

definition healthy :: "transaction_manager \<Rightarrow> bool" where
  "healthy m \<longleftrightarrow>
     \<not> is_poisoned (active_transactions (lifecycle m)) \<and> \<not> is_poisoned (commit_history (lifecycle m)) \<and>
     \<not> is_poisoned (table_locks (concurrency m)) \<and> \<not> is_poisoned (active_write_count (concurrency m)) \<and>
     \<not> is_poisoned (active_writes (row_tracker (concurrency m)))"

definition ids_ok :: "tsys \<Rightarrow> bool" where
  "ids_ok s \<longleftrightarrow>
     (\<forall>tid tx p. handles s tid = Some (tx, p) \<longrightarrow>
        transaction_id tx = tid \<and> tid < next_id (lifecycle (mgr s))) \<and>
     (\<forall>tid tx. parked s tid = Some tx \<longrightarrow>
        transaction_id tx = tid \<and> tid < next_id (lifecycle (mgr s)) \<and> transaction_type tx = Write \<and>
        written_rows tx = [] \<and> handles s tid = None)"

definition active_ok :: "tsys \<Rightarrow> bool" where
  "active_ok s \<longleftrightarrow>
     dom (act (mgr s)) = running (handles s) \<and> finite (running (handles s)) \<and>
     unat (active_txn_count (lifecycle (mgr s))) = card (running (handles s))"

definition writers_ok :: "tsys \<Rightarrow> bool" where
  "writers_ok s \<longleftrightarrow>
     finite (writers (handles s)) \<and> unat (wcount (mgr s)) = card (writers (handles s))"

definition locks_ok :: "tsys \<Rightarrow> bool" where
  "locks_ok s \<longleftrightarrow> ran (locks (mgr s)) \<subseteq> dom (handles s)"

definition tracker_ok :: "tsys \<Rightarrow> bool" where
  "tracker_ok s \<longleftrightarrow>
     (\<forall>row ws. writes (mgr s) row = Some ws \<longrightarrow> ws \<noteq> [] \<and> distinct ws \<and> set ws \<subseteq> writers (handles s)) \<and>
     (\<forall>tid tx row. act (mgr s) tid = Some tx \<longrightarrow>
        (row \<in> set (written_rows tx) \<longleftrightarrow> (\<exists>ws. writes (mgr s) row = Some ws \<and> tid \<in> set ws)))"

text \<open>The timestamps in use: those of the commit history and those of the prepared handles.\<close>

definition stamps :: "(u64 \<rightharpoonup> u64) \<Rightarrow> (u64 \<rightharpoonup> transaction \<times> phase) \<Rightarrow> (u64 \<rightharpoonup> u64)" where
  "stamps history h tid =
     (case history tid of
        Some ts \<Rightarrow> Some ts
      | None \<Rightarrow> (case h tid of Some (tx, Prepared) \<Rightarrow> commit_ts tx | _ \<Rightarrow> None))"

definition stamps_ok :: "(u64 \<rightharpoonup> u64) \<Rightarrow> u64 \<Rightarrow> bool" where
  "stamps_ok st n \<longleftrightarrow> inj_on st (dom st) \<and> ran st \<subseteq> {..<n}"

definition history_ok :: "tsys \<Rightarrow> bool" where
  "history_ok s \<longleftrightarrow>
     (\<forall>tid ts. hist (mgr s) tid = Some ts \<longrightarrow>
        tid < next_id (lifecycle (mgr s)) \<and> handles s tid = None \<and> parked s tid = None) \<and>
     (\<forall>tid tx. handles s tid = Some (tx, Prepared) \<longrightarrow>
        transaction_type tx = Write \<and> commit_ts tx \<noteq> None) \<and>
     stamps_ok (stamps (hist (mgr s)) (handles s)) (next_commit_ts (lifecycle (mgr s)))"

definition tm_inv :: "tsys \<Rightarrow> bool" where
  "tm_inv s \<longleftrightarrow>
     healthy (mgr s) \<and> ids_ok s \<and> active_ok s \<and> writers_ok s \<and> locks_ok s \<and> tracker_ok s \<and>
     history_ok s"

section \<open>What the operations do to the projections\<close>

lemma lock_read_eq_Some: "lock_read mu = Some x \<longleftrightarrow> \<not> is_poisoned mu \<and> x = guarded mu"
  by (cases mu) (auto simp: lock_read_def)

lemma drop_writer_Some:
  "drop_writer tid w row = Some ws \<longleftrightarrow>
     (\<exists>ws0. w row = Some ws0 \<and> ws = filter (\<lambda>x. x \<noteq> tid) ws0 \<and> ws \<noteq> [])"
  by (auto simp: drop_writer_def split: option.splits)

lemma drop_writer_keeps:
  assumes "i \<noteq> tid"
  shows "(\<exists>ws. drop_writer tid w row = Some ws \<and> i \<in> set ws) \<longleftrightarrow> (\<exists>ws. w row = Some ws \<and> i \<in> set ws)"
  using assms by (auto simp: drop_writer_Some filter_empty_conv)

lemma lifecycle_release_resources [txn_simps]:
  "lifecycle (release_resources tid m) = lifecycle m"
  "checkpoint (release_resources tid m) = checkpoint m"
  by (simp_all add: release_resources_def Let_def)

lemma concurrency_release_resources [txn_simps]:
  assumes "healthy m"
  shows "locks (release_resources tid m) = (\<lambda>t. if locks m t = Some tid then None else locks m t)"
    and "writes (release_resources tid m) = drop_writer tid (writes m)"
    and "wcount (release_resources tid m) = (if wcount m > 0 then wcount m - 1 else wcount m)"
    and "healthy (release_resources tid m)"
  using assms
  by (simp_all add: release_resources_def healthy_def release_locks_def clear_txn_writes_def
      release_write_def Let_def)

lemma healthy_flags [txn_simps]:
  assumes "healthy m"
  shows "\<not> is_poisoned (active_transactions (lifecycle m))" "\<not> is_poisoned (commit_history (lifecycle m))"
    and "\<not> is_poisoned (table_locks (concurrency m))"
  using assms by (simp_all add: healthy_def)

lemma healthy_update_lifecycle [txn_simps]:
  "healthy m \<Longrightarrow> healthy (m\<lparr>lifecycle := lc\<rparr>) \<longleftrightarrow>
     \<not> is_poisoned (active_transactions lc) \<and> \<not> is_poisoned (commit_history lc)"
  by (auto simp: healthy_def)

lemma lc_deregister_proj [txn_simps]:
  "\<not> is_poisoned (active_transactions lc) \<Longrightarrow>
     guarded (active_transactions (lc_deregister tid lc)) = (guarded (active_transactions lc))(tid := None)"
  "is_poisoned (active_transactions (lc_deregister tid lc)) = is_poisoned (active_transactions lc)"
  "commit_history (lc_deregister tid lc) = commit_history lc"
  "next_id (lc_deregister tid lc) = next_id lc"
  "next_commit_ts (lc_deregister tid lc) = next_commit_ts lc"
  "active_txn_count (lc_deregister tid lc) = active_txn_count lc - 1"
  by (simp_all add: lc_deregister_def)

lemma push_commit_history_proj [txn_simps]:
  "\<not> is_poisoned (commit_history lc) \<Longrightarrow>
     guarded (commit_history (push_commit_history tid ts lc)) = (guarded (commit_history lc))(tid \<mapsto> ts)"
  "is_poisoned (commit_history (push_commit_history tid ts lc)) = is_poisoned (commit_history lc)"
  "active_transactions (push_commit_history tid ts lc) = active_transactions lc"
  "next_id (push_commit_history tid ts lc) = next_id lc"
  "next_commit_ts (push_commit_history tid ts lc) = next_commit_ts lc"
  "active_txn_count (push_commit_history tid ts lc) = active_txn_count lc"
  by (simp_all add: push_commit_history_def)

lemma lc_register_proj [txn_simps]:
  "\<not> is_poisoned (active_transactions lc) \<Longrightarrow>
     guarded (active_transactions (lc_register tx lc)) =
       (guarded (active_transactions lc))(transaction_id tx \<mapsto> tx)"
  "is_poisoned (active_transactions (lc_register tx lc)) = is_poisoned (active_transactions lc)"
  "commit_history (lc_register tx lc) = commit_history lc"
  "next_id (lc_register tx lc) = next_id lc"
  "next_commit_ts (lc_register tx lc) = next_commit_ts lc"
  "active_txn_count (lc_register tx lc) = active_txn_count lc + 1"
  by (simp_all add: lc_register_def)

section \<open>Handle sets\<close>

lemma running_upd [simp]:
  "running (h(tid \<mapsto> (tx, Running))) = insert tid (running h)"
  "running (h(tid := None)) = running h - {tid}"
  "running (h(tid \<mapsto> (tx, Prepared))) = running h - {tid}"
  by (auto simp: running_def)

lemma writers_upd [simp]:
  "writers (h(tid := None)) = writers h - {tid}"
  "transaction_type tx = Write \<Longrightarrow> writers (h(tid \<mapsto> (tx, p))) = insert tid (writers h)"
  "transaction_type tx = ReadOnly \<Longrightarrow> writers (h(tid \<mapsto> (tx, p))) = writers h - {tid}"
  by (auto simp: writers_def)

lemma running_subset: "running h \<subseteq> dom h" and writers_subset: "writers h \<subseteq> dom h"
  by (auto simp: running_def writers_def)

lemma txn_type_cases: "transaction_type tx = ReadOnly \<or> transaction_type tx = Write"
  by (cases "transaction_type tx") auto

lemma fresh_id:
  assumes "ids_ok s"
  shows "handles s (next_id (lifecycle (mgr s))) = None" "parked s (next_id (lifecycle (mgr s))) = None"
  using assms unfolding ids_ok_def by (metis less_irrefl not_None_eq surj_pair)+

lemma handle_facts:
  assumes "ids_ok s" "handles s tid = Some (tx, p)"
  shows "transaction_id tx = tid" "tid < next_id (lifecycle (mgr s))" "parked s tid = None"
  using assms unfolding ids_ok_def by (blast, blast, metis not_None_eq option.distinct(1))

lemma history_okD:
  assumes "history_ok s"
  shows "hist (mgr s) tid = Some ts \<Longrightarrow>
      tid < next_id (lifecycle (mgr s)) \<and> handles s tid = None \<and> parked s tid = None"
    and "handles s tid = Some (tx, Prepared) \<Longrightarrow> transaction_type tx = Write \<and> commit_ts tx \<noteq> None"
    and "stamps_ok (stamps (hist (mgr s)) (handles s)) (next_commit_ts (lifecycle (mgr s)))"
  using assms unfolding history_ok_def by blast+

lemma fresh_uncommitted:
  assumes "history_ok s"
  shows "hist (mgr s) (next_id (lifecycle (mgr s))) = None"
  using history_okD(1) [OF assms, of "next_id (lifecycle (mgr s))"]
  by (cases "hist (mgr s) (next_id (lifecycle (mgr s)))") auto

lemma handle_not_committed:
  assumes "history_ok s" "handles s tid = Some (tx, p)"
  shows "hist (mgr s) tid = None"
  using history_okD(1) [OF assms(1), of tid] assms(2) by (cases "hist (mgr s) tid") auto

lemma stamps_unchanged [simp]:
  "h tid = None \<Longrightarrow> stamps H (h(tid \<mapsto> (tx, Running))) = stamps H h"
  "h tid = Some (tx', Running) \<Longrightarrow> stamps H (h(tid := None)) = stamps H h"
  "h tid = Some (tx, Prepared) \<Longrightarrow> H tid = None \<Longrightarrow> commit_ts tx = Some ts \<Longrightarrow>
     (stamps H (h(tid := None)))(tid \<mapsto> ts) = stamps H h"
  by (auto simp: stamps_def fun_eq_iff split: option.splits)

lemma stamps_new [simp]:
  "H tid = None \<Longrightarrow> commit_ts tx = Some ts \<Longrightarrow>
     stamps H (h(tid \<mapsto> (tx, Prepared))) = (stamps H h)(tid \<mapsto> ts)"
  "stamps (H(tid \<mapsto> ts)) h = (stamps H h)(tid \<mapsto> ts)"
  by (auto simp: stamps_def fun_eq_iff split: option.splits)

lemma stamps_ok_new:
  assumes "stamps_ok st n" "n \<noteq> u64_max"
  shows "stamps_ok (st(tid \<mapsto> n)) (n + 1)"
proof -
  have "st x \<noteq> Some n" for x using assms(1) by (auto simp: stamps_ok_def ran_def subset_iff)
  then show ?thesis
    using assms(1) word_less_Suc [OF assms(2)] by (auto simp: stamps_ok_def inj_on_def dom_def ran_def)
qed

lemma stamps_ok_mono:
  "stamps_ok st n \<Longrightarrow> n \<noteq> u64_max \<Longrightarrow> stamps_ok st (n + 1)"
  using word_less_Suc by (fastforce simp: stamps_ok_def)

lemma init_inv: "tm_inv (tsys_init config)"
  by (simp add: tm_inv_def tsys_init_def tm_new_with_config_def lifecycle_new_def cc_new_def
      tracker_new_def healthy_def ids_ok_def active_ok_def writers_ok_def locks_ok_def tracker_ok_def
      history_ok_def stamps_ok_def running_def writers_def
      stamps_def [abs_def])


lemma tm_inv_partsD:
  assumes "tm_inv s"
  shows "healthy (mgr s)" "ids_ok s" "active_ok s" "writers_ok s" "locks_ok s" "tracker_ok s" "history_ok s"
  using assms by (simp_all add: tm_inv_def)

lemma tracker_okD:
  assumes "tracker_ok s"
  shows "writes (mgr s) row = Some ws \<Longrightarrow> ws \<noteq> [] \<and> distinct ws \<and> set ws \<subseteq> writers (handles s)"
    and "act (mgr s) tid = Some tx \<Longrightarrow>
      row \<in> set (written_rows tx) \<longleftrightarrow> (\<exists>ws. writes (mgr s) row = Some ws \<and> tid \<in> set ws)"
  using assms unfolding tracker_ok_def by blast+

text \<open>A transaction that starts running: \<open>m\<close> extends the registry by it.\<close>

lemma start_running_inv:
  assumes inv: "tm_inv s" and h: "healthy m"
    and n: "next_id (lifecycle (mgr s)) \<le> next_id (lifecycle m)" "tid < next_id (lifecycle m)"
    and tid: "handles s tid = None" "hist (mgr s) tid = None"
    and tx: "transaction_id tx = tid" "written_rows tx = []"
    and act: "act m = (act (mgr s))(tid \<mapsto> tx)"
    and cnt: "active_txn_count (lifecycle m) = active_txn_count (lifecycle (mgr s)) + 1"
             "active_txn_count (lifecycle (mgr s)) \<noteq> u32_max"
    and hist: "hist m = hist (mgr s)" "next_commit_ts (lifecycle m) = next_commit_ts (lifecycle (mgr s))"
    and conc: "locks m = locks (mgr s)" "writes m = writes (mgr s)"
    and wc: "unat (wcount m) = unat (wcount (mgr s)) + (if transaction_type tx = Write then 1 else 0)"
  shows "tm_inv (s\<lparr>mgr := m, parked := (parked s)(tid := None),
                   handles := (handles s)(tid \<mapsto> (tx, Running))\<rparr>)" (is "tm_inv ?s")
proof -
  note p = tm_inv_partsD [OF inv]
  have nr: "tid \<notin> running (handles s)" and nw: "tid \<notin> writers (handles s)"
    using tid by (auto simp: running_def writers_def)
  have lt: "x < next_id (lifecycle m)" if "x < next_id (lifecycle (mgr s))" for x
    using that n(1) by simp
  have "ids_ok ?s"
    using p(2) n(2) tx by (auto simp: ids_ok_def intro: lt split: if_splits)
  moreover have "active_ok ?s"
    using p(3) nr cnt by (simp add: active_ok_def act unat_Suc_word)
  moreover have "writers_ok ?s"
    using p(4) nw wc txn_type_cases [of tx] by (auto simp: writers_ok_def)
  moreover have "locks_ok ?s"
    using p(5) by (auto simp: locks_ok_def conc)
  moreover have "tracker_ok ?s"
  proof -
    have sub: "writers (handles s) \<subseteq> writers (handles ?s)"
      using nw txn_type_cases [of tx] by auto
    show ?thesis
      unfolding tracker_ok_def
    proof (intro conjI allI impI)
      fix row ws assume "writes (mgr ?s) row = Some ws"
      then show "ws \<noteq> []" "distinct ws" "set ws \<subseteq> writers (handles ?s)"
        using tracker_okD(1) [OF p(6), of row ws] sub by (auto simp: conc)
    next
      fix i tx' row assume "act (mgr ?s) i = Some tx'"
      then show "row \<in> set (written_rows tx') \<longleftrightarrow> (\<exists>ws. writes (mgr ?s) row = Some ws \<and> i \<in> set ws)"
        using tracker_okD(2) [OF p(6), of i tx' row] tracker_okD(1) [OF p(6), of row] nw tx(2)
        by (cases "i = tid") (auto simp: conc act tx)
    qed
  qed
  moreover have "history_ok ?s"
    using p(7) n tid by (auto simp: history_ok_def hist intro: lt)
  ultimately show ?thesis
    using h by (simp add: tm_inv_def)
qed

text \<open>A running transaction that leaves: its handle, locks and registered writes go.\<close>

lemma stop_running_inv:
  assumes inv: "tm_inv s" and h: "healthy m"
    and tid: "handles s tid = Some (tx, Running)"
    and n: "next_id (lifecycle m) = next_id (lifecycle (mgr s))"
    and act: "act m = (act (mgr s))(tid := None)"
    and cnt: "active_txn_count (lifecycle m) = active_txn_count (lifecycle (mgr s)) - 1"
    and locks: "locks m = (\<lambda>t. if locks (mgr s) t = Some tid then None else locks (mgr s) t)"
    and wr: "(if transaction_type tx = Write
              then writes m = drop_writer tid (writes (mgr s)) \<and> 
                   wcount m = (if wcount (mgr s) > 0 then wcount (mgr s) - 1 else wcount (mgr s))
              else writes m = writes (mgr s) \<and> wcount m = wcount (mgr s))"
    and ho: "history_ok (s\<lparr>mgr := m, handles := (handles s)(tid := None)\<rparr>)"
  shows "tm_inv (s\<lparr>mgr := m, handles := (handles s)(tid := None)\<rparr>)" (is "tm_inv ?s")
proof -
  note p = tm_inv_partsD [OF inv]
  have r: "tid \<in> running (handles s)" using tid by (auto simp: running_def)
  have "card (running (handles s)) > 0"
    using p(3) r by (auto simp: active_ok_def card_gt_0_iff)
  then have "active_ok ?s"
    using p(3) r by (simp add: active_ok_def act cnt unat_pred_word)
  moreover have "ids_ok ?s"
    using p(2) by (auto simp: ids_ok_def n)
  moreover have "locks_ok ?s"
    using p(5) by (auto simp: locks_ok_def locks ran_def split: if_splits)
  moreover have "writers_ok ?s \<and> tracker_ok ?s"
  proof (cases "transaction_type tx")
    case Write
    have w: "tid \<in> writers (handles s)" using tid Write by (auto simp: writers_def)
    have c: "card (writers (handles s)) > 0"
      using p(4) w by (auto simp: writers_ok_def card_gt_0_iff)
    then have "wcount (mgr s) > 0"
      using p(4) by (simp add: writers_ok_def word_less_nat_alt)
    then have "writers_ok ?s"
      using p(4) w c wr Write by (simp add: writers_ok_def unat_pred_word)
    moreover have "tracker_ok ?s"
      unfolding tracker_ok_def
    proof (intro conjI allI impI)
      fix row ws assume "writes (mgr ?s) row = Some ws"
      then show "ws \<noteq> []" "distinct ws" "set ws \<subseteq> writers (handles ?s)"
        using tracker_okD(1) [OF p(6), of row] wr Write by (auto simp: drop_writer_Some)
    next
      fix i tx' row assume i: "act (mgr ?s) i = Some tx'"
      then have "i \<noteq> tid" "act (mgr s) i = Some tx'" by (auto simp: act split: if_splits)
      then show "row \<in> set (written_rows tx') \<longleftrightarrow> (\<exists>ws. writes (mgr ?s) row = Some ws \<and> i \<in> set ws)"
        using tracker_okD(2) [OF p(6), of i tx' row] wr Write by (simp add: drop_writer_keeps)
    qed
    ultimately show ?thesis by simp
  next
    case ReadOnly
    have w: "tid \<notin> writers (handles s)" using tid ReadOnly by (auto simp: writers_def)
    then show ?thesis
      using p(4,6) wr ReadOnly by (auto simp: writers_ok_def tracker_ok_def act)
  qed
  ultimately show ?thesis
    using h ho by (simp add: tm_inv_def)
qed


section \<open>Every step keeps the invariant\<close>

lemma begin_read_inv:
  assumes inv: "tm_inv s" and cap: "capacity (mgr s)" and b: "begin_read (mgr s) = Some (tx, m)"
  shows "tm_inv (s\<lparr>mgr := m, handles := (handles s)(transaction_id tx \<mapsto> (tx, Running))\<rparr>)"
proof -
  let ?n = "next_id (lifecycle (mgr s))"
  from b have tx: "tx = (transaction_new ?n ReadOnly)\<lparr>snapshot_ts := Some (next_commit_ts (lifecycle (mgr s)))\<rparr>"
    and m: "m = (mgr s)\<lparr>lifecycle := lc_register tx ((lifecycle (mgr s))\<lparr>next_id := ?n + 1\<rparr>)\<rparr>"
    by (auto simp: begin_read_def gate_new_transaction_def next_txn_id_def lc_snapshot_ts_def Let_def
        split: if_splits)
  have id: "transaction_id tx = ?n" "transaction_type tx = ReadOnly" "written_rows tx = []"
    by (simp_all add: tx transaction_new_def)
  note p = tm_inv_partsD [OF inv]
  note fresh = fresh_id [OF p(2)]
  note hn = fresh_uncommitted [OF p(7)]
  have wi: "\<And>x. x < ?n + 1 \<longleftrightarrow> x < ?n \<or> x = ?n"
    using cap by (intro word_less_Suc) (simp add: capacity_def)
  have "tm_inv (s\<lparr>mgr := m, parked := (parked s)(?n := None), handles := (handles s)(?n \<mapsto> (tx, Running))\<rparr>)"
    using cap fresh hn p(1)
    by (intro start_running_inv [OF inv])
       (simp_all add: m id txn_simps wi capacity_def less_imp_le)
  moreover have "(parked s)(?n := None) = parked s"
    using fresh by auto
  ultimately show ?thesis by (simp add: id)
qed


lemma begin_write_start_inv:
  assumes inv: "tm_inv s" and cap: "capacity (mgr s)" and b: "begin_write_start (mgr s) = Some (tx, m)"
  shows "tm_inv (s\<lparr>mgr := m, parked := (parked s)(transaction_id tx \<mapsto> tx)\<rparr>)" (is "tm_inv ?s")
proof -
  let ?n = "next_id (lifecycle (mgr s))"
  from b have tx: "tx = (transaction_new ?n Write)\<lparr>snapshot_ts := Some (next_commit_ts (lifecycle (mgr s)))\<rparr>"
    and m: "m = (mgr s)\<lparr>lifecycle := (lifecycle (mgr s))\<lparr>next_id := ?n + 1\<rparr>\<rparr>"
    by (auto simp: begin_write_start_def gate_new_transaction_def next_txn_id_def lc_snapshot_ts_def
        split: if_splits)
  have id: "transaction_id tx = ?n" "transaction_type tx = Write" "written_rows tx = []"
    by (simp_all add: tx transaction_new_def)
  note p = tm_inv_partsD [OF inv]
  note fresh = fresh_id [OF p(2)]
  note hn = fresh_uncommitted [OF p(7)]
  have wi: "\<And>x. x < ?n + 1 \<longleftrightarrow> x < ?n \<or> x = ?n"
    using cap by (intro word_less_Suc) (simp add: capacity_def)
  have "ids_ok ?s"
    using p(2) fresh by (auto simp: ids_ok_def m id wi)
  moreover have "history_ok ?s"
    using p(7) hn by (auto simp: history_ok_def m id wi)
  ultimately show ?thesis
    using p by (simp add: tm_inv_def m healthy_def active_ok_def writers_ok_def locks_ok_def tracker_ok_def)
qed

lemma acquire_write_Some:
  assumes "acquire_write cc = Some (Inr cc')"
  shows "guarded (active_write_count cc') = guarded (active_write_count cc) + 1"
    and "is_poisoned (active_write_count cc') = is_poisoned (active_write_count cc)"
    and "\<not> concurrent_writes cc \<Longrightarrow> guarded (active_write_count cc) = 0"
    and "table_locks cc' = table_locks cc" "row_tracker cc' = row_tracker cc"
    and "concurrent_writes cc' = concurrent_writes cc"
  using assms
  by (auto simp: acquire_write_def word_gt_0 lock_read_eq_Some split: option.splits if_splits)

lemma begin_write_acquire_inv:
  assumes inv: "tm_inv s" and cap: "capacity (mgr s)" and pk: "parked s tid = Some tx"
    and b: "begin_write_acquire (mgr s) tx = Some (Inr (tx', m))"
  shows "tm_inv (s\<lparr>mgr := m, parked := (parked s)(tid := None),
                   handles := (handles s)(tid \<mapsto> (tx', Running))\<rparr>)"
proof -
  from b obtain cc where cc: "acquire_write (concurrency (mgr s)) = Some (Inr cc)" and tx': "tx' = tx"
    and m: "m = (mgr s)\<lparr>concurrency := cc, lifecycle := lc_register tx (lifecycle (mgr s))\<rparr>"
    by (auto simp: begin_write_acquire_def split: option.splits sum.splits)
  note p = tm_inv_partsD [OF inv]
  note acc = acquire_write_Some [OF cc]
  have id: "transaction_id tx = tid" "transaction_type tx = Write" "written_rows tx = []"
    "handles s tid = None" "tid < next_id (lifecycle (mgr s))"
    using p(2) pk by (auto simp: ids_ok_def)
  have hn: "hist (mgr s) tid = None"
    using history_okD(1) [OF p(7), of tid] pk by (cases "hist (mgr s) tid") auto
  have h: "healthy m"
    using p(1) by (simp add: m healthy_def acc lc_register_def)
  show ?thesis
    using cap hn p(1) id h
    by (intro start_running_inv [OF inv])
       (simp_all add: m tx' txn_simps capacity_def acc unat_Suc_word)
qed

lemma record_write_proj [txn_simps]:
  assumes "healthy m"
  shows "act (record_write m tid t r) =
           (case act m tid of Some tx \<Rightarrow> (act m)(tid \<mapsto> txn_record_write tx t r) | None \<Rightarrow> act m)"
    and "writes (record_write m tid t r) =
           (writes m)((t, r) \<mapsto> List.insert tid (case writes m (t, r) of Some ws \<Rightarrow> ws | None \<Rightarrow> []))"
    and "healthy (record_write m tid t r)"
    and "locks (record_write m tid t r) = locks m" "wcount (record_write m tid t r) = wcount m"
    and "hist (record_write m tid t r) = hist m"
    and "next_id (lifecycle (record_write m tid t r)) = next_id (lifecycle m)"
    and "next_commit_ts (lifecycle (record_write m tid t r)) = next_commit_ts (lifecycle m)"
    and "active_txn_count (lifecycle (record_write m tid t r)) = active_txn_count (lifecycle m)"
  using assms by (simp_all add: record_write_def healthy_def register_write_def split: option.splits)

lemma record_write_inv:
  assumes inv: "tm_inv s" and tid: "handles s tid = Some (tx, Running)" "transaction_type tx = Write"
  shows "tm_inv (s\<lparr>mgr := record_write (mgr s) tid t r\<rparr>)" (is "tm_inv ?s")
proof -
  note p = tm_inv_partsD [OF inv]
  have "tid \<in> running (handles s)" using tid by (auto simp: running_def)
  then obtain tx0 where a: "act (mgr s) tid = Some tx0"
    using p(3) by (auto simp: active_ok_def)
  have w: "tid \<in> writers (handles s)" using tid by (auto simp: writers_def)
  have "tracker_ok ?s"
    unfolding tracker_ok_def
  proof (intro conjI allI impI)
    fix row ws assume ws: "writes (mgr ?s) row = Some ws"
    then show "ws \<noteq> []" "distinct ws" "set ws \<subseteq> writers (handles ?s)"
      using tracker_okD(1) [OF p(6), of row] w
      by (auto simp: txn_simps p(1) List.insert_def split: if_splits option.splits)
  next
    fix i tx' row assume i: "act (mgr ?s) i = Some tx'"
    show "row \<in> set (written_rows tx') \<longleftrightarrow> (\<exists>ws. writes (mgr ?s) row = Some ws \<and> i \<in> set ws)"
      using i a tracker_okD(2) [OF p(6), of i _ row]
      by (auto simp: txn_simps p(1) txn_record_write_def split: if_splits option.splits)
  qed
  moreover have "active_ok ?s"
    using p(3) a by (auto simp: active_ok_def txn_simps p(1))
  ultimately show ?thesis
    using p by (simp add: tm_inv_def txn_simps ids_ok_def writers_ok_def locks_ok_def history_ok_def)
qed

lemma lock_table_Inr:
  assumes "lock_table m tid t = Inr m'"
  shows "lifecycle m' = lifecycle m" "locks m' = (locks m)(t \<mapsto> tid)" "writes m' = writes m"
    "wcount m' = wcount m" "healthy m' = healthy m" "checkpoint m' = checkpoint m"
    "locks m t = None \<or> locks m t = Some tid"
  using assms
  by (auto simp: lock_table_def cc_lock_table_def Let_def healthy_def lock_read_eq_Some
      split: sum.splits option.splits if_splits)

lemma lock_table_inv:
  assumes inv: "tm_inv s" and tid: "handles s tid = Some (tx, Running)"
    and l: "lock_table (mgr s) tid t = Inr m"
  shows "tm_inv (s\<lparr>mgr := m\<rparr>)"
proof -
  note p = tm_inv_partsD [OF inv] and l' = lock_table_Inr [OF l]
  have "locks_ok (s\<lparr>mgr := m\<rparr>)"
    using p(5) tid by (auto simp: locks_ok_def l' ran_def)
  then show ?thesis
    using p by (simp add: tm_inv_def l' ids_ok_def active_ok_def writers_ok_def history_ok_def tracker_ok_def)
qed


lemma rollback_inv:
  assumes inv: "tm_inv s" and tid: "handles s tid = Some (tx, Running)" "transaction_type tx = Write"
  shows "tm_inv (s\<lparr>mgr := release_resources tid ((mgr s)\<lparr>lifecycle := lc_deregister tid (lifecycle (mgr s))\<rparr>),
                   handles := (handles s)(tid := None)\<rparr>)"
proof -
  note p = tm_inv_partsD [OF inv]
  show ?thesis
    using p(1,7) tid
    by (intro stop_running_inv [OF inv]) (auto simp: txn_simps history_ok_def)
qed

lemma commit_read_only_inv:
  assumes inv: "tm_inv s" and tid: "handles s tid = Some (tx, Running)" "transaction_type tx = ReadOnly"
    and cap: "capacity (mgr s)"
  shows "tm_inv (s\<lparr>mgr := snd (snd (commit_read_only (mgr s) tx)), handles := (handles s)(tid := None)\<rparr>)"
proof -
  note p = tm_inv_partsD [OF inv]
  note id = handle_facts [OF p(2) tid(1)]
  have "history_ok (s\<lparr>mgr := snd (snd (commit_read_only (mgr s) tx)), handles := (handles s)(tid := None)\<rparr>)"
    using p(7) tid cap
    by (auto simp: history_ok_def commit_read_only_def assign_commit_ts_def txn_simps capacity_def
        intro: stamps_ok_mono)
  moreover have "healthy (snd (snd (commit_read_only (mgr s) tx)))"
    using p(1) by (simp add: healthy_def commit_read_only_def assign_commit_ts_def release_locks_def
        lc_deregister_def)
  ultimately show ?thesis
    using p(1) tid
    by (intro stop_running_inv [OF inv])
       (auto simp: txn_simps commit_read_only_def assign_commit_ts_def release_locks_def id)
qed

lemma commit_write_inv:
  assumes inv: "tm_inv s" and tid: "handles s tid = Some (tx, Running)" "transaction_type tx = Write"
    and cap: "capacity (mgr s)"
  defines "ts \<equiv> next_commit_ts (lifecycle (mgr s))"
  shows "tm_inv (s\<lparr>mgr := release_resources tid ((mgr s)\<lparr>lifecycle :=
           lc_deregister tid (push_commit_history tid ts ((lifecycle (mgr s))\<lparr>next_commit_ts := ts + 1\<rparr>))\<rparr>),
          handles := (handles s)(tid := None)\<rparr>)" (is "tm_inv (s\<lparr>mgr := release_resources tid ?m, handles := _\<rparr>)")
proof -
  note p = tm_inv_partsD [OF inv]
  have fs: "stamps_ok ((stamps (hist (mgr s)) (handles s))(tid \<mapsto> ts)) (ts + 1)"
    using p(7) cap unfolding ts_def by (simp add: history_ok_def capacity_def stamps_ok_new)
  note n = handle_facts [OF p(2) tid(1)]
  have "history_ok (s\<lparr>mgr := release_resources tid ?m, handles := (handles s)(tid := None)\<rparr>)"
    using p(7,1) n tid fs
    by (auto simp: history_ok_def txn_simps split: if_splits)
  then show ?thesis
    using p(1) tid
    by (intro stop_running_inv [OF inv]) (auto simp: txn_simps)
qed


lemma prepare_inv:
  assumes inv: "tm_inv s" and tid: "handles s tid = Some (tx, Running)" "transaction_type tx = Write"
    and cap: "capacity (mgr s)"
  defines "ts \<equiv> next_commit_ts (lifecycle (mgr s))"
  shows "tm_inv (s\<lparr>mgr := (mgr s)\<lparr>lifecycle := lc_deregister tid ((lifecycle (mgr s))\<lparr>next_commit_ts := ts + 1\<rparr>)\<rparr>,
          handles := (handles s)(tid \<mapsto> (tx\<lparr>status := Committed, commit_ts := Some ts\<rparr>, Prepared))\<rparr>)"
    (is "tm_inv ?s")
proof -
  note p = tm_inv_partsD [OF inv]
  have fs: "stamps_ok ((stamps (hist (mgr s)) (handles s))(tid \<mapsto> ts)) (ts + 1)"
    using p(7) cap unfolding ts_def by (simp add: history_ok_def capacity_def stamps_ok_new)
  note hn = handle_not_committed [OF p(7) tid(1)]
  have r: "tid \<in> running (handles s)" and w: "insert tid (writers (handles s)) = writers (handles s)"
    using tid by (auto simp: running_def writers_def)
  have "card (running (handles s)) > 0"
    using p(3) r by (auto simp: active_ok_def card_gt_0_iff)
  then have "active_ok ?s"
    using p(3) r by (simp add: active_ok_def txn_simps unat_pred_word p(1))
  moreover have "tracker_ok ?s"
    using p(6) tid(2) unfolding tracker_ok_def
    by (simp add: txn_simps p(1) w del: split_paired_All split_paired_Ex)
  moreover have "history_ok ?s"
    using p(7) tid fs hn
    by (auto simp: history_ok_def txn_simps split: if_splits)
  moreover have "locks_ok ?s"
    using p(5) by (auto simp: locks_ok_def)
  moreover have "ids_ok ?s"
    using p(2) tid handle_facts [OF p(2) tid(1)] by (auto simp: ids_ok_def txn_simps)
  ultimately show ?thesis
    using p(1,4) tid by (simp add: tm_inv_def txn_simps writers_ok_def w)
qed

lemma finish_inv:
  assumes inv: "tm_inv s" and tid: "handles s tid = Some (tx, Prepared)"
  shows "tm_inv (s\<lparr>mgr := finish_commit (mgr s) tx, handles := (handles s)(tid := None)\<rparr>)" (is "tm_inv ?s")
proof -
  note p = tm_inv_partsD [OF inv]
  note id = handle_facts [OF p(2) tid]
  obtain ts where ts: "commit_ts tx = Some ts" "transaction_type tx = Write"
    using history_okD(2) [OF p(7) tid] by blast
  note hn = handle_not_committed [OF p(7) tid]
  let ?lc = "push_commit_history tid ts (lifecycle (mgr s))"
  have f: "finish_commit (mgr s) tx = release_resources tid ((mgr s)\<lparr>lifecycle := ?lc\<rparr>)"
    by (simp add: finish_commit_def id ts)
  have w: "tid \<in> writers (handles s)" and nr: "tid \<notin> running (handles s)"
    using tid ts by (auto simp: writers_def running_def)
  have c: "card (writers (handles s)) > 0"
    using p(4) w by (auto simp: writers_ok_def card_gt_0_iff)
  then have "wcount (mgr s) > 0"
    using p(4) by (simp add: writers_ok_def word_less_nat_alt)
  then have "writers_ok ?s"
    using p(1,4) w c by (simp add: writers_ok_def f txn_simps unat_pred_word)
  moreover have "history_ok ?s"
    using p(1,7) id tid ts hn
    by (auto simp: history_ok_def f txn_simps split: if_splits)
  moreover have "locks_ok ?s"
    using p(1,5) by (auto simp: locks_ok_def f txn_simps ran_def split: if_splits)
  moreover have "active_ok ?s"
    using p(1,3) nr by (simp add: active_ok_def f txn_simps)
  moreover have "tracker_ok ?s"
    unfolding tracker_ok_def
  proof (intro conjI allI impI)
    fix row ws assume "writes (mgr ?s) row = Some ws"
    then show "ws \<noteq> []" "distinct ws" "set ws \<subseteq> writers (handles ?s)"
      using tracker_okD(1) [OF p(6), of row] p(1) by (auto simp: f txn_simps drop_writer_Some)
  next
    fix i tx' row assume "act (mgr ?s) i = Some tx'"
    then have i: "act (mgr s) i = Some tx'" using p(1) by (simp add: f txn_simps)
    then have "i \<noteq> tid" using p(3) nr by (auto simp: active_ok_def)
    then show "row \<in> set (written_rows tx') \<longleftrightarrow> (\<exists>ws. writes (mgr ?s) row = Some ws \<and> i \<in> set ws)"
      using tracker_okD(2) [OF p(6) i, of row] p(1) by (simp add: f txn_simps drop_writer_keeps)
  qed
  moreover have "ids_ok ?s"
    using p(2) by (auto simp: ids_ok_def f txn_simps)
  ultimately show ?thesis
    using p(1) by (simp add: tm_inv_def f txn_simps)
qed

lemma tm_step_inv:
  assumes "tm_inv s" and "tm_step s t"
  shows "tm_inv t"
  using assms(2,1)
proof (cases rule: tm_step.cases)
  case (Begin_read tx m)
  then show ?thesis using begin_read_inv [OF assms(1)] by simp
next
  case (Begin_write_start tx m)
  then show ?thesis using begin_write_start_inv [OF assms(1)] by simp
next
  case (Begin_write_acquire tid tx tx' m)
  then show ?thesis using begin_write_acquire_inv [OF assms(1)] by simp
next
  case (Record_write tid tx table_id row_id)
  then show ?thesis using record_write_inv [OF assms(1)] by simp
next
  case (Lock_table tid tx table_id m)
  then show ?thesis using lock_table_inv [OF assms(1)] by simp
next
  case (Commit tid tx r tx' m)
  note id = handle_facts [OF tm_inv_partsD(2) [OF assms(1)] Commit(3)]
  show ?thesis
  proof (cases "transaction_type tx")
    case ReadOnly
    then show ?thesis
      using commit_read_only_inv [OF assms(1) Commit(3) _ Commit(2)] Commit by (simp add: commit_def)
  next
    case Write
    show ?thesis
      using rollback_inv [OF assms(1) Commit(3) Write] commit_write_inv [OF assms(1) Commit(3) Write Commit(2)]
        Commit Write id
      by (auto simp: commit_def commit_conflict_def assign_commit_ts_def Let_def split: sum.splits)
  qed
next
  case (Prepare tid tx r tx' m)
  note id = handle_facts [OF tm_inv_partsD(2) [OF assms(1)] Prepare(3)]
  show ?thesis
    using rollback_inv [OF assms(1) Prepare(3,4)] prepare_inv [OF assms(1) Prepare(3,4,2)] Prepare id
    by (auto simp: prepare_commit_def commit_conflict_def assign_commit_ts_def Let_def split: sum.splits)
next
  case (Finish tid tx)
  then show ?thesis using finish_inv [OF assms(1)] by simp
next
  case (Rollback tid tx recs tx' m)
  note id = handle_facts [OF tm_inv_partsD(2) [OF assms(1)] Rollback(2)]
  then show ?thesis
    using rollback_inv [OF assms(1) Rollback(2,3)] Rollback by (auto simp: rollback_def)
qed

interpretation tm: inv_system "\<lambda>s. \<exists>config. s = tsys_init config" tm_step tm_inv
  by unfold_locales (auto intro: init_inv tm_step_inv)

lemma reachable_tm_inv: "tm_reachable config s \<Longrightarrow> tm_inv s"
  using tm.inv_reachable by (auto simp: tm_reachable_def)

lemmas reachable_parts = tm_inv_partsD [OF reachable_tm_inv]

end
