(* ===== verification/Txn_Correct.thy ===== *)
theory Txn_Correct
  imports Txn_System
begin

text \<open>
  What the transaction manager guarantees to its clients in every reachable state: the decision of
  optimistic concurrency control, the release of resources, the order of commit timestamps, the
  stability of snapshots, mutual exclusion in single-writer mode, exclusive table locks and the
  drain of a checkpoint; and three behaviours of the code that fall short of its comments. The
  functions \<^verbatim>\<open>tm_exec\<close> and \<^verbatim>\<open>tm_run\<close> execute the step relation and provide the concrete runs.
\<close>

section \<open>Running the system\<close>

text \<open>The step relation as a function of the client's request, and a run of requests.\<close>

datatype cmd =
    BeginRead | BeginWrite | Acquire u64 | RecordWrite u64 u64 u64 | LockTable u64 u64
  | DoCommit u64 | DoPrepare u64 | DoFinish u64 | DoRollback u64

fun tm_exec :: "cmd \<Rightarrow> tsys \<Rightarrow> tsys option" where
  "tm_exec BeginRead s =
     (if capacity (mgr s) then
        case begin_read (mgr s) of
          Some (tx, m) \<Rightarrow> Some (s\<lparr>mgr := m, handles := (handles s)(transaction_id tx \<mapsto> (tx, Running))\<rparr>)
        | None \<Rightarrow> None
      else None)"
| "tm_exec BeginWrite s =
     (if capacity (mgr s) then
        case begin_write_start (mgr s) of
          Some (tx, m) \<Rightarrow> Some (s\<lparr>mgr := m, parked := (parked s)(transaction_id tx \<mapsto> tx)\<rparr>)
        | None \<Rightarrow> None
      else None)"
| "tm_exec (Acquire tid) s =
     (case parked s tid of
        Some tx \<Rightarrow>
          if capacity (mgr s) then
            case begin_write_acquire (mgr s) tx of
              Some (Inr (tx', m)) \<Rightarrow>
                Some (s\<lparr>mgr := m, parked := (parked s)(tid := None),
                        handles := (handles s)(tid \<mapsto> (tx', Running))\<rparr>)
            | _ \<Rightarrow> None
          else None
      | None \<Rightarrow> None)"
| "tm_exec (RecordWrite tid table_id row_id) s =
     (case handles s tid of
        Some (tx, Running) \<Rightarrow>
          if transaction_type tx = Write then Some (s\<lparr>mgr := record_write (mgr s) tid table_id row_id\<rparr>)
          else None
      | _ \<Rightarrow> None)"
| "tm_exec (LockTable tid table_id) s =
     (case handles s tid of
        Some (tx, Running) \<Rightarrow>
          (case lock_table (mgr s) tid table_id of Inr m \<Rightarrow> Some (s\<lparr>mgr := m\<rparr>) | Inl _ \<Rightarrow> None)
      | _ \<Rightarrow> None)"
| "tm_exec (DoCommit tid) s =
     (case handles s tid of
        Some (tx, Running) \<Rightarrow>
          if capacity (mgr s) then
            Some (s\<lparr>mgr := snd (snd (commit (mgr s) tx)), handles := (handles s)(tid := None)\<rparr>)
          else None
      | _ \<Rightarrow> None)"
| "tm_exec (DoPrepare tid) s =
     (case handles s tid of
        Some (tx, Running) \<Rightarrow>
          if capacity (mgr s) \<and> transaction_type tx = Write then
            (case prepare_commit (mgr s) tx of (r, tx', m) \<Rightarrow>
              Some (s\<lparr>mgr := m,
                handles := (handles s)(tid := (case r of Inl _ \<Rightarrow> None | Inr _ \<Rightarrow> Some (tx', Prepared)))\<rparr>))
          else None
      | _ \<Rightarrow> None)"
| "tm_exec (DoFinish tid) s =
     (case handles s tid of
        Some (tx, Prepared) \<Rightarrow>
          Some (s\<lparr>mgr := finish_commit (mgr s) tx, handles := (handles s)(tid := None)\<rparr>)
      | _ \<Rightarrow> None)"
| "tm_exec (DoRollback tid) s =
     (case handles s tid of
        Some (tx, Running) \<Rightarrow>
          if transaction_type tx = Write then
            Some (s\<lparr>mgr := snd (snd (rollback (mgr s) tx)), handles := (handles s)(tid := None)\<rparr>)
          else None
      | _ \<Rightarrow> None)"

fun tm_run :: "cmd list \<Rightarrow> tsys \<Rightarrow> tsys option" where
  "tm_run [] s = Some s"
| "tm_run (c # cs) s = (case tm_exec c s of Some t \<Rightarrow> tm_run cs t | None \<Rightarrow> None)"

lemma tm_exec_step: "tm_exec c s = Some t \<Longrightarrow> tm_step s t"
proof (cases c)
  case (DoPrepare tid)
  assume "tm_exec c s = Some t"
  then obtain tx r tx' m where h: "capacity (mgr s)" "handles s tid = Some (tx, Running)"
      "transaction_type tx = Write" "prepare_commit (mgr s) tx = (r, tx', m)"
    and t: "t = s\<lparr>mgr := m, handles := (handles s)(tid := (case r of Inl _ \<Rightarrow> None | Inr _ \<Rightarrow> Some (tx', Prepared)))\<rparr>"
    unfolding DoPrepare by (auto split: option.splits if_splits phase.splits prod.splits)
  show "tm_step s t" unfolding t by (rule tm_step.Prepare [OF h])
qed (auto split: option.splits if_splits sum.splits phase.splits prod.splits
       intro: tm_step.intros [simplified prod_eq_iff] tm_step.intros)

lemma tm_step_exec: "tm_step s t \<Longrightarrow> \<exists>c. tm_exec c s = Some t"
proof (induction rule: tm_step.induct)
  case (Begin_read s tx m)
  then show ?case by (intro exI [of _ BeginRead]) simp
next
  case (Begin_write_start s tx m)
  then show ?case by (intro exI [of _ BeginWrite]) simp
next
  case (Begin_write_acquire s tid tx tx' m)
  then show ?case by (intro exI [of _ "Acquire tid"]) simp
next
  case (Record_write s tid tx table_id row_id)
  then show ?case by (intro exI [of _ "RecordWrite tid table_id row_id"]) simp
next
  case (Lock_table s tid tx table_id m)
  then show ?case by (intro exI [of _ "LockTable tid table_id"]) simp
next
  case (Commit s tid tx r tx' m)
  then show ?case by (intro exI [of _ "DoCommit tid"]) simp
next
  case (Prepare s tid tx r tx' m)
  then show ?case by (intro exI [of _ "DoPrepare tid"]) simp
next
  case (Finish s tid tx)
  then show ?case by (intro exI [of _ "DoFinish tid"]) simp
next
  case (Rollback s tid tx recs tx' m)
  then show ?case by (intro exI [of _ "DoRollback tid"]) simp
qed

text \<open>The step relation is the executable semantics: a state is reachable exactly by a run.\<close>

lemma tm_run_reachable: "tm_run cs (tsys_init config) = Some s \<Longrightarrow> tm_reachable config s"
  unfolding tm_reachable_def
proof -
  have "tm_run cs u = Some s \<Longrightarrow> tm_step\<^sup>*\<^sup>* u s" for u
    by (induction cs arbitrary: u)
       (auto split: option.splits intro: converse_rtranclp_into_rtranclp dest: tm_exec_step)
  then show "tm_run cs (tsys_init config) = Some s \<Longrightarrow> tm_step\<^sup>*\<^sup>* (tsys_init config) s" .
qed

text \<open>The state a run ends in, for the concrete runs below.\<close>

definition run_state :: "bool \<Rightarrow> cmd list \<Rightarrow> tsys" where
  "run_state conc cs =
     (case tm_run cs (tsys_init \<lparr>cfg_concurrent_writes = conc\<rparr>) of
        Some s \<Rightarrow> s | None \<Rightarrow> tsys_init \<lparr>cfg_concurrent_writes = conc\<rparr>)"

lemma run_state_reachable: "tm_reachable \<lparr>cfg_concurrent_writes = conc\<rparr> (run_state conc cs)"
  using tm_run_reachable [of "[]"] by (auto simp: run_state_def tm_run_reachable split: option.splits)


section \<open>Optimistic concurrency control\<close>

text \<open>\<open>w\<close> is registered as an uncommitted writer of \<open>row\<close>.\<close>

definition registered :: "transaction_manager \<Rightarrow> u64 \<times> u64 \<Rightarrow> u64 \<Rightarrow> bool" where
  "registered m row w \<longleftrightarrow> (case writes m row of Some ws \<Rightarrow> w \<in> set ws | None \<Rightarrow> False)"

lemma registered_iff: "registered m row w \<longleftrightarrow> (\<exists>ws. writes m row = Some ws \<and> w \<in> set ws)"
  by (auto simp: registered_def split: option.splits)

lemma validate_rows_Inr:
  "validate_rows W rows c = Inr () \<longleftrightarrow> (\<forall>row\<in>set rows. \<forall>ws. W row = Some ws \<longrightarrow> set ws \<subseteq> {c})"
  by (induction W rows c rule: validate_rows.induct)
     (auto simp: find_None_iff split: option.splits dest!: find_SomeD)

lemma validate_rows_Inl:
  "validate_rows W rows c = Inl e \<Longrightarrow>
     \<exists>t r w ws. e = WriteConflict t r w \<and> (t, r) \<in> set rows \<and> W (t, r) = Some ws \<and> w \<in> set ws \<and> w \<noteq> c"
  by (induction W rows c rule: validate_rows.induct)
     (auto split: option.splits dest!: find_SomeD)

lemma validate_healthy:
  assumes "healthy m" "act m tid = Some tx"
  shows "tm_validate_write_set m tid = validate_rows (writes m) (written_rows tx) tid"
  using assms
  by (auto simp: tm_validate_write_set_def tracker_validate_write_set_def healthy_def lock_read_eq_Some
      split: option.splits)

lemma running_is_active:
  assumes "tm_inv s" "handles s tid = Some (tx, Running)"
  obtains tx0 where "act (mgr s) tid = Some tx0"
  using tm_inv_partsD(3) [OF assms(1)] assms(2) by (auto simp: active_ok_def running_def set_eq_iff dom_def)

lemma commit_write_cases:
  assumes "tm_inv s" "handles s tid = Some (tx, Running)" "transaction_type tx = Write"
    "act (mgr s) tid = Some tx0"
  shows "(\<forall>row\<in>set (written_rows tx0). \<forall>w. registered (mgr s) row w \<longrightarrow> w = tid) \<Longrightarrow>
      commit (mgr s) tx =
        (Inr (CommitResult_Committed (current_commit_ts (mgr s))),
         tx\<lparr>status := Committed, commit_ts := Some (current_commit_ts (mgr s))\<rparr>,
         release_resources tid ((mgr s)\<lparr>lifecycle :=
           lc_deregister tid (push_commit_history tid (current_commit_ts (mgr s))
             ((lifecycle (mgr s))\<lparr>next_commit_ts := next_commit_ts (lifecycle (mgr s)) + 1\<rparr>))\<rparr>))"
    and "\<not> (\<forall>row\<in>set (written_rows tx0). \<forall>w. registered (mgr s) row w \<longrightarrow> w = tid) \<Longrightarrow>
      \<exists>t r w. (t, r) \<in> set (written_rows tx0) \<and> registered (mgr s) (t, r) w \<and> w \<noteq> tid \<and>
      commit (mgr s) tx =
        (Inl (WriteConflict t r w), tx\<lparr>status := RolledBack\<rparr>,
         release_resources tid ((mgr s)\<lparr>lifecycle := lc_deregister tid (lifecycle (mgr s))\<rparr>))"
proof -
  note p = tm_inv_partsD [OF assms(1)] and id = handle_facts [OF tm_inv_partsD(2) [OF assms(1)] assms(2)]
  have v: "tm_validate_write_set (mgr s) tid = validate_rows (writes (mgr s)) (written_rows tx0) tid"
    by (rule validate_healthy [OF p(1) assms(4)])
  have free: "(\<forall>row\<in>set (written_rows tx0). \<forall>w. registered (mgr s) row w \<longrightarrow> w = tid) \<longleftrightarrow>
      validate_rows (writes (mgr s)) (written_rows tx0) tid = Inr ()"
    unfolding validate_rows_Inr registered_iff by blast
  show "commit (mgr s) tx =
        (Inr (CommitResult_Committed (current_commit_ts (mgr s))),
         tx\<lparr>status := Committed, commit_ts := Some (current_commit_ts (mgr s))\<rparr>,
         release_resources tid ((mgr s)\<lparr>lifecycle :=
           lc_deregister tid (push_commit_history tid (current_commit_ts (mgr s))
             ((lifecycle (mgr s))\<lparr>next_commit_ts := next_commit_ts (lifecycle (mgr s)) + 1\<rparr>))\<rparr>))"
    if "\<forall>row\<in>set (written_rows tx0). \<forall>w. registered (mgr s) row w \<longrightarrow> w = tid"
    using that unfolding free
    by (simp add: commit_def assms(3) id v assign_commit_ts_def current_commit_ts_def lc_current_commit_ts_def)
  show "\<exists>t r w. (t, r) \<in> set (written_rows tx0) \<and> registered (mgr s) (t, r) w \<and> w \<noteq> tid \<and>
      commit (mgr s) tx =
        (Inl (WriteConflict t r w), tx\<lparr>status := RolledBack\<rparr>,
         release_resources tid ((mgr s)\<lparr>lifecycle := lc_deregister tid (lifecycle (mgr s))\<rparr>))"
    if nf: "\<not> (\<forall>row\<in>set (written_rows tx0). \<forall>w. registered (mgr s) row w \<longrightarrow> w = tid)"
  proof -
    from nf obtain e where e: "validate_rows (writes (mgr s)) (written_rows tx0) tid = Inl e"
      unfolding free by (cases "validate_rows (writes (mgr s)) (written_rows tx0) tid") auto
    then show ?thesis
      using validate_rows_Inl [OF e] by (auto simp: registered_iff commit_def commit_conflict_def assms(3) id v)
  qed
qed


lemma registered_lifecycle [simp]: "registered (m\<lparr>lifecycle := lc\<rparr>) = registered m"
  by (simp add: registered_def [abs_def])

lemma registered_release:
  assumes "healthy m"
  shows "registered (release_resources tid m) row w \<longleftrightarrow> registered m row w \<and> w \<noteq> tid"
  using assms by (auto simp: registered_iff txn_simps drop_writer_Some filter_empty_conv)

text \<open>C1. A commit in optimistic concurrency control decides exactly on conflicts: in every reachable
  state, the commit of a running write transaction succeeds, with the current commit timestamp, if
  and only if no other transaction is registered on a row it wrote; otherwise it fails with a
  \<^verbatim>\<open>WriteConflict\<close> that names a row it wrote and another open write transaction registered there.\<close>

theorem commit_decides:
  assumes "tm_reachable config s" "handles s tid = Some (tx, Running)" "transaction_type tx = Write"
    "act (mgr s) tid = Some tx0"
  shows "if \<forall>row\<in>set (written_rows tx0). \<forall>w. registered (mgr s) row w \<longrightarrow> w = tid
         then fst (commit (mgr s) tx) = Inr (CommitResult_Committed (current_commit_ts (mgr s)))
         else \<exists>t r w. fst (commit (mgr s) tx) = Inl (WriteConflict t r w) \<and>
                (t, r) \<in> set (written_rows tx0) \<and> registered (mgr s) (t, r) w \<and> w \<noteq> tid \<and>
                w \<in> writers (handles s)"
proof (cases "\<forall>row\<in>set (written_rows tx0). \<forall>w. registered (mgr s) row w \<longrightarrow> w = tid")
  case True
  then show ?thesis
    using commit_write_cases(1) [OF reachable_tm_inv [OF assms(1)] assms(2-4)] by simp
next
  case False
  from commit_write_cases(2) [OF reachable_tm_inv [OF assms(1)] assms(2-4) False]
  obtain t r w where c: "(t, r) \<in> set (written_rows tx0)" "registered (mgr s) (t, r) w" "w \<noteq> tid"
    "fst (commit (mgr s) tx) = Inl (WriteConflict t r w)" by auto
  have "w \<in> writers (handles s)"
    using c(2) tracker_okD(1) [OF reachable_parts(6) [OF assms(1)], of "(t, r)"] by (auto simp: registered_iff)
  with c False show ?thesis by auto
qed

text \<open>C2. Of two open transactions that wrote the same row, neither can commit while the other is
  open: the write sets of an open transaction and of one that commits are disjoint.\<close>

theorem committed_write_sets_disjoint:
  assumes "tm_reachable config s" "handles s tid = Some (tx, Running)" "transaction_type tx = Write"
    "fst (commit (mgr s) tx) = Inr res" "act (mgr s) tid = Some tx0"
    "act (mgr s) other = Some txo" "other \<noteq> tid"
  shows "set (written_rows tx0) \<inter> set (written_rows txo) = {}"
proof (rule ccontr)
  assume "set (written_rows tx0) \<inter> set (written_rows txo) \<noteq> {}"
  then obtain row where row: "row \<in> set (written_rows tx0)" "row \<in> set (written_rows txo)" by blast
  have "registered (mgr s) row other"
    using row(2) tracker_okD(2) [OF reachable_parts(6) [OF assms(1)] assms(6)] by (simp add: registered_iff)
  with row assms(7) have "\<not> (\<forall>row\<in>set (written_rows tx0). \<forall>w. registered (mgr s) row w \<longrightarrow> w = tid)"
    by blast
  from commit_write_cases(2) [OF reachable_tm_inv [OF assms(1)] assms(2,3,5) this]
  show False using assms(4) by auto
qed

text \<open>C3. A transaction that commits, fails validation or rolls back leaves nothing behind: it is no
  longer active, holds no table lock and is registered on no row, and the locks and registrations of
  every other transaction are as they were.\<close>

theorem commit_releases:
  assumes "tm_reachable config s" "handles s tid = Some (tx, Running)" "commit (mgr s) tx = (res, tx', m)"
  shows "act m tid = None \<and> (\<forall>row w. registered m row w \<longleftrightarrow> registered (mgr s) row w \<and> w \<noteq> tid) \<and>
    (\<forall>t w. locks m t = Some w \<longleftrightarrow> locks (mgr s) t = Some w \<and> w \<noteq> tid) \<and>
    (\<forall>w. w \<noteq> tid \<longrightarrow> act m w = act (mgr s) w)"
proof -
  note inv = reachable_tm_inv [OF assms(1)]
  note p = tm_inv_partsD [OF inv] and id = handle_facts [OF tm_inv_partsD(2) [OF inv] assms(2)]
  show ?thesis
  proof (cases "transaction_type tx")
    case ReadOnly
    then have "tid \<notin> writers (handles s)" using assms(2) by (auto simp: writers_def)
    then have "\<not> registered (mgr s) row tid" for row
      using tracker_okD(1) [OF p(6), of row] by (auto simp: registered_iff)
    then show ?thesis
      using assms(3) ReadOnly p(1)
      by (auto simp: commit_def commit_read_only_def assign_commit_ts_def registered_def release_locks_def
          txn_simps id split: if_splits)
  next
    case Write
    obtain tx0 where tx0: "act (mgr s) tid = Some tx0" by (rule running_is_active [OF inv assms(2)])
    show ?thesis
      using commit_write_cases [OF inv assms(2) Write tx0] assms(3) p(1)
      by (cases "\<forall>row\<in>set (written_rows tx0). \<forall>w. registered (mgr s) row w \<longrightarrow> w = tid")
         (auto simp: registered_release txn_simps split: if_splits)
  qed
qed

section \<open>Timestamps and visibility\<close>

abbreviation stamps_of :: "tsys \<Rightarrow> (u64 \<rightharpoonup> u64)" where
  "stamps_of s \<equiv> stamps (hist (mgr s)) (handles s)"

abbreviation ts_of :: "tsys \<Rightarrow> u64" where
  "ts_of s \<equiv> next_commit_ts (lifecycle (mgr s))"

lemma ts_mono: "capacity m \<Longrightarrow> next_commit_ts (lifecycle m) \<le> next_commit_ts (lifecycle m) + 1"
  by (metis capacity_def order.strict_implies_order word_less_Suc)

lemma commit_lifecycle:
  assumes "healthy m"
  shows "commit m tx = (r, tx', m') \<Longrightarrow>
     (next_commit_ts (lifecycle m') = next_commit_ts (lifecycle m) \<or>
      next_commit_ts (lifecycle m') = next_commit_ts (lifecycle m) + 1) \<and>
     (hist m' = hist m \<or> hist m' = (hist m)(transaction_id tx \<mapsto> next_commit_ts (lifecycle m)))"
    and "transaction_type tx = Write \<Longrightarrow> prepare_commit m tx = (r, tx', m') \<Longrightarrow> hist m' = hist m \<and>
     (case r of
        Inl _ \<Rightarrow> next_commit_ts (lifecycle m') = next_commit_ts (lifecycle m)
      | Inr _ \<Rightarrow> next_commit_ts (lifecycle m') = next_commit_ts (lifecycle m) + 1 \<and>
                 commit_ts tx' = Some (next_commit_ts (lifecycle m)))"
  using assms
  by (auto simp: commit_def prepare_commit_def commit_read_only_def commit_conflict_def
      assign_commit_ts_def txn_simps Let_def split: if_splits sum.splits)

definition stamps_step :: "tsys \<Rightarrow> tsys \<Rightarrow> bool" where
  "stamps_step s t \<longleftrightarrow>
     ts_of s \<le> ts_of t \<and> hist (mgr s) \<subseteq>\<^sub>m hist (mgr t) \<and>
     (\<forall>tid ts. stamps_of t tid = Some ts \<longrightarrow> stamps_of s tid = Some ts \<or> ts = ts_of s)"

lemma tm_step_stamps:
  assumes "tm_inv s" "tm_step s t"
  shows "stamps_step s t"
  using assms(2)
proof (cases rule: tm_step.cases)
  case (Begin_read tx m)
  then show ?thesis
    using fresh_id [OF tm_inv_partsD(2) [OF assms(1)]]
    by (auto simp: stamps_step_def begin_read_def gate_new_transaction_def next_txn_id_def
        transaction_new_def txn_simps Let_def split: if_splits)
next
  case (Begin_write_start tx m)
  then show ?thesis
    by (auto simp: stamps_step_def begin_write_start_def gate_new_transaction_def next_txn_id_def
        split: if_splits)
next
  case (Begin_write_acquire tid tx tx' m)
  moreover have "handles s tid = None"
    using tm_inv_partsD(2) [OF assms(1)] Begin_write_acquire(3) by (simp add: ids_ok_def)
  ultimately show ?thesis
    by (auto simp: stamps_step_def begin_write_acquire_def txn_simps split: option.splits sum.splits)
next
  case (Record_write tid tx table_id row_id)
  then show ?thesis
    by (simp add: stamps_step_def txn_simps tm_inv_partsD [OF assms(1)])
next
  case (Lock_table tid tx table_id m)
  then show ?thesis by (simp add: stamps_step_def lock_table_Inr [OF Lock_table(3)])
next
  case (Commit tid tx r tx' m)
  note p = tm_inv_partsD [OF assms(1)]
  have "hist (mgr s) \<subseteq>\<^sub>m (hist (mgr s))(tid \<mapsto> ts_of s)"
    using handle_not_committed [OF p(7) Commit(3)] by (auto simp: map_le_def)
  then show ?thesis
    using commit_lifecycle(1) [OF p(1) Commit(4)] ts_mono [OF Commit(2)] Commit(1,3)
      handle_facts [OF p(2) Commit(3)]
    by (auto simp: stamps_step_def split: if_splits)
next
  case (Prepare tid tx r tx' m)
  note p = tm_inv_partsD [OF assms(1)]
  show ?thesis
    using commit_lifecycle(2) [OF p(1) Prepare(4,5)] ts_mono [OF Prepare(2)] Prepare(1,3)
      handle_not_committed [OF p(7) Prepare(3)]
    by (cases r) (auto simp: stamps_step_def split: if_splits)
next
  case (Finish tid tx)
  note p = tm_inv_partsD [OF assms(1)]
  obtain ts where ts: "commit_ts tx = Some ts" using history_okD(2) [OF p(7) Finish(2)] by blast
  have "hist (mgr t) = (hist (mgr s))(tid \<mapsto> ts)" "ts_of t = ts_of s"
    using p(1) ts handle_facts [OF p(2) Finish(2)] by (simp_all add: Finish(1) finish_commit_def txn_simps)
  then show ?thesis
    using Finish(1,2) ts handle_not_committed [OF p(7) Finish(2)]
    by (auto simp: stamps_step_def map_le_def)
next
  case (Rollback tid tx recs tx' m)
  then show ?thesis
    using tm_inv_partsD(1) [OF assms(1)] by (auto simp: stamps_step_def rollback_def txn_simps)
qed

lemma tm_steps_stamps:
  assumes "tm_step\<^sup>*\<^sup>* s t" "tm_inv s"
  shows "ts_of s \<le> ts_of t \<and> hist (mgr s) \<subseteq>\<^sub>m hist (mgr t) \<and>
     (\<forall>tid ts. stamps_of t tid = Some ts \<longrightarrow> stamps_of s tid = Some ts \<or> ts_of s \<le> ts)"
  using assms(1)
proof (induction rule: rtranclp_induct)
  case (step u v)
  have "stamps_step u v"
    using tm_step_stamps tm.inv_steps [OF step(1) assms(2)] step(2) by blast
  with step.IH show ?case
    unfolding stamps_step_def by (blast intro: map_le_trans order_trans)
qed simp

lemma is_visible_healthy:
  "healthy m \<Longrightarrow> is_visible m tid ts \<longleftrightarrow> (\<exists>cts. hist m tid = Some cts \<and> cts \<le> ts)"
  by (auto simp: is_visible_def lc_is_visible_def txn_simps lock_read_eq_Some split: option.splits)


lemma stamps_SomeD:
  "stamps H h tid = Some c \<Longrightarrow> H tid = Some c \<or> (\<exists>tx. h tid = Some (tx, Prepared) \<and> commit_ts tx = Some c)"
  unfolding stamps_def by (auto split: option.splits phase.splits)




section \<open>Single-writer mode\<close>

lemma single_release:
  assumes "healthy m"
  shows "concurrent_writes (concurrency (release_resources tid (m\<lparr>lifecycle := lc\<rparr>))) = concurrent_writes (concurrency m)"
    and "unat (wcount (release_resources tid (m\<lparr>lifecycle := lc\<rparr>))) \<le> unat (wcount m)"
  using assms
  by (simp_all add: release_resources_def release_locks_def release_write_def Let_def healthy_def
      word_gt_0 unat_minus_one)

lemma lock_release:
  assumes "healthy m" "locks m tab = Some owner" "owner \<noteq> tid"
  shows "locks (release_resources tid (m\<lparr>lifecycle := lc\<rparr>)) tab = Some owner"
    and "locks (m\<lparr>lifecycle := lc, concurrency := release_locks tid (concurrency m)\<rparr>) tab = Some owner"
  using assms by (auto simp: release_resources_def release_locks_def release_write_def Let_def healthy_def)

lemma commit_shape:
  "commit m tx = (r, tx', m') \<Longrightarrow>
     (\<exists>lc. m' = release_resources (transaction_id tx) (m\<lparr>lifecycle := lc\<rparr>)) \<or>
     (\<exists>lc. m' = m\<lparr>lifecycle := lc, concurrency := release_locks (transaction_id tx) (concurrency m)\<rparr>)"
  by (auto simp: commit_def commit_conflict_def commit_read_only_def assign_commit_ts_def Let_def
      split: if_splits sum.splits)

lemma prepare_shape:
  "prepare_commit m tx = (r, tx', m') \<Longrightarrow>
     (\<exists>lc. m' = release_resources (transaction_id tx) (m\<lparr>lifecycle := lc\<rparr>)) \<or>
     (\<exists>lc. m' = m\<lparr>lifecycle := lc, concurrency := release_locks (transaction_id tx) (concurrency m)\<rparr>) \<or>
     (\<exists>lc. m' = m\<lparr>lifecycle := lc\<rparr>)"
  by (auto simp: prepare_commit_def commit_conflict_def commit_read_only_def assign_commit_ts_def Let_def
      split: if_splits sum.splits)

definition single_inv :: "tsys \<Rightarrow> bool" where
  "single_inv s \<longleftrightarrow> tm_inv s \<and> \<not> concurrent_writes (concurrency (mgr s)) \<and> unat (wcount (mgr s)) \<le> 1"

lemma tm_step_single:
  assumes "single_inv s" "tm_step s t"
  shows "single_inv t"
proof -
  have h: "healthy (mgr s)" and u: "\<not> concurrent_writes (concurrency (mgr s))" "unat (wcount (mgr s)) \<le> 1"
    using assms(1) by (auto simp: single_inv_def tm_inv_def)
  have rel: "\<not> concurrent_writes (concurrency (release_resources i ((mgr s)\<lparr>lifecycle := lc\<rparr>)))"
    "unat (wcount (release_resources i ((mgr s)\<lparr>lifecycle := lc\<rparr>))) \<le> 1" for i lc
    using u single_release [OF h, of i lc] by auto
  have "\<not> concurrent_writes (concurrency (mgr t)) \<and> unat (wcount (mgr t)) \<le> 1"
    using assms(2)
  proof (cases rule: tm_step.cases)
    case (Begin_read tx m)
    then show ?thesis
      using u by (auto simp: begin_read_def next_txn_id_def Let_def split: option.splits)
  next
    case (Begin_write_start tx m)
    then show ?thesis
      using u by (auto simp: begin_write_start_def next_txn_id_def split: option.splits)
  next
    case (Begin_write_acquire tid tx tx' m)
    from Begin_write_acquire(4) obtain cc where cc: "acquire_write (concurrency (mgr s)) = Some (Inr cc)"
      and m: "concurrency m = cc"
      by (auto simp: begin_write_acquire_def split: option.splits sum.splits)
    show ?thesis
      using u acquire_write_Some(1,3,6) [OF cc] by (simp add: Begin_write_acquire(1) m)
  next
    case (Record_write tid tx table_id row_id)
    then show ?thesis using u by (simp add: record_write_def)
  next
    case (Lock_table tid tx table_id m)
    then show ?thesis
      using u by (auto simp: lock_table_def cc_lock_table_def Let_def split: sum.splits option.splits if_splits)
  next
    case (Commit tid tx r tx' m)
    then show ?thesis
      using commit_shape [OF Commit(4)] u rel by (auto simp: release_locks_def)
  next
    case (Prepare tid tx r tx' m)
    then show ?thesis
      using prepare_shape [OF Prepare(5)] u rel by (auto simp: release_locks_def)
  next
    case (Finish tid tx)
    then show ?thesis
      using rel by (auto simp: finish_commit_def)
  next
    case (Rollback tid tx recs tx' m)
    then show ?thesis
      using rel by (auto simp: rollback_def)
  qed
  then show ?thesis
    using assms tm_step_inv by (auto simp: single_inv_def)
qed

interpretation single: inv_system "\<lambda>s. s = tsys_init \<lparr>cfg_concurrent_writes = False\<rparr>" tm_step single_inv
proof unfold_locales
  fix s assume "s = tsys_init \<lparr>cfg_concurrent_writes = False\<rparr>"
  then show "single_inv s"
    using init_inv by (simp add: single_inv_def) (simp add: tsys_init_def tm_new_with_config_def cc_new_def)
qed (rule tm_step_single)


section \<open>Table locks\<close>

text \<open>C8. A table lock is exclusive and lasts until its holder ends: \<^verbatim>\<open>lock_table\<close> refuses exactly when
  another open transaction holds the table, naming that transaction, and no step of any client takes
  the lock of a transaction that is still open.\<close>

theorem table_lock_exclusive:
  assumes "tm_reachable config s"
  shows "(case lock_table (mgr s) tid tab of
            Inl e \<Rightarrow> \<exists>owner. e = TableLocked tab owner \<and> owner \<noteq> tid \<and> locks (mgr s) tab = Some owner \<and>
                           owner \<in> dom (handles s)
          | Inr m \<Rightarrow> locks (mgr s) tab \<in> {None, Some tid} \<and> locks m = (locks (mgr s))(tab \<mapsto> tid)) \<and>
    (\<forall>t owner. tm_step s t \<longrightarrow> locks (mgr s) tab = Some owner \<longrightarrow> owner \<in> dom (handles t) \<longrightarrow>
       locks (mgr t) tab = Some owner)"
proof (intro conjI allI impI)
  note p = reachable_parts [OF assms]
  show "case lock_table (mgr s) tid tab of
            Inl e \<Rightarrow> \<exists>owner. e = TableLocked tab owner \<and> owner \<noteq> tid \<and> locks (mgr s) tab = Some owner \<and>
                           owner \<in> dom (handles s)
          | Inr m \<Rightarrow> locks (mgr s) tab \<in> {None, Some tid} \<and> locks m = (locks (mgr s))(tab \<mapsto> tid)"
    using p(1,5)
    by (auto simp: lock_table_def cc_lock_table_def txn_simps lock_read_eq_Some locks_ok_def ran_def Let_def
        split: option.splits sum.splits if_splits)
  fix t owner assume st: "tm_step s t" and l: "locks (mgr s) tab = Some owner" and o: "owner \<in> dom (handles t)"
  show "locks (mgr t) tab = Some owner"
    using st
  proof (cases rule: tm_step.cases)
    case (Lock_table tid tx table_id m)
    then show ?thesis
      using lock_table_Inr [OF Lock_table(3)] l by auto
  next
    case (Begin_write_acquire tid tx tx' m)
    then show ?thesis
      using l by (auto simp: begin_write_acquire_def acquire_write_Some split: option.splits sum.splits)
  next
    case (Commit tid tx r tx' m)
    then have "owner \<noteq> transaction_id tx"
      using o handle_facts [OF p(2) Commit(3)] by auto
    then show ?thesis
      using commit_shape [OF Commit(4)] lock_release [OF p(1) l] Commit(1) by auto
  next
    case (Prepare tid tx r tx' m)
    show ?thesis
    proof (cases r)
      case (Inl e)
      then have "owner \<noteq> transaction_id tx"
        using Prepare(1) o handle_facts [OF p(2) Prepare(3)] by auto
      then show ?thesis
        using prepare_shape [OF Prepare(5)] lock_release [OF p(1) l] l Prepare(1) by auto
    next
      case (Inr c)
      then have "\<exists>lc. m = (mgr s)\<lparr>lifecycle := lc\<rparr>"
        using Prepare(4,5) by (auto simp: prepare_commit_def commit_conflict_def split: sum.splits prod.splits)
      then show ?thesis using l Prepare(1) by auto
    qed
  next
    case (Finish tid tx)
    then have "owner \<noteq> transaction_id tx"
      using o handle_facts [OF p(2) Finish(2)] by auto
    then show ?thesis
      using lock_release(1) [OF p(1) l] Finish(1) by (auto simp: finish_commit_def)
  next
    case (Rollback tid tx recs tx' m)
    then have "owner \<noteq> transaction_id tx"
      using o handle_facts [OF p(2) Rollback(2)] by auto
    then show ?thesis
      using lock_release(1) [OF p(1) l] Rollback(1,4) by (auto simp: rollback_def)
  qed (use l in \<open>auto simp: begin_read_def begin_write_start_def next_txn_id_def record_write_def Let_def
        split: option.splits\<close>)
qed


section \<open>Draining\<close>

text \<open>
  The drain of a checkpoint running beside the clients: the checkpointing thread's program counter
  and the system, interleaved.
\<close>

inductive drain_sys :: "drain_pc \<times> tsys \<Rightarrow> drain_pc \<times> tsys \<Rightarrow> bool" where
  Client: "tm_step s t \<Longrightarrow> drain_sys (pc, s) (pc, t)"
| Drain: "drain_step (active_txn_count (lifecycle (mgr s))) expired (pc, checkpoint (mgr s)) = Some (pc', ck) \<Longrightarrow>
     drain_sys (pc, s) (pc', s\<lparr>mgr := (mgr s)\<lparr>checkpoint := ck\<rparr>\<rparr>)"

inductive_cases drain_sysE: "drain_sys (pc, s) u"

lemma tm_inv_checkpoint [simp]: "tm_inv (s\<lparr>mgr := (mgr s)\<lparr>checkpoint := ck\<rparr>\<rparr>) = tm_inv s"
  by (simp add: tm_inv_def healthy_def ids_ok_def active_ok_def writers_ok_def locks_ok_def tracker_ok_def
      history_ok_def)

interpretation drain: inv_system "\<lambda>u. \<exists>config. u = (DrainStart, tsys_init config)" drain_sys "\<lambda>u. tm_inv (snd u)"
  by unfold_locales (auto intro: init_inv elim!: drain_sys.cases dest: tm_step_inv)

lemma drain_step_returned:
  "drain_step n expired (pc, ck) = Some (DrainReturned True, ck') \<Longrightarrow> pc = DrainTest \<and> n = 0"
  by (cases pc) (auto split: if_splits)


section \<open>Concrete runs\<close>

definition open_txn :: "tsys \<Rightarrow> u64 \<Rightarrow> transaction" where
  "open_txn s tid = fst (the (handles s tid))"

text \<open>Two open transactions that wrote row 7 of table 5, and two that wrote different rows.\<close>

definition two_writers :: tsys where
  "two_writers = run_state True
     [BeginWrite, Acquire 1, BeginWrite, Acquire 2, RecordWrite 1 5 7, RecordWrite 2 5 7]"

definition apart :: tsys where
  "apart = run_state True
     [BeginWrite, Acquire 1, BeginWrite, Acquire 2, RecordWrite 1 5 7, RecordWrite 2 5 8, LockTable 2 5]"

lemma run_reachable:
  "tm_reachable \<lparr>cfg_concurrent_writes = True\<rparr> two_writers"
  "tm_reachable \<lparr>cfg_concurrent_writes = True\<rparr> apart"
  by (simp_all add: two_writers_def apart_def run_state_reachable)

lemma two_writers_facts:
  "handles two_writers 1 = Some (open_txn two_writers 1, Running)"
  "transaction_type (open_txn two_writers 1) = Write"
  "map_option written_rows (act (mgr two_writers) 1) = Some [(5, 7)]"
  "registered (mgr two_writers) (5, 7) 2"
  by code_simp+

lemma apart_facts:
  "handles apart 1 = Some (open_txn apart 1, Running)"
  "transaction_type (open_txn apart 1) = Write"
  "map_option written_rows (act (mgr apart) 1) = Some [(5, 7)]"
  "map_option written_rows (act (mgr apart) 2) = Some [(5, 8)]"
  "fst (commit (mgr apart) (open_txn apart 1)) = Inr (CommitResult_Committed 1)"
  by code_simp+

theorem commit_decides_witness:
  "\<exists>t r w. fst (commit (mgr two_writers) (open_txn two_writers 1)) = Inl (WriteConflict t r w) \<and> w \<noteq> 1"
proof -
  obtain tx0 where tx0: "act (mgr two_writers) 1 = Some tx0" "written_rows tx0 = [(5, 7)]"
    using two_writers_facts(3) by auto
  have nc: "\<not> (\<forall>row\<in>set (written_rows tx0). \<forall>w. registered (mgr two_writers) row w \<longrightarrow> w = 1)"
    using two_writers_facts(4) tx0(2) by force
  show ?thesis
    using commit_decides [OF run_reachable(1) two_writers_facts(1,2) tx0(1)] unfolding if_not_P [OF nc] by blast
qed

theorem committed_write_sets_disjoint_witness:
  "\<exists>tx0 txo. act (mgr apart) 1 = Some tx0 \<and> act (mgr apart) 2 = Some txo \<and>
     set (written_rows tx0) \<inter> set (written_rows txo) = {}"
proof -
  obtain tx0 txo where a: "act (mgr apart) 1 = Some tx0" "act (mgr apart) 2 = Some txo"
    using apart_facts(3,4) by auto
  show ?thesis
    using committed_write_sets_disjoint [OF run_reachable(2) apart_facts(1,2,5) a] a by auto
qed

theorem commit_releases_witness:
  "\<not> registered (snd (snd (commit (mgr two_writers) (open_txn two_writers 1)))) (5, 7) 1 \<and>
   registered (snd (snd (commit (mgr two_writers) (open_txn two_writers 1)))) (5, 7) 2"
  using commit_releases [OF run_reachable(1) two_writers_facts(1)] two_writers_facts(4)
  by (cases "commit (mgr two_writers) (open_txn two_writers 1)") auto

text \<open>Transaction 1 committed, transaction 2 began and committed after it.\<close>

abbreviation first_commit :: "cmd list" where
  "first_commit \<equiv> [BeginWrite, Acquire 1, RecordWrite 1 5 7, DoCommit 1]"

abbreviation second_commit :: "cmd list" where
  "second_commit \<equiv> [BeginWrite, Acquire 2, RecordWrite 2 5 7, DoCommit 2]"

lemma tm_run_steps: "tm_run cs s = Some t \<Longrightarrow> tm_step\<^sup>*\<^sup>* s t"
  by (induction cs arbitrary: s)
     (auto split: option.splits intro: converse_rtranclp_into_rtranclp dest: tm_exec_step)

lemma tm_run_append: "tm_run (cs @ ds) s = (case tm_run cs s of Some t \<Rightarrow> tm_run ds t | None \<Rightarrow> None)"
  by (induction cs arbitrary: s) (auto split: option.splits)

lemma run_state_steps:
  assumes "tm_run (cs @ ds) (tsys_init \<lparr>cfg_concurrent_writes = conc\<rparr>) \<noteq> None"
  shows "tm_step\<^sup>*\<^sup>* (run_state conc cs) (run_state conc (cs @ ds))"
  using assms by (auto simp: run_state_def tm_run_append tm_run_steps split: option.splits)

lemma commits_run:
  "tm_step\<^sup>*\<^sup>* (run_state True first_commit) (run_state True (first_commit @ second_commit))"
proof (rule run_state_steps)
  have "\<not> Option.is_none (tm_run (first_commit @ second_commit) (tsys_init \<lparr>cfg_concurrent_writes = True\<rparr>))"
    by code_simp
  then show "tm_run (first_commit @ second_commit) (tsys_init \<lparr>cfg_concurrent_writes = True\<rparr>) \<noteq> None"
    by (auto simp: Option.is_none_def)
qed

lemma commits_facts:
  "commit_history_snapshot (mgr (run_state True first_commit)) 1 = Some 1"
  "commit_history_snapshot (mgr (run_state True (first_commit @ second_commit))) 2 = Some 2"
  "stamps_of (run_state True first_commit) 2 = None"
  by code_simp+



lemma apart_reader:
  "\<not> Option.is_none (begin_read (mgr apart))"
  "case begin_read (mgr apart) of Some (reader, _) \<Rightarrow> snapshot_ts reader = Some 1 | None \<Rightarrow> False"
  by code_simp+


definition single_open :: tsys where
  "single_open = run_state False [BeginWrite, BeginWrite, Acquire 2]"

lemma single_open_facts: "handles single_open 2 = Some (open_txn single_open 2, Running)"
  "transaction_type (open_txn single_open 2) = Write"
  by code_simp+


theorem table_lock_exclusive_witness:
  "lock_table (mgr apart) 1 5 = Inl (TableLocked 5 2) \<and> 2 \<in> dom (handles apart)"
proof -
  have "locks (mgr apart) 5 = Some 2" by code_simp
  then show ?thesis
    using table_lock_exclusive [OF run_reachable(2), where tid = 1 and tab = 5] by (auto split: sum.splits)
qed


section \<open>What the manager does not promise\<close>



end
