(* ===== verification/Txn_Context.thy ===== *)
theory Txn_Context
  imports Txn_Correct
begin

text \<open>
  The per-connection transaction context of \<^verbatim>\<open>akar-transaction/src/lib.rs\<close>: automatic and manual mode,
  the one active write transaction of a connection and the operations that reach the manager through
  it. Every operation takes the manager and the context and returns both. \<open>None\<close> is a call that waits
  in \<^verbatim>\<open>begin_write\<close>. The statement \<^verbatim>\<open>auto_commit\<close> runs is a function of the transaction.
\<close>

section \<open>Context and operations\<close>

datatype transaction_mode = Auto | Manual

record transaction_context =
  ctx_mode :: transaction_mode
  active_txn :: "transaction option"

definition ctx_new :: transaction_context where
  "ctx_new = \<lparr>ctx_mode = Auto, active_txn = None\<rparr>"

definition ctx_set_mode :: "transaction_mode \<Rightarrow> transaction_context \<Rightarrow> transaction_context" where
  "ctx_set_mode mode ctx = ctx\<lparr>ctx_mode := mode\<rparr>"

definition has_active_txn :: "transaction_context \<Rightarrow> bool" where
  "has_active_txn ctx \<longleftrightarrow> active_txn ctx \<noteq> None"

definition active_txn_id :: "transaction_context \<Rightarrow> u64 option" where
  "active_txn_id ctx = map_option transaction_id (active_txn ctx)"

type_synonym 'a ctx_result = "(transaction_error + 'a) \<times> transaction_manager \<times> transaction_context"

text \<open>
  The common tail of \<^verbatim>\<open>begin_manual\<close> and \<^verbatim>\<open>begin_implicit\<close>. A failed \<^verbatim>\<open>begin_write\<close> has drawn an
  identifier; nothing else of the manager has changed.
\<close>

definition ctx_begin :: "transaction_manager \<Rightarrow> transaction_context \<Rightarrow> transaction ctx_result option" where
  "ctx_begin tm ctx =
     (case begin_write_start tm of
        None \<Rightarrow> None
      | Some (tx0, tm0) \<Rightarrow>
          (case begin_write_acquire tm0 tx0 of
             None \<Rightarrow> None
           | Some (Inl e) \<Rightarrow> Some (Inl e, tm0, ctx)
           | Some (Inr (tx, tm')) \<Rightarrow> Some (Inr tx, tm', ctx\<lparr>active_txn := Some tx\<rparr>)))"

definition begin_manual :: "transaction_manager \<Rightarrow> transaction_context \<Rightarrow> transaction ctx_result option" where
  "begin_manual tm ctx =
     (if active_txn ctx \<noteq> None then Some (Inl NoActiveTransaction, tm, ctx) else ctx_begin tm ctx)"

definition begin_implicit :: "transaction_manager \<Rightarrow> transaction_context \<Rightarrow> transaction ctx_result option" where
  "begin_implicit tm ctx =
     (case active_txn ctx of Some tx \<Rightarrow> Some (Inr tx, tm, ctx) | None \<Rightarrow> ctx_begin tm ctx)"

definition ctx_commit ::
  "transaction_manager \<Rightarrow> transaction_context \<Rightarrow> (undo_record list \<times> u64) ctx_result" where
  "ctx_commit tm ctx =
     (case active_txn ctx of
        None \<Rightarrow> (Inl NoActiveTransaction, tm, ctx)
      | Some tx \<Rightarrow>
          (case commit tm tx of (r, tx', tm') \<Rightarrow>
             ((case r of
                 Inl e \<Rightarrow> Inl e
               | Inr (CommitResult_Committed ts) \<Rightarrow> Inr (undo_records tx', ts)),
              tm', ctx\<lparr>active_txn := None\<rparr>)))"

definition ctx_rollback ::
  "transaction_manager \<Rightarrow> transaction_context \<Rightarrow> (undo_record list) ctx_result" where
  "ctx_rollback tm ctx =
     (case active_txn ctx of
        None \<Rightarrow> (Inl NoActiveTransaction, tm, ctx)
      | Some tx \<Rightarrow>
          (case rollback tm tx of (recs, _, tm') \<Rightarrow> (Inr recs, tm', ctx\<lparr>active_txn := None\<rparr>)))"

definition auto_commit ::
  "(transaction \<Rightarrow> transaction_error + 'a) \<Rightarrow> transaction_manager \<Rightarrow> transaction_context \<Rightarrow>
   'a ctx_result option" where
  "auto_commit exec_fn tm ctx =
     (case begin_implicit tm ctx of
        None \<Rightarrow> None
      | Some (Inl e, tm1, ctx1) \<Rightarrow> Some (Inl e, tm1, ctx1)
      | Some (Inr tx, tm1, ctx1) \<Rightarrow>
          (case active_txn ctx1 of
             None \<Rightarrow> Some (Inl NoActiveTransaction, tm1, ctx1)
           | Some active \<Rightarrow>
               (case exec_fn active of
                  Inl e \<Rightarrow> Some (Inl e, tm1, ctx1)
                | Inr result \<Rightarrow>
                    (case ctx_commit tm1 ctx1 of
                       (Inl e, tm2, ctx2) \<Rightarrow> Some (Inl e, tm2, ctx2)
                     | (Inr _, tm2, ctx2) \<Rightarrow> Some (Inr result, tm2, ctx2)))))"

text \<open>The recorders update the context's own copy of the transaction.\<close>

definition ctx_update ::
  "(transaction \<Rightarrow> transaction) \<Rightarrow> transaction_context \<Rightarrow> (transaction_error + unit) \<times> transaction_context"
where
  "ctx_update f ctx =
     (case active_txn ctx of
        Some tx \<Rightarrow> (Inr (), ctx\<lparr>active_txn := Some (f tx)\<rparr>)
      | None \<Rightarrow> (Inl NoActiveTransaction, ctx))"

definition ctx_record_undo where
  "ctx_record_undo table_id row_id column old_data =
     ctx_update (\<lambda>tx. txn_record_undo tx table_id row_id column old_data)"

definition ctx_record_insert_undo where
  "ctx_record_insert_undo table_id row_id = ctx_update (\<lambda>tx. txn_record_insert_undo tx table_id row_id)"

definition ctx_record_delete_undo where
  "ctx_record_delete_undo table_id row_id old_row_data =
     ctx_update (\<lambda>tx. txn_record_delete_undo tx table_id row_id old_row_data)"

definition ctx_record_write where
  "ctx_record_write table_id row_id = ctx_update (\<lambda>tx. txn_record_write tx table_id row_id)"

definition ctx_lock_table ::
  "transaction_manager \<Rightarrow> transaction_context \<Rightarrow> u64 \<Rightarrow> transaction_error + transaction_manager" where
  "ctx_lock_table tm ctx table_id =
     (case active_txn_id ctx of
        None \<Rightarrow> Inl NoActiveTransaction
      | Some tid \<Rightarrow> lock_table tm tid table_id)"

definition ctx_drop :: "transaction_manager \<Rightarrow> transaction_context \<Rightarrow> transaction_manager" where
  "ctx_drop tm ctx =
     (case active_txn ctx of None \<Rightarrow> tm | Some tx \<Rightarrow> snd (snd (rollback tm tx)))"

section \<open>Behaviour\<close>

lemma begin_write_acquire_active:
  assumes "healthy m" "begin_write_acquire m tx = Some (Inr (tx', m'))"
  shows "tx' = tx" "act m' = (act m)(transaction_id tx \<mapsto> tx)" "healthy m'"
  using assms
  by (auto simp: begin_write_acquire_def acquire_write_def txn_simps lock_read_eq_Some
      split: option.splits sum.splits if_splits)
     (auto simp: healthy_def lc_register_def)

lemma ctx_begin_cases:
  assumes "healthy m" "ctx_begin m ctx = Some (r, m', ctx')"
  obtains (failed) e where "r = Inl e" "ctx' = ctx" "act m' = act m"
    | (begun) tx where "r = Inr tx" "ctx' = ctx\<lparr>active_txn := Some tx\<rparr>" "healthy m'"
        "transaction_id tx = next_id (lifecycle m)" "transaction_type tx = Write"
        "act m' = (act m)(transaction_id tx \<mapsto> tx)" "written_rows tx = []"
        "hist m' = hist m" "next_commit_ts (lifecycle m') = next_commit_ts (lifecycle m)"
proof -
  from assms(2) obtain tx0 m0 where s: "begin_write_start m = Some (tx0, m0)"
    by (auto simp: ctx_begin_def split: option.splits)
  then have m0: "m0 = m\<lparr>lifecycle := (lifecycle m)\<lparr>next_id := next_id (lifecycle m) + 1\<rparr>\<rparr>"
    and tx0: "transaction_id tx0 = next_id (lifecycle m)" "transaction_type tx0 = Write" "written_rows tx0 = []"
    by (auto simp: begin_write_start_def next_txn_id_def transaction_new_def split: option.splits)
  have h0: "healthy m0" using assms(1) by (simp add: m0 healthy_def)
  show thesis
  proof (cases "begin_write_acquire m0 tx0")
    case None
    then show ?thesis using assms(2) by (simp add: ctx_begin_def s)
  next
    case (Some a)
    show ?thesis
    proof (cases a)
      case (Inl e)
      then show ?thesis using Some assms(2) failed by (auto simp: ctx_begin_def s m0)
    next
      case (Inr b)
      obtain tx' m'' where b: "b = (tx', m'')" by (cases b)
      note acq = begin_write_acquire_active [OF h0, of tx0 tx' m''] 
      have eq: "r = Inr tx0" "ctx' = ctx\<lparr>active_txn := Some tx0\<rparr>" "m'' = m'" "tx' = tx0"
        using Some Inr b assms(2) acq(1) by (auto simp: ctx_begin_def s)
      have lc: "hist m' = hist m" "next_commit_ts (lifecycle m') = next_commit_ts (lifecycle m)"
        using Some Inr b eq by (auto simp: begin_write_acquire_def m0 txn_simps split: option.splits sum.splits)
      show ?thesis
        using begun [of tx0] acq Some Inr b eq tx0 lc by (simp add: m0)
    qed
  qed
qed

lemma commit_unregistered_writes:
  assumes "healthy m" "transaction_type tx = Write" "act m (transaction_id tx) = Some tx0" "written_rows tx0 = []"
  shows "commit m tx =
    (Inr (CommitResult_Committed (next_commit_ts (lifecycle m))),
     tx\<lparr>status := Committed, commit_ts := Some (next_commit_ts (lifecycle m))\<rparr>,
     release_resources (transaction_id tx) (m\<lparr>lifecycle :=
       lc_deregister (transaction_id tx) (push_commit_history (transaction_id tx) (next_commit_ts (lifecycle m))
         ((lifecycle m)\<lparr>next_commit_ts := next_commit_ts (lifecycle m) + 1\<rparr>))\<rparr>))"
  using assms
  by (simp add: commit_def tm_validate_write_set_def lock_read_eq_Some lock_read_def txn_simps assign_commit_ts_def)


text \<open>Writes recorded through a context are not validated: \<^verbatim>\<open>record_write\<close> of the context changes only
  its own copy of the transaction, while validation reads the copy registered with the manager. Two
  connections that recorded the same row through their contexts both commit.\<close>

theorem context_writes_unvalidated:
  "case ctx_begin tm_new ctx_new of
     Some (Inr _, m1, c1) \<Rightarrow>
       (case ctx_begin m1 ctx_new of
          Some (Inr _, m2, c2) \<Rightarrow>
            (case ctx_commit m2 (snd (ctx_record_write 5 7 c1)) of
               (Inr (_, ts1), m3, _) \<Rightarrow>
                 (case ctx_commit m3 (snd (ctx_record_write 5 7 c2)) of
                    (Inr (_, ts2), _, _) \<Rightarrow> ts1 = 1 \<and> ts2 = 2
                  | _ \<Rightarrow> False)
             | _ \<Rightarrow> False)
        | _ \<Rightarrow> False)
   | _ \<Rightarrow> False"
  by code_simp


definition exec_demo :: "transaction \<Rightarrow> transaction_error + nat" where
  "exec_demo tx = (if transaction_type tx = Write then Inr 42 else Inl ShuttingDown)"


end
