(* ===== verification/Free_Space.thy ===== *)
theory Free_Space
  imports Akar_Prelude
begin

text \<open>
  The free space manager and the page manager of the storage engine
  (\<^verbatim>\<open>akar-storage/src/free_space_manager.rs\<close>, \<^verbatim>\<open>page_manager.rs\<close>). A \<^verbatim>\<open>BTreeSet<PageRange>\<close> is a sorted
  list without duplicates in the order of \<^verbatim>\<open>PageRange\<close>, which is an instance of the class of linear
  orders. A failed \<^verbatim>\<open>assert!\<close> is the error \<open>Panicked\<close>. The locks are taken with
  \<^verbatim>\<open>unwrap_or_else(into_inner)\<close>, so a poisoned lock is used like any other. The free pages of a
  manager are a set of page numbers; every operation is related to its effect on that set.
\<close>

section \<open>Page ranges\<close>

datatype page_range = PageRange (start_page_idx: u64) (num_pages: u64)

definition page_range_less :: "page_range \<Rightarrow> page_range \<Rightarrow> bool" where
  "page_range_less a b \<longleftrightarrow>
     num_pages a < num_pages b \<or> num_pages a = num_pages b \<and> start_page_idx a < start_page_idx b"

instantiation page_range :: linorder
begin

definition less_eq_page_range :: "page_range \<Rightarrow> page_range \<Rightarrow> bool" where
  "less_eq_page_range a b \<longleftrightarrow> page_range_less a b \<or> a = b"

definition less_page_range :: "page_range \<Rightarrow> page_range \<Rightarrow> bool" where
  "less_page_range = page_range_less"

instance
  by standard (auto simp: less_eq_page_range_def less_page_range_def page_range_less_def intro: page_range.expand)

end

datatype fsm_error = Panicked | InvalidData string

definition subrange :: "page_range \<Rightarrow> u64 \<Rightarrow> fsm_error + page_range" where
  "subrange r new_start =
     (if new_start \<le> num_pages r
      then Inr (PageRange (start_page_idx r + new_start) (num_pages r - new_start))
      else Inl Panicked)"

definition invalid_page_idx :: u64 where
  "invalid_page_idx = u64_max"

section \<open>Free space manager\<close>

record free_space_manager =
  free_lists :: "page_range list list"
  uncheckpointed :: "page_range list"
  fsm_num_entries :: u64

definition fsm_new :: free_space_manager where
  "fsm_new = \<lparr>free_lists = replicate 64 [], uncheckpointed = [], fsm_num_entries = 0\<rparr>"

text \<open>\<^verbatim>\<open>leading_zeros\<close> of a 64-bit integer, from the number of its significant bits.\<close>

fun bit_length :: "nat \<Rightarrow> nat" where
  "bit_length n = (if n = 0 then 0 else Suc (bit_length (n div 2)))"

declare bit_length.simps [simp del]

definition leading_zeros :: "u64 \<Rightarrow> nat" where
  "leading_zeros w = 64 - bit_length (unat w)"

definition get_level :: "u64 \<Rightarrow> fsm_error + nat" where
  "get_level n = (if n > 0 then Inr (64 - 1 - leading_zeros n) else Inl Panicked)"

definition add_free_pages :: "page_range \<Rightarrow> free_space_manager \<Rightarrow> fsm_error + free_space_manager" where
  "add_free_pages entry f =
     (case get_level (num_pages entry) of
        Inl e \<Rightarrow> Inl e
      | Inr level \<Rightarrow>
          if level < 64 then
            let list = free_lists f ! level
            in if entry \<in> set list then Inl Panicked
               else Inr (f\<lparr>free_lists := (free_lists f)[level := insort entry list],
                           fsm_num_entries := fsm_num_entries f + 1\<rparr>)
          else Inl Panicked)"

definition evict_and_add_free_pages ::
  "page_range \<Rightarrow> free_space_manager \<Rightarrow> fsm_error + free_space_manager" where
  "evict_and_add_free_pages entry f = add_free_pages entry f"

definition split_page_range ::
  "page_range \<Rightarrow> u64 \<Rightarrow> free_space_manager \<Rightarrow> fsm_error + page_range \<times> free_space_manager" where
  "split_page_range chunk n f =
     (if num_pages chunk \<ge> n then
        let result = PageRange (start_page_idx chunk) n
        in if n < num_pages chunk then
             (case add_free_pages (PageRange (start_page_idx chunk + n) (num_pages chunk - n)) f of
                Inl e \<Rightarrow> Inl e
              | Inr f' \<Rightarrow> Inr (result, f'))
           else Inr (result, f)
      else Inl Panicked)"

text \<open>
  \<^verbatim>\<open>pop_free_pages\<close> reads the lists under read locks, level by level, and removes the entry it found
  under a separate write lock: \<open>pop_search\<close> is the reading part, \<open>pop_take\<close> what follows.
\<close>

fun pop_search :: "page_range list list \<Rightarrow> u64 \<Rightarrow> nat list \<Rightarrow> (nat \<times> page_range) option" where
  "pop_search flists n [] = None"
| "pop_search flists n (level # levels) =
     (case find (\<lambda>r. PageRange 0 n \<le> r) (flists ! level) of
        Some found \<Rightarrow> Some (level, found)
      | None \<Rightarrow> pop_search flists n levels)"

definition pop_take ::
  "u64 \<Rightarrow> nat \<times> page_range \<Rightarrow> free_space_manager \<Rightarrow> fsm_error + page_range \<times> free_space_manager" where
  "pop_take n found f =
     (case found of (level, entry) \<Rightarrow>
        split_page_range entry n
          (f\<lparr>free_lists := (free_lists f)[level := remove1 entry (free_lists f ! level)],
             fsm_num_entries := fsm_num_entries f - 1\<rparr>))"

definition pop_free_pages ::
  "u64 \<Rightarrow> free_space_manager \<Rightarrow> fsm_error + page_range option \<times> free_space_manager" where
  "pop_free_pages n f =
     (if n = 0 then Inr (None, f)
      else case get_level n of
        Inl e \<Rightarrow> Inl e
      | Inr level_to_search \<Rightarrow>
          (case pop_search (free_lists f) n [level_to_search..<length (free_lists f)] of
             None \<Rightarrow> Inr (None, f)
           | Some found \<Rightarrow>
               (case pop_take n found f of Inl e \<Rightarrow> Inl e | Inr (r, f') \<Rightarrow> Inr (Some r, f'))))"

definition add_uncheckpointed_free_pages :: "page_range \<Rightarrow> free_space_manager \<Rightarrow> free_space_manager" where
  "add_uncheckpointed_free_pages entry f = f\<lparr>uncheckpointed := uncheckpointed f @ [entry]\<rparr>"

definition rollback_checkpoint :: "free_space_manager \<Rightarrow> free_space_manager" where
  "rollback_checkpoint f = f\<lparr>uncheckpointed := []\<rparr>"

fun add_all :: "page_range list \<Rightarrow> free_space_manager \<Rightarrow> fsm_error + free_space_manager" where
  "add_all [] f = Inr f"
| "add_all (r # rs) f = (case add_free_pages r f of Inl e \<Rightarrow> Inl e | Inr f' \<Rightarrow> add_all rs f')"

definition finalize_checkpoint :: "free_space_manager \<Rightarrow> fsm_error + free_space_manager" where
  "finalize_checkpoint f = add_all (uncheckpointed f) (f\<lparr>uncheckpointed := []\<rparr>)"

definition total_free_pages :: "free_space_manager \<Rightarrow> u64" where
  "total_free_pages f = (\<Sum>l\<leftarrow>free_lists f. \<Sum>r\<leftarrow>l. num_pages r)"

text \<open>The file format: the number of ranges (32 bits) and two 64-bit numbers per range.\<close>

definition range_bytes :: "page_range \<Rightarrow> bytes" where
  "range_bytes r = u64_le (start_page_idx r) @ u64_le (num_pages r)"

definition fsm_serialize :: "free_space_manager \<Rightarrow> bytes" where
  "fsm_serialize f =
     (let ranges = concat (free_lists f)
      in u32_le (word_of_nat (length ranges)) @ concat (map range_bytes ranges))"

definition range_at :: "bytes \<Rightarrow> nat \<Rightarrow> page_range" where
  "range_at data i =
     (let offset = 4 + i * 16
      in PageRange (u64_of_le (slice offset (offset + 8) data)) (u64_of_le (slice (offset + 8) (offset + 16) data)))"

definition fsm_deserialize :: "bytes \<Rightarrow> fsm_error + free_space_manager" where
  "fsm_deserialize data =
     (if length data < 4 then Inl (InvalidData ''Data too short for FSM'')
      else
        let num_ranges = unat (u32_of_le (slice 0 4 data))
        in if length data < 4 + num_ranges * 16 then Inl (InvalidData ''Invalid FSM data length'')
           else add_all (map (range_at data) [0..<num_ranges]) fsm_new)"

section \<open>Page manager\<close>

text \<open>
  The database file is its contents. \<^verbatim>\<open>extend_file\<close> appends zero bytes; an error of the file system
  leaves the manager as it was.
\<close>

record page_manager =
  page_size :: u64
  total_pages :: u64
  fsm :: free_space_manager
  next_page :: u64
  db_file :: bytes

definition pm_new :: "u64 \<Rightarrow> u64 \<Rightarrow> free_space_manager \<Rightarrow> bytes \<Rightarrow> page_manager" where
  "pm_new psize existing_pages f file =
     \<lparr>page_size = psize, total_pages = existing_pages, fsm = f, next_page = existing_pages, db_file = file\<rparr>"

definition allocate_page :: "page_manager \<Rightarrow> fsm_error + u64 \<times> page_manager" where
  "allocate_page pm =
     (case pop_free_pages 1 (fsm pm) of
        Inl e \<Rightarrow> Inl e
      | Inr (Some rg, f) \<Rightarrow> Inr (start_page_idx rg, pm\<lparr>fsm := f\<rparr>)
      | Inr (None, f) \<Rightarrow>
          Inr (next_page pm, pm\<lparr>fsm := f, next_page := next_page pm + 1, total_pages := total_pages pm + 1\<rparr>))"

definition free_pages :: "u64 \<Rightarrow> u64 \<Rightarrow> page_manager \<Rightarrow> fsm_error + page_manager" where
  "free_pages start n pm =
     (if n = 0 \<or> start = invalid_page_idx then Inr pm
      else case add_free_pages (PageRange start n) (fsm pm) of
        Inl e \<Rightarrow> Inl e
      | Inr f \<Rightarrow> Inr (pm\<lparr>fsm := f\<rparr>))"

definition free_page :: "u64 \<Rightarrow> page_manager \<Rightarrow> fsm_error + page_manager" where
  "free_page page_idx pm =
     (if page_idx = invalid_page_idx then Inr pm
      else case add_free_pages (PageRange page_idx 1) (fsm pm) of
        Inl e \<Rightarrow> Inl e
      | Inr f \<Rightarrow> Inr (pm\<lparr>fsm := f\<rparr>))"

definition page_offset :: "page_manager \<Rightarrow> u64 \<Rightarrow> u64" where
  "page_offset pm page_idx = page_idx * page_size pm"

definition extend_file :: "bool \<Rightarrow> u64 \<Rightarrow> page_manager \<Rightarrow> u64 option \<times> page_manager" where
  "extend_file io_ok n pm =
     (if io_ok then
        (Some (total_pages pm),
         pm\<lparr>db_file := db_file pm @ replicate (unat (n * page_size pm)) 0,
            total_pages := total_pages pm + n\<rparr>)
      else (None, pm))"

section \<open>Levels\<close>

lemma bit_length_bounds: "0 < n \<Longrightarrow> 2 ^ (bit_length n - 1) \<le> n \<and> n < 2 ^ bit_length n"
proof (induction n rule: bit_length.induct)
  case (1 n)
  show ?case
  proof (cases "n div 2 = 0")
    case True
    with 1(2) have "n = 1" by simp
    then show ?thesis by (simp add: bit_length.simps)
  next
    case False
    with 1 have ih: "2 ^ (bit_length (n div 2) - 1) \<le> n div 2" "n div 2 < 2 ^ bit_length (n div 2)" by auto
    have "bit_length (n div 2) \<noteq> 0" using False by (subst bit_length.simps) simp
    then obtain k where k: "bit_length (n div 2) = Suc k" by (cases "bit_length (n div 2)") auto
    have b: "bit_length n = Suc (Suc k)" using 1(2) k by (subst bit_length.simps) simp
    show ?thesis using ih unfolding b k by (simp add: less_mult_imp_div_less) linarith
  qed
qed

definition level_of :: "u64 \<Rightarrow> nat" where
  "level_of w = bit_length (unat w) - 1"

lemma bit_length_le: "n < 2 ^ m \<Longrightarrow> bit_length n \<le> m"
proof (cases "n = 0")
  case True
  then show ?thesis by (simp add: bit_length.simps)
next
  case False
  assume "n < 2 ^ m"
  moreover have "2 ^ (bit_length n - 1) \<le> n" using bit_length_bounds [of n] False by simp
  ultimately have "2 ^ (bit_length n - 1) < (2::nat) ^ m" by (rule le_less_trans [rotated])
  then show ?thesis by (simp only: power_strict_increasing_iff)
qed

lemma level_bounds:
  assumes "0 < w"
  shows "2 ^ level_of w \<le> unat w" "unat w < 2 ^ Suc (level_of w)" "level_of w < 64" "get_level w = Inr (level_of w)"
proof -
  have p: "0 < unat w" using assms by (simp add: unat_gt_0 word_gt_0)
  have b: "bit_length (unat w) \<le> 64" using unat_bounds(4) [of w] by (intro bit_length_le) simp
  have "bit_length (unat w) \<noteq> 0" using p by (subst bit_length.simps) simp
  then show "2 ^ level_of w \<le> unat w" "unat w < 2 ^ Suc (level_of w)" "level_of w < 64"
      "get_level w = Inr (level_of w)"
    using bit_length_bounds [OF p] b assms
    by (auto simp: level_of_def get_level_def leading_zeros_def)
qed

lemma level_mono:
  assumes "0 < a" "a \<le> b"
  shows "level_of a \<le> level_of b"
proof (rule ccontr)
  assume "\<not> level_of a \<le> level_of b"
  then have "2 ^ Suc (level_of b) \<le> (2::nat) ^ level_of a" by (intro power_increasing) auto
  moreover have "0 < b" using assms by simp
  moreover have "unat a \<le> unat b" using assms(2) by (simp add: word_le_nat_alt)
  ultimately show False using level_bounds(1) [OF assms(1)] level_bounds(2) [of b] by linarith
qed

lemma level_less:
  assumes "0 < a" "0 < b" "level_of a < level_of b"
  shows "a < b"
  using level_mono [OF assms(2), of a] assms(3) by (meson not_le)

section \<open>The set of free pages\<close>

definition pages :: "page_range \<Rightarrow> nat set" where
  "pages r = {unat (start_page_idx r) ..< unat (start_page_idx r) + unat (num_pages r)}"

definition range_ok :: "page_range \<Rightarrow> bool" where
  "range_ok r \<longleftrightarrow> 0 < num_pages r \<and> unat (start_page_idx r) + unat (num_pages r) \<le> 2 ^ 64"

definition ranges :: "free_space_manager \<Rightarrow> page_range set" where
  "ranges f = set (concat (free_lists f))"

definition free_set :: "free_space_manager \<Rightarrow> nat set" where
  "free_set f = \<Union> (pages ` ranges f)"

definition fsm_inv :: "free_space_manager \<Rightarrow> bool" where
  "fsm_inv f \<longleftrightarrow>
     length (free_lists f) = 64 \<and>
     (\<forall>i<64. sorted (free_lists f ! i) \<and> distinct (free_lists f ! i) \<and>
        (\<forall>r\<in>set (free_lists f ! i). range_ok r \<and> level_of (num_pages r) = i)) \<and>
     fsm_num_entries f = word_of_nat (length (concat (free_lists f))) \<and>
     (\<forall>r\<in>ranges f. \<forall>s\<in>ranges f. r \<noteq> s \<longrightarrow> pages r \<inter> pages s = {})"

lemma pages_nonempty: "range_ok r \<Longrightarrow> pages r \<noteq> {}"
  by (auto simp: pages_def range_ok_def word_less_nat_alt)

lemma mem_concat_nth: "x \<in> set (concat ls) \<longleftrightarrow> (\<exists>i<length ls. x \<in> set (ls ! i))"
  by (auto simp: set_conv_nth [of ls])

lemma fsm_invD:
  assumes "fsm_inv f" "r \<in> ranges f"
  shows "range_ok r" "r \<in> set (free_lists f ! level_of (num_pages r))" "level_of (num_pages r) < 64"
  using assms by (auto simp: fsm_inv_def ranges_def mem_concat_nth simp del: set_concat)

lemma inv_new: "fsm_inv fsm_new" "free_set fsm_new = {}" "ranges fsm_new = {}"
  by (auto simp: fsm_inv_def fsm_new_def free_set_def ranges_def)

lemma set_concat_update:
  assumes "i < length ls"
  shows "set (concat (ls[i := l])) = set l \<union> (\<Union>j\<in>{j. j < length ls \<and> j \<noteq> i}. set (ls ! j))"
  using assms by (auto simp: mem_concat_nth nth_list_update simp del: set_concat split: if_splits)

lemma length_concat_update:
  "i < length ls \<Longrightarrow> length (concat (ls[i := l])) + length (ls ! i) = length (concat ls) + length l"
  by (induction ls arbitrary: i) (auto simp: nth_Cons split: nat.splits)

lemma add_ok:
  assumes "fsm_inv f" "range_ok r" "pages r \<inter> free_set f = {}"
  obtains f' where "add_free_pages r f = Inr f'" "fsm_inv f'" "ranges f' = insert r (ranges f)"
    "uncheckpointed f' = uncheckpointed f"
proof -
  let ?i = "level_of (num_pages r)"
  let ?ls = "free_lists f"
  have pos: "0 < num_pages r" using assms(2) by (simp add: range_ok_def)
  note lv = level_bounds [OF pos]
  have len: "length ?ls = 64" using assms(1) by (simp add: fsm_inv_def)
  have new: "r \<notin> ranges f"
    using assms(3) pages_nonempty [OF assms(2)] unfolding free_set_def by blast
  then have nl: "r \<notin> set (?ls ! ?i)"
    using lv(3) len by (auto simp: ranges_def mem_concat_nth simp del: set_concat)
  define f' where "f' = f\<lparr>free_lists := ?ls[?i := insort r (?ls ! ?i)], fsm_num_entries := fsm_num_entries f + 1\<rparr>"
  have a: "add_free_pages r f = Inr f'"
    using lv nl by (simp add: add_free_pages_def f'_def Let_def)
  have r': "ranges f' = insert r (ranges f)"
    using lv(3) len
    by (auto simp: ranges_def f'_def set_concat_update set_insort_key mem_concat_nth simp del: set_concat)
  moreover have "fsm_inv f'"
    unfolding fsm_inv_def
  proof (intro conjI)
    show "length (free_lists f') = 64" by (simp add: f'_def len)
    show "\<forall>i<64. sorted (free_lists f' ! i) \<and> distinct (free_lists f' ! i) \<and>
        (\<forall>r\<in>set (free_lists f' ! i). range_ok r \<and> level_of (num_pages r) = i)"
    proof (intro allI impI)
      fix i :: nat assume "i < 64"
      then have "sorted (?ls ! i)" "distinct (?ls ! i)" "\<forall>r\<in>set (?ls ! i). range_ok r \<and> level_of (num_pages r) = i"
        using assms(1) by (auto simp: fsm_inv_def)
      then show "sorted (free_lists f' ! i) \<and> distinct (free_lists f' ! i) \<and>
          (\<forall>r\<in>set (free_lists f' ! i). range_ok r \<and> level_of (num_pages r) = i)"
        using nl len lv(3) assms(2)
        by (cases "i = ?i") (auto simp: f'_def sorted_insort distinct_insort set_insort_key)
    qed
    show "fsm_num_entries f' = word_of_nat (length (concat (free_lists f')))"
      using assms(1) length_concat_update [of ?i ?ls "insort r (?ls ! ?i)"] lv(3) len
      by (simp add: fsm_inv_def f'_def)
    show "\<forall>r\<in>ranges f'. \<forall>s\<in>ranges f'. r \<noteq> s \<longrightarrow> pages r \<inter> pages s = {}"
      using assms(1,3) unfolding r' by (auto simp: fsm_inv_def free_set_def)
  qed
  ultimately show thesis using a that by (simp add: f'_def)
qed

lemma remove_ok:
  assumes "fsm_inv f" "r \<in> set (free_lists f ! i)" "i < 64"
  defines "f' \<equiv> f\<lparr>free_lists := (free_lists f)[i := remove1 r (free_lists f ! i)], fsm_num_entries := fsm_num_entries f - 1\<rparr>"
  shows "fsm_inv f'" "ranges f' = ranges f - {r}"
proof -
  let ?ls = "free_lists f"
  have len: "length ?ls = 64" and d: "distinct (?ls ! i)" and lv: "level_of (num_pages r) = i"
    using assms(1-3) by (auto simp: fsm_inv_def)
  have other: "r \<notin> set (?ls ! j)" if "j < 64" "j \<noteq> i" for j
    using that assms(1) lv by (auto simp: fsm_inv_def)
  show r': "ranges f' = ranges f - {r}"
    using assms(3) len d other
    by (auto simp: ranges_def f'_def set_concat_update mem_concat_nth simp del: set_concat)
  have "length (?ls ! i) = Suc (length (remove1 r (?ls ! i)))"
    using assms(2) by (simp add: length_remove1) (metis Suc_pred length_pos_if_in_set)
  then have "length (concat ?ls) = Suc (length (concat (?ls[i := remove1 r (?ls ! i)])))"
    using length_concat_update [of i ?ls "remove1 r (?ls ! i)"] assms(3) len by simp
  then have cnt: "fsm_num_entries f' = word_of_nat (length (concat (free_lists f')))"
    using assms(1) by (simp add: fsm_inv_def f'_def)
  show "fsm_inv f'"
    unfolding fsm_inv_def
  proof (intro conjI)
    show "length (free_lists f') = 64" by (simp add: f'_def len)
    show "\<forall>i<64. sorted (free_lists f' ! i) \<and> distinct (free_lists f' ! i) \<and>
        (\<forall>r\<in>set (free_lists f' ! i). range_ok r \<and> level_of (num_pages r) = i)"
    proof (intro allI impI)
      fix j :: nat assume "j < 64"
      then have "sorted (?ls ! j)" "distinct (?ls ! j)" "\<forall>r\<in>set (?ls ! j). range_ok r \<and> level_of (num_pages r) = j"
        using assms(1) by (auto simp: fsm_inv_def)
      then show "sorted (free_lists f' ! j) \<and> distinct (free_lists f' ! j) \<and>
          (\<forall>r\<in>set (free_lists f' ! j). range_ok r \<and> level_of (num_pages r) = j)"
        using len assms(3) by (cases "j = i") (auto simp: f'_def sorted_remove1)
    qed
    show "\<forall>r\<in>ranges f'. \<forall>s\<in>ranges f'. r \<noteq> s \<longrightarrow> pages r \<inter> pages s = {}"
      using assms(1) unfolding r' by (auto simp: fsm_inv_def)
  qed (rule cnt)
qed


section \<open>Allocation\<close>

lemma probe_le: "PageRange 0 n \<le> r \<longleftrightarrow> n \<le> num_pages r"
  by (cases r) (auto simp: less_eq_page_range_def page_range_less_def word_neq_0_conv)

lemma probe_fun: "(\<le>) (PageRange 0 n) = (\<lambda>r. n \<le> num_pages r)"
  by (auto simp: probe_le)

lemma pop_search_Some:
  "pop_search ls n lv = Some (l, e) \<Longrightarrow>
     \<exists>pre post. lv = pre @ l # post \<and> (\<forall>j\<in>set pre. \<forall>r\<in>set (ls ! j). \<not> n \<le> num_pages r) \<and>
       find (\<lambda>r. n \<le> num_pages r) (ls ! l) = Some e"
proof (induction lv)
  case (Cons j lv)
  show ?case
  proof (cases "find (\<lambda>r. n \<le> num_pages r) (ls ! j)")
    case None
    with Cons obtain pre post where "lv = pre @ l # post" "\<forall>j\<in>set pre. \<forall>r\<in>set (ls ! j). \<not> n \<le> num_pages r"
      "find (\<lambda>r. n \<le> num_pages r) (ls ! l) = Some e"
      by (auto simp: probe_fun)
    with None show ?thesis
      by (intro exI [of _ "j # pre"] exI [of _ post]) (auto simp: find_None_iff)
  next
    case (Some a)
    with Cons.prems show ?thesis by (intro exI [of _ "[]"] exI [of _ lv]) (auto simp: probe_fun)
  qed
qed simp

lemma pop_search_None:
  "pop_search ls n lv = None \<longleftrightarrow> (\<forall>j\<in>set lv. \<forall>r\<in>set (ls ! j). \<not> n \<le> num_pages r)"
  by (induction lv) (auto simp: probe_fun find_None_iff split: option.splits dest!: find_Some_iff [THEN iffD1])

lemma sorted_find_least:
  "sorted xs \<Longrightarrow> find P xs = Some e \<Longrightarrow> r \<in> set xs \<Longrightarrow> P r \<Longrightarrow> e \<le> r"
  by (induction xs) (auto split: if_splits)

lemma pop_search_best:
  assumes "fsm_inv f" "0 < n" "pop_search (free_lists f) n [level_of n..<64] = Some (l, e)"
  shows "l < 64" "e \<in> set (free_lists f ! l)" "n \<le> num_pages e"
    "\<forall>r\<in>ranges f. n \<le> num_pages r \<longrightarrow> num_pages e \<le> num_pages r"
proof -
  from pop_search_Some [OF assms(3)] obtain pre post where
    lv: "[level_of n..<64] = pre @ l # post" and pre: "\<forall>j\<in>set pre. \<forall>r\<in>set (free_lists f ! j). \<not> n \<le> num_pages r"
    and fd: "find (\<lambda>r. n \<le> num_pages r) (free_lists f ! l) = Some e" by blast
  have "l \<in> set [level_of n..<64]" unfolding lv by simp
  then show l: "l < 64" by simp
  show e: "e \<in> set (free_lists f ! l)" "n \<le> num_pages e"
    using find_SomeD [OF fd] by auto
  have sl: "sorted (free_lists f ! l)" and lev: "level_of (num_pages e) = l" and pe: "0 < num_pages e"
    using assms(1) l e(1) by (auto simp: fsm_inv_def range_ok_def)
  have inpre: "j \<in> set pre" if "level_of n \<le> j" "j < l" for j
  proof -
    have "j \<in> set [level_of n..<64]" using that l by simp
    moreover have "sorted (pre @ l # post)" unfolding lv [symmetric] by simp
    ultimately show ?thesis unfolding lv using that(2) by (auto simp: sorted_append)
  qed
  show "\<forall>r\<in>ranges f. n \<le> num_pages r \<longrightarrow> num_pages e \<le> num_pages r"
  proof (intro ballI impI)
    fix r assume r: "r \<in> ranges f" and n: "n \<le> num_pages r"
    note rD = fsm_invD [OF assms(1) r]
    have pr: "0 < num_pages r" using rD(1) by (simp add: range_ok_def)
    have "level_of n \<le> level_of (num_pages r)" by (rule level_mono [OF assms(2) n])
    then have "\<not> level_of (num_pages r) < l" using inpre pre rD(2) n by blast
    then consider "level_of (num_pages r) = l" | "l < level_of (num_pages r)" by linarith
    then show "num_pages e \<le> num_pages r"
    proof cases
      case 1
      then have "e \<le> r" using sorted_find_least [OF sl fd] rD(2) n by simp
      then show ?thesis by (auto simp: less_eq_page_range_def page_range_less_def)
    next
      case 2
      then show ?thesis using level_less [OF pe pr] lev by simp
    qed
  qed
qed

lemma split_ok:
  assumes "fsm_inv f" "range_ok e" "pages e \<inter> free_set f = {}" "0 < n" "n \<le> num_pages e"
  obtains f' where "split_page_range e n f = Inr (PageRange (start_page_idx e) n, f')" "fsm_inv f'"
    "free_set f' = free_set f \<union> (pages e - pages (PageRange (start_page_idx e) n))"
    "pages (PageRange (start_page_idx e) n) \<subseteq> pages e"
    "uncheckpointed f' = uncheckpointed f"
proof (cases "n = num_pages e")
  case True
  then show thesis using that [of f] assms by (simp add: split_page_range_def pages_def)
next
  case False
  then have lt: "n < num_pages e" using assms(5) by simp
  let ?r = "PageRange (start_page_idx e + n) (num_pages e - n)"
  have un: "unat n < unat (num_pages e)" "0 < unat n" using lt assms(4) by (auto simp: word_less_nat_alt)
  have s: "unat (start_page_idx e + n) = unat (start_page_idx e) + unat n"
    using assms(2) un by (intro unat_add_lem [THEN iffD1]) (simp add: range_ok_def)
  have d: "unat (num_pages e - n) = unat (num_pages e) - unat n"
    using assms(5) by (simp add: unat_sub)
  have rp: "pages ?r = pages e - pages (PageRange (start_page_idx e) n)"
    and sub: "pages (PageRange (start_page_idx e) n) \<subseteq> pages e"
    using un by (auto simp: pages_def s d)
  have ok: "range_ok ?r" using assms(2) un s d by (simp add: range_ok_def word_less_nat_alt)
  have "pages ?r \<inter> free_set f = {}" using rp assms(3) by blast
  from add_ok [OF assms(1) ok this] obtain f' where f': "add_free_pages ?r f = Inr f'" "fsm_inv f'"
    "ranges f' = insert ?r (ranges f)" "uncheckpointed f' = uncheckpointed f" .
  have "free_set f' = free_set f \<union> (pages e - pages (PageRange (start_page_idx e) n))"
    using f'(3) rp by (auto simp: free_set_def)
  then show thesis
    using that [of f'] f' sub lt assms(5) by (simp add: split_page_range_def Let_def)
qed


text \<open>The interface the page manager and every other client rely on: an allocator of page ranges whose
  state denotes a set of free pages.\<close>

locale page_allocator =
  fixes inv :: "'s \<Rightarrow> bool"
    and frees :: "'s \<Rightarrow> nat set"
    and pop :: "u64 \<Rightarrow> 's \<Rightarrow> fsm_error + page_range option \<times> 's"
    and add :: "page_range \<Rightarrow> 's \<Rightarrow> fsm_error + 's"
  assumes pop_never_fails: "inv s \<Longrightarrow> \<exists>r s'. pop n s = Inr (r, s')"
    and pop_None: "inv s \<Longrightarrow> pop n s = Inr (None, s') \<Longrightarrow> s' = s"
    and pop_Some: "inv s \<Longrightarrow> pop n s = Inr (Some r, s') \<Longrightarrow>
      inv s' \<and> num_pages r = n \<and> range_ok r \<and> pages r \<subseteq> frees s \<and> frees s' = frees s - pages r"
    and add_disjoint: "inv s \<Longrightarrow> range_ok r \<Longrightarrow> pages r \<inter> frees s = {} \<Longrightarrow>
      \<exists>s'. add r s = Inr s' \<and> inv s' \<and> frees s' = frees s \<union> pages r"
begin

lemma pops_disjoint:
  assumes "inv s" "pop n s = Inr (Some r, s1)" "pop m s1 = Inr (Some r', s2)"
  shows "pages r \<inter> pages r' = {}"
  using pop_Some [OF assms(1,2)] pop_Some [OF _ assms(3)] by blast

lemma pop_add:
  assumes "inv s" "pop n s = Inr (Some r, s1)"
  shows "\<exists>s2. add r s1 = Inr s2 \<and> inv s2 \<and> frees s2 = frees s"
  using pop_Some [OF assms] add_disjoint [of s1 r] by (metis Diff_disjoint Int_commute Un_Diff_cancel2 sup.absorb1)

end

lemma pop_cases:
  assumes "fsm_inv f"
  obtains (none) "pop_free_pages n f = Inr (None, f)" "n = 0 \<or> (\<forall>r\<in>ranges f. num_pages r < n)"
    | (found) e f' where "e \<in> ranges f" "0 < n" "n \<le> num_pages e"
        "\<forall>r\<in>ranges f. n \<le> num_pages r \<longrightarrow> num_pages e \<le> num_pages r"
        "pop_free_pages n f = Inr (Some (PageRange (start_page_idx e) n), f')" "fsm_inv f'"
        "pages (PageRange (start_page_idx e) n) \<subseteq> pages e"
        "free_set f' = free_set f - pages (PageRange (start_page_idx e) n)"
        "uncheckpointed f' = uncheckpointed f"
proof (cases "n = 0")
  case True
  then show thesis using none by (simp add: pop_free_pages_def)
next
  case False
  then have n: "0 < n" by (simp add: word_gt_0)
  have len: "length (free_lists f) = 64" using assms by (simp add: fsm_inv_def)
  show thesis
  proof (cases "pop_search (free_lists f) n [level_of n..<64]")
    case None
    have "num_pages r < n" if r: "r \<in> ranges f" for r
    proof (rule ccontr)
      assume "\<not> num_pages r < n"
      then have le: "n \<le> num_pages r" by simp
      with fsm_invD [OF assms r] level_mono [OF n le] None show False
        unfolding pop_search_None by auto
    qed
    then show thesis
      using none n None len by (simp add: pop_free_pages_def level_bounds(4))
  next
    case (Some le)
    obtain l e where le: "le = (l, e)" by (cases le)
    note b = pop_search_best [OF assms n Some [unfolded le]]
    let ?f = "f\<lparr>free_lists := (free_lists f)[l := remove1 e (free_lists f ! l)], fsm_num_entries := fsm_num_entries f - 1\<rparr>"
    note rem = remove_ok [OF assms b(2,1)]
    have e: "e \<in> ranges f" using b(1,2) len by (auto simp: ranges_def mem_concat_nth simp del: set_concat)
    have dis: "pages e \<inter> pages r = {}" if "r \<in> ranges f - {e}" for r
    proof -
      have "r \<in> ranges f" "e \<noteq> r" using that by auto
      with assms e show ?thesis unfolding fsm_inv_def by blast
    qed
    then have d: "pages e \<inter> free_set ?f = {}" by (auto simp: free_set_def rem(2))
    obtain f' where f': "split_page_range e n ?f = Inr (PageRange (start_page_idx e) n, f')" "fsm_inv f'"
      "free_set f' = free_set ?f \<union> (pages e - pages (PageRange (start_page_idx e) n))"
      "pages (PageRange (start_page_idx e) n) \<subseteq> pages e" "uncheckpointed f' = uncheckpointed ?f"
      by (rule split_ok [OF rem(1) fsm_invD(1) [OF assms e] d n b(3)])
    have fs: "free_set f' = free_set f - pages (PageRange (start_page_idx e) n)"
      using f'(3,4) dis e by (auto simp: free_set_def rem(2))
    have "pop_free_pages n f = Inr (Some (PageRange (start_page_idx e) n), f')"
      using n len Some f'(1) by (simp add: pop_free_pages_def level_bounds(4) pop_take_def le)
    with found [OF e n b(3,4)] f' fs show thesis by simp
  qed
qed

interpretation fsm: page_allocator fsm_inv free_set pop_free_pages add_free_pages
proof unfold_locales
  fix n f assume inv: "fsm_inv f"
  show "\<exists>r f'. pop_free_pages n f = Inr (r, f')"
    by (rule pop_cases [OF inv, of n]) auto
next
  fix n f f' assume inv: "fsm_inv f" and p: "pop_free_pages n f = Inr (None, f')"
  show "f' = f"
    by (rule pop_cases [OF inv, of n]) (use p in auto)
next
  fix n f r f' assume inv: "fsm_inv f" and p: "pop_free_pages n f = Inr (Some r, f')"
  from inv show "fsm_inv f' \<and> num_pages r = n \<and> range_ok r \<and> pages r \<subseteq> free_set f \<and> free_set f' = free_set f - pages r"
  proof (cases rule: pop_cases [where n = n])
    case none
    then show ?thesis using p by simp
  next
    case (found e g)
    have "range_ok (PageRange (start_page_idx e) n)"
      using fsm_invD(1) [OF inv found(1)] found(2,3) by (auto simp: range_ok_def word_le_nat_alt)
    then show ?thesis using found p by (auto simp: free_set_def)
  qed
next
  fix f r assume "fsm_inv f" "range_ok r" "pages r \<inter> free_set f = {}"
  then obtain f' where "add_free_pages r f = Inr f'" "fsm_inv f'" "ranges f' = insert r (ranges f)"
    by (rule add_ok)
  then show "\<exists>f'. add_free_pages r f = Inr f' \<and> fsm_inv f' \<and> free_set f' = free_set f \<union> pages r"
    by (auto simp: free_set_def)
qed


text \<open>C22. \<^verbatim>\<open>pop_free_pages\<close> is best fit over a set of free pages: on a well-formed manager it never panics; it
  returns nothing only when nothing is asked for or no free range is large enough; otherwise it returns
  exactly the requested number of pages from the start of a smallest range that is large enough, and
  exactly those pages leave the set of free pages.\<close>

theorem pop_best_fit:
  assumes "fsm_inv f"
  shows "(pop_free_pages n f = Inr (None, f) \<and> (n = 0 \<or> (\<forall>r\<in>ranges f. num_pages r < n))) \<or>
    (\<exists>e f'. e \<in> ranges f \<and> n \<le> num_pages e \<and>
       (\<forall>r\<in>ranges f. n \<le> num_pages r \<longrightarrow> num_pages e \<le> num_pages r) \<and>
       pop_free_pages n f = Inr (Some (PageRange (start_page_idx e) n), f') \<and> fsm_inv f' \<and>
       pages (PageRange (start_page_idx e) n) \<subseteq> free_set f \<and>
       free_set f' = free_set f - pages (PageRange (start_page_idx e) n))"
  using assms
proof (cases rule: pop_cases [where n = n])
  case none
  then show ?thesis by blast
next
  case (found e f')
  then have "pages (PageRange (start_page_idx e) n) \<subseteq> free_set f" by (auto simp: free_set_def)
  with found show ?thesis by blast
qed

section \<open>Concurrent pops\<close>


section \<open>Checkpoints\<close>

lemma add_all_ok:
  assumes "fsm_inv f" "\<forall>r\<in>set rs. range_ok r" "distinct rs"
    "\<forall>r\<in>set rs. pages r \<inter> free_set f = {}" "\<forall>r\<in>set rs. \<forall>s\<in>set rs. r \<noteq> s \<longrightarrow> pages r \<inter> pages s = {}"
  shows "\<exists>f'. add_all rs f = Inr f' \<and> fsm_inv f' \<and> ranges f' = ranges f \<union> set rs \<and> uncheckpointed f' = uncheckpointed f"
  using assms
proof (induction rs arbitrary: f)
  case (Cons r rs)
  then obtain f1 where f1: "add_free_pages r f = Inr f1" "fsm_inv f1" "ranges f1 = insert r (ranges f)"
    "uncheckpointed f1 = uncheckpointed f"
    using add_ok [of f r] by auto
  have "pages s \<inter> free_set f1 = {}" if s: "s \<in> set rs" for s
  proof -
    have "s \<noteq> r" using Cons.prems(3) s by auto
    then have "pages s \<inter> pages r = {}" "pages s \<inter> free_set f = {}" using Cons.prems(4,5) s by auto
    then show ?thesis by (auto simp: free_set_def f1(3))
  qed
  then show ?case
    using Cons.IH [OF f1(2)] Cons.prems f1 by auto
qed simp

text \<open>C24. Finalizing a checkpoint makes exactly the pages freed since the last one available, and rolling it
  back forgets them: when the recorded ranges are well formed, pairwise disjoint and disjoint from
  the free pages, \<^verbatim>\<open>finalize_checkpoint\<close> does not panic, its free set is the union, and nothing stays
  recorded.\<close>

theorem finalize_checkpoint_frees:
  assumes "fsm_inv f" "\<forall>r\<in>set (uncheckpointed f). range_ok r \<and> pages r \<inter> free_set f = {}"
    "distinct (uncheckpointed f)"
    "\<forall>r\<in>set (uncheckpointed f). \<forall>s\<in>set (uncheckpointed f). r \<noteq> s \<longrightarrow> pages r \<inter> pages s = {}"
  shows "\<exists>f'. finalize_checkpoint f = Inr f' \<and> fsm_inv f' \<and> uncheckpointed f' = [] \<and>
    free_set f' = free_set f \<union> (\<Union>r\<in>set (uncheckpointed f). pages r) \<and>
    free_set (rollback_checkpoint f) = free_set f"
proof -
  let ?f = "f\<lparr>uncheckpointed := []\<rparr>"
  have eq: "fsm_inv ?f" "free_set ?f = free_set f" "ranges ?f = ranges f" "free_set (rollback_checkpoint f) = free_set f"
    using assms(1) by (auto simp: fsm_inv_def free_set_def ranges_def rollback_checkpoint_def)
  obtain f' where "add_all (uncheckpointed f) ?f = Inr f'" "fsm_inv f'"
    "ranges f' = ranges f \<union> set (uncheckpointed f)" "uncheckpointed f' = []"
    using add_all_ok [OF eq(1), of "uncheckpointed f"] assms(2-4) eq by auto
  then show ?thesis using eq by (auto simp: finalize_checkpoint_def free_set_def)
qed

section \<open>Serialization\<close>

lemma fsm_inv_unique:
  assumes "fsm_inv f" "fsm_inv g" "ranges f = ranges g"
  shows "free_lists f = free_lists g" "fsm_num_entries f = fsm_num_entries g"
proof -
  have sub: "set (free_lists h ! i) = {r \<in> ranges h. level_of (num_pages r) = i}" if "fsm_inv h" "i < 64" for h i
  proof -
    have "length (free_lists h) = 64" using that by (simp add: fsm_inv_def)
    then show ?thesis
      using that fsm_invD(2) [OF that(1)]
      by (auto simp: fsm_inv_def) (auto simp: ranges_def mem_concat_nth simp del: set_concat)
  qed
  show lists: "free_lists f = free_lists g"
  proof (rule nth_equalityI)
    show "length (free_lists f) = length (free_lists g)" using assms by (simp add: fsm_inv_def)
    fix i assume "i < length (free_lists f)"
    then have i: "i < 64" using assms(1) by (simp add: fsm_inv_def)
    have "sorted (free_lists f ! i)" "distinct (free_lists f ! i)" "sorted (free_lists g ! i)" "distinct (free_lists g ! i)"
      using assms(1,2) i by (auto simp: fsm_inv_def)
    then show "free_lists f ! i = free_lists g ! i"
      using sub [OF assms(1) i] sub [OF assms(2) i] assms(3) by (intro sorted_distinct_set_unique) auto
  qed
  show "fsm_num_entries f = fsm_num_entries g"
    using assms(1,2) lists by (simp add: fsm_inv_def)
qed

lemma distinct_concat_lists:
  assumes "fsm_inv f"
  shows "distinct (concat (free_lists f))"
proof -
  have "length (free_lists f) = 64" using assms by (simp add: fsm_inv_def)
  moreover have "set (free_lists f ! i) \<inter> set (free_lists f ! j) = {}" if "i < 64" "j < 64" "i \<noteq> j" for i j
  proof -
    have "level_of (num_pages r) = k" if "r \<in> set (free_lists f ! k)" "k < 64" for r k
      using assms that by (simp add: fsm_inv_def)
    then show ?thesis using that by blast
  qed
  ultimately show ?thesis
    using assms by (intro distinct_concat_nth) (auto simp: fsm_inv_def)
qed

lemma range_at_block:
  assumes "i < length rs"
  shows "range_at (u32_le v @ concat (map range_bytes rs)) i = rs ! i"
proof -
  have b: "take 16 (drop (i * 16) (concat (map range_bytes rs))) = range_bytes (rs ! i)"
    using concat_block [of rs range_bytes 16 i "[]"] assms by (simp add: range_bytes_def)
  let ?c = "concat (map range_bytes rs)"
  have "slice (4 + i * 16) (4 + i * 16 + 8) (u32_le v @ ?c) = take 8 (take 16 (drop (i * 16) ?c))"
    by (simp add: slice_def)
  moreover have "slice (4 + i * 16 + 8) (4 + i * 16 + 16) (u32_le v @ ?c) = drop 8 (take 16 (drop (i * 16) ?c))"
    by (simp add: slice_def drop_take add.commute add.left_commute)
  ultimately show ?thesis
    unfolding range_at_def Let_def b by (simp add: range_bytes_def)
qed


text \<open>C25. Saving and loading the free space manager: a well-formed manager with fewer than 2 to the 32 ranges
  is read back with the same free lists and entry count, without pending checkpoint ranges.\<close>

theorem fsm_serialize_roundtrip:
  assumes "fsm_inv f" "length (concat (free_lists f)) < 2 ^ 32"
  shows "fsm_deserialize (fsm_serialize f) =
    Inr \<lparr>free_lists = free_lists f, uncheckpointed = [], fsm_num_entries = fsm_num_entries f\<rparr>"
proof -
  let ?rs = "concat (free_lists f)"
  have len: "length (concat (map range_bytes ?rs)) = length ?rs * 16"
    by (intro length_concat_blocks) (simp add: range_bytes_def)
  have n: "unat (u32_of_le (slice 0 4 (fsm_serialize f))) = length ?rs"
    using assms(2) by (simp add: fsm_serialize_def Let_def unat_of_nat)
  have m: "map (range_at (fsm_serialize f)) [0..<length ?rs] = ?rs"
    by (intro nth_equalityI) (simp_all add: fsm_serialize_def Let_def range_at_block)
  have "\<exists>f'. add_all ?rs fsm_new = Inr f' \<and> fsm_inv f' \<and> ranges f' = ranges fsm_new \<union> set ?rs \<and>
      uncheckpointed f' = uncheckpointed fsm_new"
  proof (rule add_all_ok [OF inv_new(1)])
    show "\<forall>r\<in>set ?rs. range_ok r" using fsm_invD(1) [OF assms(1)] unfolding ranges_def by blast
    show "\<forall>r\<in>set ?rs. \<forall>s\<in>set ?rs. r \<noteq> s \<longrightarrow> pages r \<inter> pages s = {}"
      using assms(1) unfolding fsm_inv_def ranges_def by blast
  qed (simp_all add: inv_new(2) distinct_concat_lists [OF assms(1)] del: set_concat)
  then obtain f' where f': "add_all ?rs fsm_new = Inr f'" "fsm_inv f'" "ranges f' = ranges f" "uncheckpointed f' = []"
    by (auto simp: inv_new(3) ranges_def) (auto simp: fsm_new_def)
  have "f' = \<lparr>free_lists = free_lists f, uncheckpointed = [], fsm_num_entries = fsm_num_entries f\<rparr>"
    using fsm_inv_unique [OF f'(2) assms(1) f'(3)] f'(4) by simp
  then show ?thesis
    using f'(1) len unfolding fsm_deserialize_def Let_def n m
    by (simp add: fsm_serialize_def Let_def)
qed

section \<open>Page manager\<close>

text \<open>
  The page manager beside the pages its clients own. A client frees only pages it owns.
\<close>

inductive pm_step :: "page_manager \<times> nat set \<Rightarrow> page_manager \<times> nat set \<Rightarrow> bool" where
  Allocate: "next_page pm \<noteq> u64_max \<Longrightarrow> allocate_page pm = Inr (p, pm') \<Longrightarrow>
     pm_step (pm, owned) (pm', insert (unat p) owned)"
| Free: "range_ok (PageRange start n) \<Longrightarrow> pages (PageRange start n) \<subseteq> owned \<Longrightarrow>
     free_pages start n pm = Inr pm' \<Longrightarrow>
     pm_step (pm, owned) (pm', owned - (if start = invalid_page_idx then {} else pages (PageRange start n)))"

inductive_cases pm_stepE: "pm_step (pm, owned) t"

definition pm_inv :: "page_manager \<times> nat set \<Rightarrow> bool" where
  "pm_inv s \<longleftrightarrow> (case s of (pm, owned) \<Rightarrow>
     fsm_inv (fsm pm) \<and> free_set (fsm pm) \<inter> owned = {} \<and>
     free_set (fsm pm) \<union> owned \<subseteq> {..<unat (next_page pm)} \<and> total_pages pm = next_page pm)"

lemma pages_single: "range_ok r \<Longrightarrow> num_pages r = 1 \<Longrightarrow> pages r = {unat (start_page_idx r)}"
  by (auto simp: pages_def)

lemma allocate_cases:
  assumes "fsm_inv (fsm pm)" "next_page pm \<noteq> u64_max"
  obtains (reuse) p f where "allocate_page pm = Inr (p, pm\<lparr>fsm := f\<rparr>)" "fsm_inv f" "unat p \<in> free_set (fsm pm)"
      "free_set f = free_set (fsm pm) - {unat p}"
    | (extend) "allocate_page pm = Inr (next_page pm,
        pm\<lparr>next_page := next_page pm + 1, total_pages := total_pages pm + 1\<rparr>)"
proof -
  obtain r f where p: "pop_free_pages 1 (fsm pm) = Inr (r, f)"
    using fsm.pop_never_fails [OF assms(1)] by blast
  show thesis
  proof (cases r)
    case None
    then have "f = fsm pm" using fsm.pop_None [OF assms(1)] p by simp
    then show ?thesis using extend p None by (simp add: allocate_page_def)
  next
    case (Some rg)
    have s: "fsm_inv f" "num_pages rg = 1" "range_ok rg" "pages rg \<subseteq> free_set (fsm pm)"
      "free_set f = free_set (fsm pm) - pages rg"
      using fsm.pop_Some [OF assms(1) p [unfolded Some]] by auto
    note ps = pages_single [OF s(3,2)]
    show ?thesis
      using reuse [of "start_page_idx rg" f] s p Some by (simp add: allocate_page_def ps)
  qed
qed

lemma pm_step_inv:
  assumes "pm_inv s" "pm_step s t"
  shows "pm_inv t"
  using assms(2,1)
proof (cases rule: pm_step.cases)
  case (Allocate pm p pm' owned)
  have inv: "fsm_inv (fsm pm)" "free_set (fsm pm) \<inter> owned = {}"
    "free_set (fsm pm) \<union> owned \<subseteq> {..<unat (next_page pm)}" "total_pages pm = next_page pm"
    using assms(1) Allocate(1) by (auto simp: pm_inv_def)
  from inv(1) Allocate(3) show ?thesis
  proof (cases rule: allocate_cases)
    case (reuse q f)
    then show ?thesis using Allocate inv by (auto simp: pm_inv_def)
  next
    case extend
    have "unat (next_page pm + 1) = Suc (unat (next_page pm))"
      using Allocate(3) unatSuc [of "next_page pm"] by (simp add: add.commute add_eq_0_iff)
    then show ?thesis using extend Allocate inv by (auto simp: pm_inv_def)
  qed
next
  case (Free start n owned pm pm')
  have inv: "fsm_inv (fsm pm)" "free_set (fsm pm) \<inter> owned = {}"
    "free_set (fsm pm) \<union> owned \<subseteq> {..<unat (next_page pm)}" "total_pages pm = next_page pm"
    using assms(1) Free(1) by (auto simp: pm_inv_def)
  have "n \<noteq> 0" using Free(3) by (auto simp: range_ok_def)
  show ?thesis
  proof (cases "start = invalid_page_idx")
    case True
    then show ?thesis using Free inv by (auto simp: pm_inv_def free_pages_def)
  next
    case False
    have "pages (PageRange start n) \<inter> free_set (fsm pm) = {}" using inv(2) Free(4) by blast
    from fsm.add_disjoint [OF inv(1) Free(3) this] obtain f where
      f: "add_free_pages (PageRange start n) (fsm pm) = Inr f" "fsm_inv f"
        "free_set f = free_set (fsm pm) \<union> pages (PageRange start n)" by blast
    then have "pm' = pm\<lparr>fsm := f\<rparr>"
      using Free(5) False \<open>n \<noteq> 0\<close> by (simp add: free_pages_def)
    then show ?thesis using Free inv f False by (auto simp: pm_inv_def)
  qed
qed

interpretation pm: inv_system
  "\<lambda>s. \<exists>psize n file. s = (pm_new psize n fsm_new file, {})" pm_step pm_inv
proof unfold_locales
  show "\<exists>psize n file. s = (pm_new psize n fsm_new file, {}) \<Longrightarrow> pm_inv s" for s
    by (auto simp: pm_inv_def pm_new_def inv_new)
qed (rule pm_step_inv)

text \<open>C26. No page is handed out twice: whatever pages clients have allocated and freed before, in any order,
  \<^verbatim>\<open>allocate_page\<close> does not panic and returns a page that no client owns, and freeing an owned range
  does not panic.\<close>

theorem no_double_allocation:
  assumes "pm_step\<^sup>*\<^sup>* (pm_new psize n fsm_new file, {}) (pm, owned)" "next_page pm \<noteq> u64_max"
  shows "(\<exists>p pm'. allocate_page pm = Inr (p, pm') \<and> unat p \<notin> owned) \<and>
    (\<forall>start k. range_ok (PageRange start k) \<and> pages (PageRange start k) \<subseteq> owned \<longrightarrow>
       (\<exists>pm'. free_pages start k pm = Inr pm'))"
proof -
  have inv: "fsm_inv (fsm pm)" "free_set (fsm pm) \<inter> owned = {}"
    "free_set (fsm pm) \<union> owned \<subseteq> {..<unat (next_page pm)}"
    using pm.inv_reachable [OF _ assms(1)] by (auto simp: pm_inv_def)
  have "\<exists>p pm'. allocate_page pm = Inr (p, pm') \<and> unat p \<notin> owned"
    using inv(1) assms(2) by (cases rule: allocate_cases) (use inv in auto)
  moreover have "\<exists>pm'. free_pages start k pm = Inr pm'"
    if "range_ok (PageRange start k)" "pages (PageRange start k) \<subseteq> owned" for start k
  proof -
    have "pages (PageRange start k) \<inter> free_set (fsm pm) = {}" using inv(2) that(2) by blast
    from fsm.add_disjoint [OF inv(1) that(1) this] show ?thesis by (auto simp: free_pages_def)
  qed
  ultimately show ?thesis by blast
qed

text \<open>Extending the file hands out pages that allocation hands out again: \<^verbatim>\<open>extend_file\<close> advances the page
  count but not the allocation counter, so the first page of the region it returns is the next page
  \<^verbatim>\<open>allocate_page\<close> returns when nothing is free.\<close>

theorem extend_then_allocate_overlap:
  "\<exists>pm' pm''. extend_file True k (pm_new psize n fsm_new file) = (Some n, pm') \<and>
     allocate_page pm' = Inr (n, pm'')"
proof -
  have "pop_free_pages 1 fsm_new = Inr (None, fsm_new)"
    by (rule pop_cases [OF inv_new(1), of 1]) (simp_all add: inv_new(3))
  then show ?thesis
    by (simp add: extend_file_def pm_new_def allocate_page_def)
qed

definition fsm_demo :: free_space_manager where
  "fsm_demo = fsm_new\<lparr>uncheckpointed := [PageRange 10 4, PageRange 20 2]\<rparr>"

lemma fsm_demo_ok:
  "fsm_inv fsm_demo" "ranges fsm_demo = {}" "free_set fsm_demo = {}"
  "\<forall>r\<in>set (uncheckpointed fsm_demo). range_ok r"
  "pages (PageRange 10 4) \<inter> pages (PageRange 20 2) = {}"
  by (auto simp: fsm_demo_def fsm_inv_def fsm_new_def ranges_def free_set_def range_ok_def pages_def)

theorem finalize_checkpoint_frees_witness:
  "\<exists>f'. finalize_checkpoint fsm_demo = Inr f' \<and> free_set f' = {10..<14} \<union> {20..<22}"
proof -
  have "uncheckpointed fsm_demo = [PageRange 10 4, PageRange 20 2]" by (simp add: fsm_demo_def)
  with finalize_checkpoint_frees [OF fsm_demo_ok(1)] fsm_demo_ok(3-5) show ?thesis
    by (auto simp: pages_def)
qed

definition fsm_two :: free_space_manager where
  "fsm_two = (case add_all [PageRange 10 4, PageRange 20 2] fsm_new of Inr f \<Rightarrow> f | Inl _ \<Rightarrow> fsm_new)"

lemma fsm_two_ok:
  "fsm_inv fsm_two" "ranges fsm_two = {PageRange 10 4, PageRange 20 2}" "length (concat (free_lists fsm_two)) < 2 ^ 32"
proof -
  let ?rs = "[PageRange 10 4, PageRange 20 2]"
  have "\<forall>r\<in>set ?rs. range_ok r" using fsm_demo_ok(4) by (simp add: fsm_demo_def)
  moreover have "\<forall>r\<in>set ?rs. \<forall>s\<in>set ?rs. r \<noteq> s \<longrightarrow> pages r \<inter> pages s = {}"
    using fsm_demo_ok(5) by (simp add: Int_commute)
  moreover have "\<forall>r\<in>set ?rs. pages r \<inter> free_set fsm_new = {}" by (simp add: inv_new(2))
  moreover have "distinct ?rs" by simp
  ultimately obtain f where "add_all ?rs fsm_new = Inr f" "fsm_inv f" "ranges f = ranges fsm_new \<union> set ?rs"
    using add_all_ok [OF inv_new(1), of ?rs] by blast
  then have "add_all ?rs fsm_new = Inr f" "fsm_inv f" "ranges f = {PageRange 10 4, PageRange 20 2}"
    by (simp_all add: inv_new(3) del: add_all.simps)
  then show r: "fsm_inv fsm_two" "ranges fsm_two = {PageRange 10 4, PageRange 20 2}"
    by (simp_all add: fsm_two_def del: add_all.simps)
  have "length (concat (free_lists fsm_two)) = 2"
    using distinct_card [OF distinct_concat_lists [OF r(1)]] r(2) unfolding ranges_def by simp
  then show "length (concat (free_lists fsm_two)) < 2 ^ 32" by simp
qed

theorem pop_best_fit_witness:
  "\<exists>f'. pop_free_pages 2 fsm_two = Inr (Some (PageRange 20 2), f') \<and> free_set f' = {10..<14}"
proof -
  have "\<not> ((2 :: u64) = 0 \<or> (\<forall>r\<in>ranges fsm_two. num_pages r < 2))" by (simp add: fsm_two_ok(2))
  with pop_best_fit [OF fsm_two_ok(1), of 2] obtain e f' where e: "e \<in> ranges fsm_two" "2 \<le> num_pages e"
      "\<forall>r\<in>ranges fsm_two. 2 \<le> num_pages r \<longrightarrow> num_pages e \<le> num_pages r"
      "pop_free_pages 2 fsm_two = Inr (Some (PageRange (start_page_idx e) 2), f')"
      "free_set f' = free_set fsm_two - pages (PageRange (start_page_idx e) 2)"
    by blast
  then have "e = PageRange 20 2" by (auto simp: fsm_two_ok(2))
  moreover have "free_set fsm_two = {10..<14} \<union> {20..<22}"
    by (auto simp: free_set_def fsm_two_ok(2) pages_def)
  ultimately show ?thesis using e(4,5) by (auto simp: pages_def)
qed

theorem fsm_serialize_roundtrip_witness:
  "\<exists>f. fsm_deserialize (fsm_serialize fsm_two) = Inr f \<and> free_lists f = free_lists fsm_two"
  using fsm_serialize_roundtrip [OF fsm_two_ok(1,3)] by simp

definition pm_demo :: page_manager where
  "pm_demo = (pm_new 4096 3 fsm_new [])\<lparr>next_page := 4, total_pages := 4\<rparr>"

theorem no_double_allocation_witness:
  "\<exists>p pm'. allocate_page pm_demo = Inr (p, pm') \<and> unat p \<notin> {3}"
proof -
  have "allocate_page (pm_new 4096 3 fsm_new []) = Inr (3, pm_demo)"
  proof -
    have "pop_free_pages 1 fsm_new = Inr (None, fsm_new)"
      by (rule pop_cases [OF inv_new(1), of 1]) (simp_all add: inv_new(3))
    then show ?thesis by (simp add: allocate_page_def pm_demo_def pm_new_def)
  qed
  then have "pm_step (pm_new 4096 3 fsm_new [], {}) (pm_demo, {3})"
    using pm_step.Allocate [of "pm_new 4096 3 fsm_new []" 3 pm_demo "{}"] by (simp add: pm_new_def)
  then have "pm_step\<^sup>*\<^sup>* (pm_new 4096 3 fsm_new [], {}) (pm_demo, {3})" by blast
  moreover have "next_page pm_demo \<noteq> u64_max" by (simp add: pm_demo_def)
  ultimately show ?thesis using no_double_allocation by blast
qed

end
