(* ===== verification/Wal.thy ===== *)
theory Wal
  imports Akar_Prelude
begin

text \<open>
  The write-ahead log: \<^verbatim>\<open>akar-storage/src/wal.rs\<close> (record format, append-only flush with a checksum per
  record, loading of both file versions, decoding of bulk-copied buffers), \<^verbatim>\<open>local_wal.rs\<close> (the buffer
  of one transaction) and \<^verbatim>\<open>wal_replayer.rs\<close> (recovery). The checksum \<^verbatim>\<open>crc32fast::hash\<close> is an external
  crate: the parameter \<open>crc\<close>. The log file is its contents, \<open>None\<close> when it does not exist; a cursor is
  the rest of its buffer. Counting skipped records only feeds a log message and is left out.
\<close>

section \<open>Records\<close>

datatype wal_record =
    Insert (wr_table_id: u64) (wr_data: bytes)
  | Delete (wr_table_id: u64) (wr_row_id: u64)
  | Update (wr_table_id: u64) (wr_row_id: u64) (wr_column: u32) (wr_data: bytes)
  | UpdateFsm u64 bool
  | ColumnWrite (wr_table_id: u64) (wr_col_id: u32) (wr_page_id: u64) (wr_data: bytes)
  | LocalWALData (wr_data: bytes)
  | Commit (wr_transaction_id: u64)
  | Rollback (wr_transaction_id: u64)
  | Checkpoint
  | CreateTable (wr_table_id: u64)
  | DropTable (wr_table_id: u64)
  | AlterTable (wr_table_id: u64)
  | CreateIndex (wr_table_id: u64)
  | DropIndex (wr_table_id: u64)
  | CreateSequence (wr_table_id: u64)

text \<open>The tag bytes: the ASCII codes of I, D, U, F, W, L, C, R, K, T, A, M, N, X, Q.\<close>

fun wal_tag :: "wal_record \<Rightarrow> u8" where
  "wal_tag (Insert _ _) = 73"
| "wal_tag (Delete _ _) = 68"
| "wal_tag (Update _ _ _ _) = 85"
| "wal_tag (UpdateFsm _ _) = 70"
| "wal_tag (ColumnWrite _ _ _ _) = 87"
| "wal_tag (LocalWALData _) = 76"
| "wal_tag (Commit _) = 67"
| "wal_tag (Rollback _) = 82"
| "wal_tag Checkpoint = 75"
| "wal_tag (CreateTable _) = 84"
| "wal_tag (DropTable _) = 65"
| "wal_tag (AlterTable _) = 77"
| "wal_tag (CreateIndex _) = 78"
| "wal_tag (DropIndex _) = 88"
| "wal_tag (CreateSequence _) = 81"

text \<open>\<^verbatim>\<open>(data.len() as u32)\<close> truncates to 32 bits.\<close>

definition len_prefixed :: "bytes \<Rightarrow> bytes" where
  "len_prefixed data = u32_le (word_of_nat (length data)) @ data"

fun wal_body :: "wal_record \<Rightarrow> bytes" where
  "wal_body (Insert table_id data) = u64_le table_id @ len_prefixed data"
| "wal_body (Delete table_id row_id) = u64_le table_id @ u64_le row_id"
| "wal_body (Update table_id row_id column data) =
     u64_le table_id @ u64_le row_id @ u32_le column @ len_prefixed data"
| "wal_body (UpdateFsm page_idx is_free) = u64_le page_idx @ [if is_free then 1 else 0]"
| "wal_body (ColumnWrite table_id col_id page_id data) =
     u64_le table_id @ u32_le col_id @ u64_le page_id @ len_prefixed data"
| "wal_body (LocalWALData data) = len_prefixed data"
| "wal_body (Commit transaction_id) = u64_le transaction_id"
| "wal_body (Rollback transaction_id) = u64_le transaction_id"
| "wal_body Checkpoint = []"
| "wal_body (CreateTable table_id) = u64_le table_id"
| "wal_body (DropTable table_id) = u64_le table_id"
| "wal_body (AlterTable table_id) = u64_le table_id"
| "wal_body (CreateIndex table_id) = u64_le table_id"
| "wal_body (DropIndex table_id) = u64_le table_id"
| "wal_body (CreateSequence table_id) = u64_le table_id"

definition wal_payload :: "wal_record \<Rightarrow> bytes" where
  "wal_payload r = wal_tag r # wal_body r"

datatype io_error = UnexpectedEof | InvalidTag u8 | IoFailure

text \<open>\<^verbatim>\<open>vec![0u8; data_len]; read_exact\<close>: a length field, then that many bytes.\<close>

definition read_data :: "bytes \<Rightarrow> (bytes \<times> bytes) option" where
  "read_data bs =
     (case deserialize_u32 bs of None \<Rightarrow> None | Some (n, rest) \<Rightarrow> read_exact (unat n) rest)"

section \<open>Parsing one record\<close>

definition parse_u64 :: "(u64 \<Rightarrow> wal_record) \<Rightarrow> bytes \<Rightarrow> (wal_record \<times> bytes) option" where
  "parse_u64 mk bs = (case deserialize_u64 bs of None \<Rightarrow> None | Some (x, rest) \<Rightarrow> Some (mk x, rest))"

definition parse_insert :: "bytes \<Rightarrow> (wal_record \<times> bytes) option" where
  "parse_insert bs =
     (case deserialize_u64 bs of None \<Rightarrow> None | Some (table_id, bs1) \<Rightarrow>
      (case read_data bs1 of None \<Rightarrow> None | Some (data, rest) \<Rightarrow> Some (Insert table_id data, rest)))"

definition parse_delete :: "bytes \<Rightarrow> (wal_record \<times> bytes) option" where
  "parse_delete bs =
     (case deserialize_u64 bs of None \<Rightarrow> None | Some (table_id, bs1) \<Rightarrow>
      (case deserialize_u64 bs1 of None \<Rightarrow> None | Some (row_id, rest) \<Rightarrow> Some (Delete table_id row_id, rest)))"

definition parse_update :: "bytes \<Rightarrow> (wal_record \<times> bytes) option" where
  "parse_update bs =
     (case deserialize_u64 bs of None \<Rightarrow> None | Some (table_id, bs1) \<Rightarrow>
      (case deserialize_u64 bs1 of None \<Rightarrow> None | Some (row_id, bs2) \<Rightarrow>
       (case deserialize_u32 bs2 of None \<Rightarrow> None | Some (column, bs3) \<Rightarrow>
        (case read_data bs3 of None \<Rightarrow> None | Some (data, rest) \<Rightarrow>
           Some (Update table_id row_id column data, rest)))))"

definition parse_fsm :: "bytes \<Rightarrow> (wal_record \<times> bytes) option" where
  "parse_fsm bs =
     (case deserialize_u64 bs of None \<Rightarrow> None | Some (page_idx, bs1) \<Rightarrow>
      (case deserialize_u8 bs1 of None \<Rightarrow> None | Some (b, rest) \<Rightarrow> Some (UpdateFsm page_idx (b \<noteq> 0), rest)))"

definition parse_column_write :: "bytes \<Rightarrow> (wal_record \<times> bytes) option" where
  "parse_column_write bs =
     (case deserialize_u64 bs of None \<Rightarrow> None | Some (table_id, bs1) \<Rightarrow>
      (case deserialize_u32 bs1 of None \<Rightarrow> None | Some (col_id, bs2) \<Rightarrow>
       (case deserialize_u64 bs2 of None \<Rightarrow> None | Some (page_id, bs3) \<Rightarrow>
        (case read_data bs3 of None \<Rightarrow> None | Some (data, rest) \<Rightarrow>
           Some (ColumnWrite table_id col_id page_id data, rest)))))"

definition parse_local :: "bytes \<Rightarrow> (wal_record \<times> bytes) option" where
  "parse_local bs =
     (case read_data bs of None \<Rightarrow> None | Some (data, rest) \<Rightarrow> Some (LocalWALData data, rest))"

definition parse_body :: "u8 \<Rightarrow> bytes \<Rightarrow> (wal_record \<times> bytes) option option" where
  "parse_body tag bs =
     (if tag = 73 then Some (parse_insert bs)
      else if tag = 68 then Some (parse_delete bs)
      else if tag = 85 then Some (parse_update bs)
      else if tag = 70 then Some (parse_fsm bs)
      else if tag = 87 then Some (parse_column_write bs)
      else if tag = 67 then Some (parse_u64 Commit bs)
      else if tag = 82 then Some (parse_u64 Rollback bs)
      else if tag = 76 then Some (parse_local bs)
      else if tag = 75 then Some (Some (Checkpoint, bs))
      else if tag = 84 then Some (parse_u64 CreateTable bs)
      else if tag = 65 then Some (parse_u64 DropTable bs)
      else if tag = 77 then Some (parse_u64 AlterTable bs)
      else if tag = 78 then Some (parse_u64 CreateIndex bs)
      else if tag = 88 then Some (parse_u64 DropIndex bs)
      else if tag = 81 then Some (parse_u64 CreateSequence bs)
      else None)"

text \<open>\<^verbatim>\<open>parse_record\<close>: the record it pushes, if any, and the rest of the cursor.\<close>

definition parse_record :: "bytes \<Rightarrow> io_error + wal_record option \<times> bytes" where
  "parse_record bs =
     (case bs of
        [] \<Rightarrow> Inr (None, [])
      | tag # body \<Rightarrow>
          (case parse_body tag body of
             None \<Rightarrow> Inl (InvalidTag tag)
           | Some None \<Rightarrow> Inl UnexpectedEof
           | Some (Some (r, rest)) \<Rightarrow> Inr (Some r, rest)))"

section \<open>The log\<close>

record wal =
  wal_records :: "wal_record list"
  flushed_count :: nat
  needs_header :: bool
  wal_total_size :: nat
  wal_is_dirty :: bool

definition wal_new :: wal where
  "wal_new = \<lparr>wal_records = [], flushed_count = 0, needs_header = True, wal_total_size = 0, wal_is_dirty = False\<rparr>"

fun record_size :: "wal_record \<Rightarrow> nat" where
  "record_size (Insert _ data) = length data"
| "record_size (Update _ _ _ data) = length data"
| "record_size (UpdateFsm _ _) = 8 + 1"
| "record_size (ColumnWrite _ _ _ data) = length data"
| "record_size (LocalWALData data) = length data"
| "record_size _ = 8"

definition wal_append :: "wal_record \<Rightarrow> wal \<Rightarrow> wal" where
  "wal_append r w =
     w\<lparr>wal_total_size := wal_total_size w + record_size r, wal_is_dirty := True,
       wal_records := wal_records w @ [r]\<rparr>"

definition wal_log_column_write :: "u64 \<Rightarrow> u32 \<Rightarrow> u64 \<Rightarrow> bytes \<Rightarrow> wal \<Rightarrow> wal" where
  "wal_log_column_write table_id col_id page_id data = wal_append (ColumnWrite table_id col_id page_id data)"

definition write_raw_buffer :: "bytes \<Rightarrow> wal \<Rightarrow> wal" where
  "write_raw_buffer buf w =
     (if buf = [] then w
      else w\<lparr>wal_total_size := wal_total_size w + length buf, wal_is_dirty := True,
             wal_records := wal_records w @ [LocalWALData buf]\<rparr>)"

definition wal_clear :: "bool \<Rightarrow> wal \<times> bytes option \<Rightarrow> (io_error + unit) \<times> wal \<times> bytes option" where
  "wal_clear io_ok s =
     (case s of (w, file) \<Rightarrow>
        (if io_ok then Inr () else Inl IoFailure,
         w\<lparr>wal_records := [], flushed_count := 0, wal_total_size := 0, wal_is_dirty := False, needs_header := True\<rparr>,
         if io_ok then Some [] else file))"

fun wal_replay :: "(wal_record \<Rightarrow> 's \<Rightarrow> (io_error + unit) \<times> 's) \<Rightarrow> wal_record list \<Rightarrow> 's \<Rightarrow> (io_error + unit) \<times> 's" where
  "wal_replay apply_fn [] s = (Inr (), s)"
| "wal_replay apply_fn (r # rs) s =
     (case apply_fn r s of (Inl e, s') \<Rightarrow> (Inl e, s') | (Inr _, s') \<Rightarrow> wal_replay apply_fn rs s')"

definition wal_header :: bytes where
  "wal_header = [65, 75, 65, 82] @ u16_le 2"

text \<open>A record in the file: its checksum and its payload.\<close>

definition frame :: "(bytes \<Rightarrow> u32) \<Rightarrow> wal_record \<Rightarrow> bytes" where
  "frame crc r = u32_le (crc (wal_payload r)) @ wal_payload r"

definition append_records_to_file :: "(bytes \<Rightarrow> u32) \<Rightarrow> wal_record list \<Rightarrow> bytes" where
  "append_records_to_file crc rs = concat (map (frame crc) rs)"

text \<open>
  \<^verbatim>\<open>flush_to_disk\<close>. \<open>fault\<close> is the outcome of the file system: \<open>None\<close> when every write and the final
  sync succeed, \<open>Some k\<close> when they fail after \<open>k\<close> bytes have reached the file (\<open>k\<close> beyond the output is a
  failing sync). The header flag is cleared once both header writes succeeded, the count once all
  records are written.
\<close>

definition flush_to_disk ::
  "(bytes \<Rightarrow> u32) \<Rightarrow> nat option \<Rightarrow> wal \<times> bytes option \<Rightarrow> (io_error + unit) \<times> wal \<times> bytes option" where
  "flush_to_disk crc fault s =
     (case s of (w, file) \<Rightarrow>
        if flushed_count w \<ge> length (wal_records w) then (Inr (), w, file)
        else
          let old = (case file of None \<Rightarrow> [] | Some bs \<Rightarrow> bs);
              header = (if needs_header w then wal_header else []);
              body = append_records_to_file crc (drop (flushed_count w) (wal_records w))
          in case fault of
               None \<Rightarrow>
                 (Inr (), w\<lparr>needs_header := False, flushed_count := length (wal_records w)\<rparr>,
                  Some (old @ header @ body))
             | Some k \<Rightarrow>
                 (Inl IoFailure,
                  w\<lparr>needs_header := needs_header w \<and> k < length header,
                    flushed_count := (if k < length (header @ body) then flushed_count w
                                      else length (wal_records w))\<rparr>,
                  Some (old @ take k (header @ body))))"

section \<open>Loading\<close>

text \<open>
  The length of the record at the front of \<open>rd\<close>; \<open>None\<close> when the tag is unknown or the length field is
  cut off, on which the loop stops.
\<close>

definition data_len_at :: "nat \<Rightarrow> bytes \<Rightarrow> nat" where
  "data_len_at i rd = unat (u32_of_le (slice i (i + 4) rd))"

definition payload_len :: "bytes \<Rightarrow> nat option" where
  "payload_len rd =
     (let tag = hd rd
      in if tag = 73 then
           if length rd < 13 then None else Some (1 + 8 + 4 + data_len_at 9 rd)
         else if tag = 68 then Some (1 + 8 + 8)
         else if tag = 85 then
           if length rd < 25 then None else Some (1 + 8 + 8 + 4 + 4 + data_len_at 21 rd)
         else if tag = 70 then Some (1 + 8 + 1)
         else if tag = 87 then
           if length rd < 25 then None else Some (1 + 8 + 4 + 8 + 4 + data_len_at 21 rd)
         else if tag = 76 then
           if length rd < 5 then None else Some (1 + 4 + data_len_at 1 rd)
         else if tag = 67 \<or> tag = 82 then Some (1 + 8)
         else if tag = 75 then Some 1
         else if tag = 84 \<or> tag = 65 \<or> tag = 77 \<or> tag = 78 \<or> tag = 88 \<or> tag = 81 then Some (1 + 8)
         else None)"

lemma payload_len_pos: "payload_len rd = Some n \<Longrightarrow> 0 < n"
  by (auto simp: payload_len_def Let_def split: if_splits)

function load_v2 :: "(bytes \<Rightarrow> u32) \<Rightarrow> bytes \<Rightarrow> wal_record list \<Rightarrow> (io_error + unit) \<times> wal_record list" where
  "load_v2 crc bs recs =
     (case read_exact 4 bs of
        None \<Rightarrow> (Inr (), recs)
      | Some (crc_bytes, rd) \<Rightarrow>
          if rd = [] then (Inr (), recs)
          else
            (case payload_len rd of
               None \<Rightarrow> (Inr (), recs)
             | Some n \<Rightarrow>
                 if n > length rd then (Inr (), recs)
                 else if crc (take n rd) \<noteq> u32_of_le crc_bytes then load_v2 crc (drop n rd) recs
                 else
                   (case parse_record (take n rd) of
                      Inl e \<Rightarrow> (Inl e, recs)
                    | Inr (pushed, _) \<Rightarrow>
                        load_v2 crc (drop n rd)
                          (recs @ (case pushed of Some r \<Rightarrow> [r] | None \<Rightarrow> [])))))"
  by pat_completeness auto
termination
  by (relation "measure (\<lambda>(crc, bs, recs). length bs)")
     (auto simp: read_exact_def dest: payload_len_pos split: if_splits)

declare load_v2.simps [simp del]

lemma reader_rest:
  "deserialize_u64 bs = Some (x, rest) \<Longrightarrow> length rest \<le> length bs"
  "deserialize_u32 bs = Some (y, rest) \<Longrightarrow> length rest \<le> length bs"
  "deserialize_u8 bs = Some (z, rest) \<Longrightarrow> length rest \<le> length bs"
  "read_exact n bs = Some (d, rest) \<Longrightarrow> length rest \<le> length bs"
  by (auto simp: deserialize_u64_def deserialize_u32_def deserialize_u8_def read_exact_def
      split: if_splits list.splits)

lemma read_data_rest: "read_data bs = Some (d, rest) \<Longrightarrow> length rest \<le> length bs"
  by (auto simp: read_data_def split: option.splits dest!: reader_rest)

lemma parse_u64_rest: "parse_u64 mk bs = Some (r, rest) \<Longrightarrow> length rest \<le> length bs"
  by (auto simp: parse_u64_def split: option.splits dest!: reader_rest)

lemma parse_insert_rest: "parse_insert bs = Some (r, rest) \<Longrightarrow> length rest \<le> length bs"
  by (auto simp: parse_insert_def split: option.splits dest!: reader_rest read_data_rest)

lemma parse_delete_rest: "parse_delete bs = Some (r, rest) \<Longrightarrow> length rest \<le> length bs"
  by (auto simp: parse_delete_def split: option.splits dest!: reader_rest)

lemma parse_update_rest: "parse_update bs = Some (r, rest) \<Longrightarrow> length rest \<le> length bs"
  by (auto simp: parse_update_def split: option.splits dest!: reader_rest read_data_rest)

lemma parse_fsm_rest: "parse_fsm bs = Some (r, rest) \<Longrightarrow> length rest \<le> length bs"
  by (auto simp: parse_fsm_def split: option.splits dest!: reader_rest)

lemma parse_column_write_rest: "parse_column_write bs = Some (r, rest) \<Longrightarrow> length rest \<le> length bs"
  by (auto simp: parse_column_write_def split: option.splits dest!: reader_rest read_data_rest)

lemma parse_local_rest: "parse_local bs = Some (r, rest) \<Longrightarrow> length rest \<le> length bs"
  by (auto simp: parse_local_def split: option.splits dest!: read_data_rest)

lemmas parser_rests = parse_u64_rest parse_insert_rest parse_delete_rest parse_update_rest parse_fsm_rest
  parse_column_write_rest parse_local_rest

lemma parse_body_rest: "parse_body tag bs = Some (Some (r, rest)) \<Longrightarrow> length rest \<le> length bs"
  by (auto simp: parse_body_def split: if_splits dest!: parser_rests)

lemma parse_record_consumes:
  "parse_record (b # bs) = Inr (pushed, rest) \<Longrightarrow> length rest < length (b # bs)"
  by (auto simp: parse_record_def split: option.splits dest!: parse_body_rest)

function parse_v1_records :: "bytes \<Rightarrow> wal_record list \<Rightarrow> (io_error + unit) \<times> wal_record list" where
  "parse_v1_records bs recs =
     (case bs of
        [] \<Rightarrow> (Inr (), recs)
      | b # bs' \<Rightarrow>
          (case parse_record (b # bs') of
             Inl e \<Rightarrow> (Inl e, recs)
           | Inr (pushed, rest) \<Rightarrow>
               parse_v1_records rest (recs @ (case pushed of Some r \<Rightarrow> [r] | None \<Rightarrow> []))))"
  by pat_completeness auto
termination
  by (relation "measure (\<lambda>(bs, recs). length bs)") (auto dest: parse_record_consumes)

declare parse_v1_records.simps [simp del]

definition load_from_disk :: "(bytes \<Rightarrow> u32) \<Rightarrow> bytes option \<Rightarrow> wal \<Rightarrow> (io_error + unit) \<times> wal" where
  "load_from_disk crc file w =
     (case file of
        None \<Rightarrow> (Inr (), w)
      | Some buffer \<Rightarrow>
          if buffer = [] then (Inr (), w)
          else
            let is_v2 = (length buffer \<ge> 6 \<and> take 4 buffer = [65, 75, 65, 82] \<and>
                         u16_of_le (slice 4 6 buffer) \<ge> 2)
            in case (if is_v2 then load_v2 crc (drop 6 buffer) (wal_records w)
                     else parse_v1_records buffer (wal_records w)) of
                 (Inl e, recs) \<Rightarrow> (Inl e, w\<lparr>wal_records := recs\<rparr>)
               | (Inr _, recs) \<Rightarrow>
                   (Inr (), w\<lparr>wal_records := recs, flushed_count := length recs, needs_header := False,
                              wal_total_size := length buffer, wal_is_dirty := recs \<noteq> []\<rparr>))"

text \<open>\<^verbatim>\<open>decode_wal_buffer\<close>: the records of a bulk-copied buffer, up to the first unknown tag.\<close>

definition decode_body :: "u8 \<Rightarrow> bytes \<Rightarrow> (wal_record \<times> bytes) option option" where
  "decode_body tag bs =
     (if tag = 73 then Some (parse_insert bs)
      else if tag = 68 then Some (parse_delete bs)
      else if tag = 85 then Some (parse_update bs)
      else if tag = 67 then Some (parse_u64 Commit bs)
      else None)"

lemma decode_body_parse: "decode_body tag bs = Some p \<Longrightarrow> parse_body tag bs = Some p"
  by (auto simp: decode_body_def parse_body_def split: if_splits)

function decode_wal_buffer :: "bytes \<Rightarrow> io_error + wal_record list" where
  "decode_wal_buffer buffer =
     (case buffer of
        [] \<Rightarrow> Inr []
      | tag # bs \<Rightarrow>
          (case decode_body tag bs of
             None \<Rightarrow> Inr []
           | Some None \<Rightarrow> Inl UnexpectedEof
           | Some (Some (r, rest)) \<Rightarrow>
               (case decode_wal_buffer rest of Inl e \<Rightarrow> Inl e | Inr rs \<Rightarrow> Inr (r # rs))))"
  by pat_completeness auto
termination
proof (relation "measure length")
  fix buffer tag bs p a r rest
  assume "buffer = tag # bs" "decode_body tag bs = Some p" "p = Some a" "(r, rest) = a"
  then show "(rest, buffer) \<in> measure length"
    using parse_record_consumes [of tag bs "Some r" rest] decode_body_parse [of tag bs p]
    by (auto simp: parse_record_def)
qed simp

declare decode_wal_buffer.simps [simp del]

section \<open>The record codec\<close>

fun wal_valid :: "wal_record \<Rightarrow> bool" where
  "wal_valid (Insert _ data) \<longleftrightarrow> length data < 2 ^ 32"
| "wal_valid (Update _ _ _ data) \<longleftrightarrow> length data < 2 ^ 32"
| "wal_valid (ColumnWrite _ _ _ data) \<longleftrightarrow> length data < 2 ^ 32"
| "wal_valid (LocalWALData data) \<longleftrightarrow> length data < 2 ^ 32"
| "wal_valid _ \<longleftrightarrow> True"

lemma unat_u32_len: "n < 2 ^ 32 \<Longrightarrow> unat (word_of_nat n :: u32) = n"
  by (simp add: unat_of_nat)

lemma read_data_enc [codec_simps]:
  "length data < 2 ^ 32 \<Longrightarrow> read_data (len_prefixed data @ rest) = Some (data, rest)"
  by (simp add: read_data_def len_prefixed_def unat_u32_len)

lemma parse_record_enc:
  "wal_valid r \<Longrightarrow> parse_record (wal_payload r @ rest) = Inr (Some r, rest)"
  by (cases r)
     (simp_all add: parse_record_def wal_payload_def parse_body_def parse_insert_def parse_delete_def
       parse_update_def parse_fsm_def parse_column_write_def parse_local_def parse_u64_def codec_simps)

definition parse_one :: "bytes \<Rightarrow> (wal_record \<times> bytes) option" where
  "parse_one bs = (case parse_record bs of Inr (Some r, rest) \<Rightarrow> Some (r, rest) | _ \<Rightarrow> None)"

interpretation wal_codec: codec wal_payload parse_one wal_valid
  by unfold_locales (simp add: parse_one_def parse_record_enc)

lemma payload_len_enc:
  "wal_valid r \<Longrightarrow> payload_len (wal_payload r @ rest) = Some (length (wal_payload r))"
  by (cases r)
     (simp_all add: payload_len_def wal_payload_def len_prefixed_def data_len_at_def slice_def unat_u32_len)

lemma data_len_at_take: "i + 4 \<le> k \<Longrightarrow> data_len_at i (take k p) = data_len_at i p"
  by (simp add: data_len_at_def slice_def drop_take min_def)

lemma payload_len_take:
  assumes "0 < k" "k \<le> length p"
  shows "payload_len (take k p) = None \<or> payload_len (take k p) = payload_len p"
proof -
  have "hd (take k p) = hd p" using assms by (cases p; cases k) auto
  moreover have "length (take k p) = k" using assms by simp
  ultimately show ?thesis
    using assms(2) by (simp add: payload_len_def Let_def data_len_at_take)
qed

section \<open>Loading what was flushed\<close>

lemma payload_nonempty [simp]: "wal_payload r \<noteq> []"
  by (simp add: wal_payload_def)

lemma length_frame [simp]: "length (frame crc r) = 4 + length (wal_payload r)"
  by (simp add: frame_def)

lemma load_v2_frame:
  assumes "wal_valid r"
  shows "load_v2 crc (frame crc r @ rest) recs = load_v2 crc rest (recs @ [r])"
proof -
  have "parse_record (wal_payload r) = Inr (Some r, [])"
    using parse_record_enc [OF assms, of "[]"] by simp
  then show ?thesis
    by (subst load_v2.simps) (simp add: frame_def payload_len_enc [OF assms])
qed

lemma load_v2_frames:
  "list_all wal_valid rs \<Longrightarrow> load_v2 crc (append_records_to_file crc rs @ rest) recs = load_v2 crc rest (recs @ rs)"
  by (induction rs arbitrary: recs) (simp_all add: append_records_to_file_def load_v2_frame)

lemma load_v2_torn:
  assumes "wal_valid r" "k < length (frame crc r)"
  shows "load_v2 crc (take k (frame crc r)) recs = (Inr (), recs)"
proof (cases "k \<le> 4")
  case True
  then show ?thesis
    by (subst load_v2.simps) (auto simp: frame_def read_exact_def)
next
  case False
  then obtain j where j: "k = 4 + j" "0 < j" using less_imp_add_positive [of 4 k] by auto
  then have t: "take k (frame crc r) = u32_le (crc (wal_payload r)) @ take j (wal_payload r)"
    by (simp add: frame_def)
  have lt: "j < length (wal_payload r)" using assms(2) j by simp
  have pl: "payload_len (wal_payload r) = Some (length (wal_payload r))"
    using payload_len_enc [OF assms(1), of "[]"] by simp
  have "payload_len (take j (wal_payload r)) = None \<or>
      payload_len (take j (wal_payload r)) = Some (length (wal_payload r))"
    using payload_len_take [of j "wal_payload r"] j(2) lt pl by simp
  then show ?thesis
    unfolding t using lt j(2) by (subst load_v2.simps) auto
qed

text \<open>The number of complete records in the first \<open>k\<close> bytes of the records' frames.\<close>

fun complete_frames :: "(bytes \<Rightarrow> u32) \<Rightarrow> nat \<Rightarrow> wal_record list \<Rightarrow> nat" where
  "complete_frames crc k [] = 0"
| "complete_frames crc k (r # rs) =
     (if length (frame crc r) \<le> k then Suc (complete_frames crc (k - length (frame crc r)) rs) else 0)"

lemma load_v2_crash:
  assumes "list_all wal_valid rs"
  shows "load_v2 crc (take k (append_records_to_file crc rs)) recs = (Inr (), recs @ take (complete_frames crc k rs) rs)"
  using assms
proof (induction rs arbitrary: k recs)
  case Nil
  then show ?case by (subst load_v2.simps) (simp add: append_records_to_file_def read_exact_def)
next
  case (Cons r rs)
  show ?case
  proof (cases "length (frame crc r) \<le> k")
    case True
    then show ?thesis
      using Cons by (simp add: append_records_to_file_def load_v2_frame)
  next
    case False
    then have "take k (append_records_to_file crc (r # rs)) = take k (frame crc r)"
      by (simp add: append_records_to_file_def)
    then show ?thesis using load_v2_torn Cons.prems False by simp
  qed
qed

lemma complete_frames_bounds:
  "complete_frames crc k rs \<le> length rs"
  "length (append_records_to_file crc (take (complete_frames crc k rs) rs)) \<le> k"
  "complete_frames crc k rs < length rs \<Longrightarrow>
     k < length (append_records_to_file crc (take (Suc (complete_frames crc k rs)) rs))"
  by (induction crc k rs rule: complete_frames.induct) (auto simp: append_records_to_file_def)

lemma complete_frames_all:
  "length (append_records_to_file crc rs) \<le> k \<Longrightarrow> complete_frames crc k rs = length rs"
  by (induction crc k rs rule: complete_frames.induct) (auto simp: append_records_to_file_def)

lemma length_wal_header [simp]: "length wal_header = 6"
  by (simp add: wal_header_def)

lemma load_header:
  "load_from_disk crc (Some (wal_header @ bs)) w =
     (case load_v2 crc bs (wal_records w) of
        (Inl e, recs) \<Rightarrow> (Inl e, w\<lparr>wal_records := recs\<rparr>)
      | (Inr _, recs) \<Rightarrow>
          (Inr (), w\<lparr>wal_records := recs, flushed_count := length recs, needs_header := False,
                     wal_total_size := 6 + length bs, wal_is_dirty := recs \<noteq> []\<rparr>))"
proof -
  have "take 4 (wal_header @ bs) = [65, 75, 65, 82]" "slice 4 6 (wal_header @ bs) = u16_le 2"
      "wal_header \<noteq> []"
    by (simp_all add: wal_header_def slice_def)
  then show ?thesis
    by (cases "load_v2 crc bs (wal_records w)"; cases "fst (load_v2 crc bs (wal_records w))")
       (simp_all add: load_from_disk_def)
qed


section \<open>The log and its file\<close>

text \<open>The log in use: appends, bulk copies, successful flushes and checkpoints' truncation.\<close>

inductive wal_step :: "(bytes \<Rightarrow> u32) \<Rightarrow> wal \<times> bytes option \<Rightarrow> wal \<times> bytes option \<Rightarrow> bool" for crc where
  Append: "wal_valid r \<Longrightarrow> wal_step crc (w, file) (wal_append r w, file)"
| Bulk: "length buf < 2 ^ 32 \<Longrightarrow> wal_step crc (w, file) (write_raw_buffer buf w, file)"
| Flush: "flush_to_disk crc None (w, file) = (Inr (), w', file') \<Longrightarrow> wal_step crc (w, file) (w', file')"
| Clear: "wal_clear True (w, file) = (Inr (), w', file') \<Longrightarrow> wal_step crc (w, file) (w', file')"

definition wal_inv :: "(bytes \<Rightarrow> u32) \<Rightarrow> wal \<times> bytes option \<Rightarrow> bool" where
  "wal_inv crc s \<longleftrightarrow> (case s of (w, file) \<Rightarrow>
     list_all wal_valid (wal_records w) \<and> flushed_count w \<le> length (wal_records w) \<and>
     (if needs_header w then flushed_count w = 0 \<and> (file = None \<or> file = Some [])
      else file = Some (wal_header @ append_records_to_file crc (take (flushed_count w) (wal_records w)))))"

lemma wal_step_inv:
  assumes "wal_inv crc s" "wal_step crc s t"
  shows "wal_inv crc t"
  using assms(2,1)
proof (cases rule: wal_step.cases)
  case (Append r w fl)
  then show ?thesis using assms(1) by (auto simp: wal_inv_def wal_append_def)
next
  case (Bulk buf w fl)
  then show ?thesis using assms(1) by (auto simp: wal_inv_def write_raw_buffer_def)
next
  case (Flush w fl w' fl')
  have split: "append_records_to_file crc (wal_records w) =
      append_records_to_file crc (take (flushed_count w) (wal_records w)) @
      append_records_to_file crc (drop (flushed_count w) (wal_records w))"
    by (simp add: append_records_to_file_def flip: concat_append map_append)
  show ?thesis
    using Flush assms(1) split
    by (auto simp: wal_inv_def flush_to_disk_def Let_def split: if_splits)
next
  case (Clear w fl w' fl')
  then show ?thesis by (auto simp: wal_inv_def wal_clear_def)
qed

interpretation wal_sys: inv_system "\<lambda>s. s = (wal_new, None)" "wal_step crc" "wal_inv crc" for crc
proof unfold_locales
  show "s = (wal_new, None) \<Longrightarrow> wal_inv crc s" for s by (simp add: wal_inv_def wal_new_def)
qed (rule wal_step_inv)

text \<open>C27. Durability and crash safety of the log: after any sequence of appends, bulk copies, flushes and
  truncations, loading the file gives exactly the records flushed since the last truncation; and if
  a crash leaves only the first \<open>k\<close> bytes of the file, at least the header, loading still succeeds and
  gives the longest prefix of those records that is completely inside the \<open>k\<close> bytes.\<close>

theorem wal_crash_recovery:
  assumes "(wal_step crc)\<^sup>*\<^sup>* (wal_new, None) (w, Some bytes)" "6 \<le> k"
  shows "\<exists>j w'. load_from_disk crc (Some (take k bytes)) wal_new = (Inr (), w') \<and>
    wal_records w' = take j (wal_records w) \<and> j \<le> flushed_count w \<and>
    length (wal_header @ append_records_to_file crc (take j (wal_records w))) \<le> k \<and>
    (length bytes \<le> k \<longrightarrow> j = flushed_count w) \<and>
    (j < flushed_count w \<longrightarrow>
       k < length (wal_header @ append_records_to_file crc (take (Suc j) (wal_records w))))"
proof -
  have inv: "wal_inv crc (w, Some bytes)"
    by (rule wal_sys.inv_reachable [OF refl assms(1)])
  show ?thesis
  proof (cases "needs_header w")
    case True
    then show ?thesis
      using inv assms(2) by (auto simp: wal_inv_def load_from_disk_def wal_new_def append_records_to_file_def)
  next
    case False
    let ?rs = "take (flushed_count w) (wal_records w)"
    have b: "bytes = wal_header @ append_records_to_file crc ?rs" and v: "list_all wal_valid ?rs"
      and n: "flushed_count w \<le> length (wal_records w)"
      using inv False by (auto simp: wal_inv_def list_all_iff dest: in_set_takeD)
    let ?j = "complete_frames crc (k - 6) ?rs"
    have t: "take k bytes = wal_header @ take (k - 6) (append_records_to_file crc ?rs)"
      using assms(2) by (simp add: b)
    have l: "load_v2 crc (take (k - 6) (append_records_to_file crc ?rs)) [] = (Inr (), take ?j ?rs)"
      using load_v2_crash [OF v, of crc "k - 6" "[]"] by simp
    have "?j \<le> flushed_count w"
      using complete_frames_bounds(1) [of crc "k - 6" ?rs] n by simp
    moreover have "length (wal_header @ append_records_to_file crc (take ?j (wal_records w))) \<le> k"
      using complete_frames_bounds(2) [of crc "k - 6" ?rs] calculation assms(2) by (simp add: min_def)
    moreover have "length bytes \<le> k \<longrightarrow> ?j = flushed_count w"
      using complete_frames_all [of crc ?rs "k - 6"] n by (simp add: b)
    moreover have "k < length (wal_header @ append_records_to_file crc (take (Suc ?j) (wal_records w)))"
      if "?j < flushed_count w"
    proof -
      have "?j < length ?rs" using that n by simp
      then have "k - 6 < length (append_records_to_file crc (take (Suc ?j) ?rs))"
        by (rule complete_frames_bounds(3))
      moreover have "take (Suc ?j) ?rs = take (Suc ?j) (wal_records w)"
        using that by (simp add: min_def)
      ultimately show ?thesis by simp
    qed
    ultimately show ?thesis
      unfolding t load_header by (intro exI [of _ ?j]) (simp add: wal_new_def l min_def)
  qed
qed


lemma parse_v1_concat:
  "list_all wal_valid rs \<Longrightarrow> parse_v1_records (concat (map wal_payload rs)) recs = (Inr (), recs @ rs)"
proof (induction rs arbitrary: recs)
  case Nil
  then show ?case by (simp add: parse_v1_records.simps)
next
  case (Cons r rs)
  let ?y = "concat (map wal_payload rs)"
  have eq: "wal_payload r @ ?y = wal_tag r # (wal_body r @ ?y)" by (simp add: wal_payload_def)
  have "parse_record (wal_tag r # (wal_body r @ ?y)) = Inr (Some r, ?y)"
    using parse_record_enc [of r ?y] Cons.prems by (simp add: eq)
  then have "parse_v1_records (wal_tag r # (wal_body r @ ?y)) recs = parse_v1_records ?y (recs @ [r])"
    by (subst parse_v1_records.simps) simp
  then show ?case using Cons by (simp add: eq)
qed

text \<open>A run of the log: two commits appended and flushed.\<close>

definition wal_two :: "(bytes \<Rightarrow> u32) \<Rightarrow> wal" where
  "wal_two crc = (wal_append (Commit 6) (wal_append (Commit 5) wal_new))\<lparr>needs_header := False, flushed_count := 2\<rparr>"

definition wal_two_file :: "(bytes \<Rightarrow> u32) \<Rightarrow> bytes" where
  "wal_two_file crc = wal_header @ append_records_to_file crc [Commit 5, Commit 6]"

lemma wal_two_steps: "(wal_step crc)\<^sup>*\<^sup>* (wal_new, None) (wal_two crc, Some (wal_two_file crc))"
proof -
  have "wal_step crc (wal_new, None) (wal_append (Commit 5) wal_new, None)"
    by (rule wal_step.Append) simp
  moreover have "wal_step crc (wal_append (Commit 5) wal_new, None)
      (wal_append (Commit 6) (wal_append (Commit 5) wal_new), None)"
    by (rule wal_step.Append) simp
  moreover have "wal_step crc (wal_append (Commit 6) (wal_append (Commit 5) wal_new), None)
      (wal_two crc, Some (wal_two_file crc))"
    by (rule wal_step.Flush) (simp add: flush_to_disk_def wal_two_def wal_two_file_def wal_append_def wal_new_def)
  ultimately show ?thesis
    by (meson converse_rtranclp_into_rtranclp rtranclp.rtrancl_refl)
qed

theorem wal_crash_recovery_witness:
  "\<exists>w'. load_from_disk (\<lambda>_. 0) (Some (take 22 (wal_two_file (\<lambda>_. 0)))) wal_new = (Inr (), w') \<and>
     wal_records w' = [Commit 5]"
proof -
  obtain j w' where j: "load_from_disk (\<lambda>_. 0) (Some (take 22 (wal_two_file (\<lambda>_. 0)))) wal_new = (Inr (), w')"
    "wal_records w' = take j [Commit 5, Commit 6]" "j \<le> 2"
    "length (wal_header @ append_records_to_file (\<lambda>_. 0) (take j [Commit 5, Commit 6])) \<le> 22"
    "j < 2 \<longrightarrow> 22 < length (wal_header @ append_records_to_file (\<lambda>_. 0) (take (Suc j) [Commit 5, Commit 6]))"
    using wal_crash_recovery [OF wal_two_steps, of 22 "\<lambda>_. 0"] by (auto simp: wal_two_def wal_append_def wal_new_def)
  have "j = 1"
  proof -
    consider "j = 0" | "j = 1" | "j = 2" using j(3) by linarith
    then show ?thesis
      using j(4,5) by cases (auto simp: append_records_to_file_def wal_payload_def)
  qed
  then show ?thesis using j(1,2) by simp
qed

end
