(* ===== verification/Wal_Recovery.thy ===== *)
theory Wal_Recovery
  imports Wal
begin

text \<open>
  The transaction-local log buffer (\<^verbatim>\<open>akar-storage/src/local_wal.rs\<close>) and crash recovery
  (\<^verbatim>\<open>wal_replayer.rs\<close>). The buffer is written in the payload format of the log; recovery replays the
  loaded records batch by batch through an apply function, which is a parameter over a storage
  state and may fail.
\<close>

section \<open>Local buffers\<close>

record local_wal =
  lw_buffer :: bytes
  lw_count :: nat
  lw_size :: nat

definition lw_new :: local_wal where
  "lw_new = \<lparr>lw_buffer = [], lw_count = 0, lw_size = 0\<rparr>"

definition lw_push :: "bytes \<Rightarrow> nat \<Rightarrow> local_wal \<Rightarrow> local_wal" where
  "lw_push bs n lw = lw\<lparr>lw_buffer := lw_buffer lw @ bs, lw_size := lw_size lw + n, lw_count := lw_count lw + 1\<rparr>"

fun write_record :: "wal_record \<Rightarrow> local_wal \<Rightarrow> local_wal" where
  "write_record (Insert table_id data) =
     lw_push ([73] @ u64_le table_id @ u32_le (word_of_nat (length data)) @ data) (1 + 8 + 4 + length data)"
| "write_record (Delete table_id row_id) =
     lw_push ([68] @ u64_le table_id @ u64_le row_id) (1 + 8 + 8)"
| "write_record (Update table_id row_id column data) =
     lw_push ([85] @ u64_le table_id @ u64_le row_id @ u32_le column @ u32_le (word_of_nat (length data)) @ data)
       (1 + 8 + 8 + 4 + 4 + length data)"
| "write_record (UpdateFsm page_idx is_free) =
     lw_push ([70] @ u64_le page_idx @ [if is_free then 1 else 0]) (1 + 8 + 1)"
| "write_record (ColumnWrite table_id col_id page_id data) =
     lw_push ([87] @ u64_le table_id @ u32_le col_id @ u64_le page_id @ u32_le (word_of_nat (length data)) @ data)
       (1 + 8 + 4 + 8 + 4 + length data)"
| "write_record (Commit transaction_id) = lw_push ([67] @ u64_le transaction_id) (1 + 8)"
| "write_record (Rollback transaction_id) = lw_push ([82] @ u64_le transaction_id) (1 + 8)"
| "write_record Checkpoint = lw_push [75] 1"
| "write_record (LocalWALData data) =
     lw_push ([76] @ u32_le (word_of_nat (length data)) @ data) (1 + 4 + length data)"
| "write_record (CreateTable table_id) = lw_push ([84] @ u64_le table_id) (1 + 8)"
| "write_record (DropTable table_id) = lw_push ([65] @ u64_le table_id) (1 + 8)"
| "write_record (AlterTable table_id) = lw_push ([77] @ u64_le table_id) (1 + 8)"
| "write_record (CreateIndex table_id) = lw_push ([78] @ u64_le table_id) (1 + 8)"
| "write_record (DropIndex table_id) = lw_push ([88] @ u64_le table_id) (1 + 8)"
| "write_record (CreateSequence table_id) = lw_push ([81] @ u64_le table_id) (1 + 8)"

definition lw_log_insert :: "u64 \<Rightarrow> bytes \<Rightarrow> local_wal \<Rightarrow> local_wal" where
  "lw_log_insert table_id data = write_record (Insert table_id data)"

definition lw_log_delete :: "u64 \<Rightarrow> u64 \<Rightarrow> local_wal \<Rightarrow> local_wal" where
  "lw_log_delete table_id row_id = write_record (Delete table_id row_id)"

definition lw_log_update :: "u64 \<Rightarrow> u64 \<Rightarrow> u32 \<Rightarrow> bytes \<Rightarrow> local_wal \<Rightarrow> local_wal" where
  "lw_log_update table_id row_id column data = write_record (Update table_id row_id column data)"

definition lw_log_column_write :: "u64 \<Rightarrow> u32 \<Rightarrow> u64 \<Rightarrow> bytes \<Rightarrow> local_wal \<Rightarrow> local_wal" where
  "lw_log_column_write table_id col_id page_id data = write_record (ColumnWrite table_id col_id page_id data)"

definition lw_log_commit :: "u64 \<Rightarrow> local_wal \<Rightarrow> local_wal" where
  "lw_log_commit transaction_id = write_record (Commit transaction_id)"

definition lw_log_rollback :: "u64 \<Rightarrow> local_wal \<Rightarrow> local_wal" where
  "lw_log_rollback transaction_id = write_record (Rollback transaction_id)"

definition lw_log_checkpoint :: "local_wal \<Rightarrow> local_wal" where
  "lw_log_checkpoint = write_record Checkpoint"

definition lw_is_empty :: "local_wal \<Rightarrow> bool" where
  "lw_is_empty lw \<longleftrightarrow> lw_buffer lw = []"

definition lw_clear :: "local_wal \<Rightarrow> local_wal" where
  "lw_clear lw = lw\<lparr>lw_buffer := [], lw_count := 0, lw_size := 0\<rparr>"

section \<open>Replay\<close>

record replay_result =
  records_replayed :: nat
  records_skipped :: nat
  committed_txns :: "u64 list"

text \<open>\<^verbatim>\<open>for r in pending.drain(..) { apply_fn(r)?; records_replayed += 1 }\<close>\<close>

fun drain_pending ::
  "(wal_record \<Rightarrow> 's \<Rightarrow> (io_error + unit) \<times> 's) \<Rightarrow> wal_record list \<Rightarrow> nat \<Rightarrow> 's \<Rightarrow> (io_error + nat) \<times> 's" where
  "drain_pending apply_fn [] n s = (Inr n, s)"
| "drain_pending apply_fn (r # rs) n s =
     (case apply_fn r s of
        (Inl e, s') \<Rightarrow> (Inl e, s')
      | (Inr _, s') \<Rightarrow> drain_pending apply_fn rs (n + 1) s')"

fun replay_loop ::
  "(wal_record \<Rightarrow> 's \<Rightarrow> (io_error + unit) \<times> 's) \<Rightarrow> wal_record list \<Rightarrow> wal_record list \<Rightarrow> replay_result \<Rightarrow> 's \<Rightarrow>
   (io_error + replay_result) \<times> 's" where
  "replay_loop apply_fn [] pending res s =
     (case drain_pending apply_fn pending (records_replayed res) s of
        (Inl e, s') \<Rightarrow> (Inl e, s')
      | (Inr n, s') \<Rightarrow> (Inr (res\<lparr>records_replayed := n\<rparr>), s'))"
| "replay_loop apply_fn (r # rs) pending res s =
     (case r of
        Commit transaction_id \<Rightarrow>
          (case drain_pending apply_fn pending (records_replayed res) s of
             (Inl e, s') \<Rightarrow> (Inl e, s')
           | (Inr n, s') \<Rightarrow>
               replay_loop apply_fn rs []
                 (res\<lparr>records_replayed := n, committed_txns := List.insert transaction_id (committed_txns res)\<rparr>) s')
      | Rollback _ \<Rightarrow>
          replay_loop apply_fn rs [] (res\<lparr>records_skipped := records_skipped res + length pending\<rparr>) s
      | Checkpoint \<Rightarrow>
          (case drain_pending apply_fn pending (records_replayed res) s of
             (Inl e, s') \<Rightarrow> (Inl e, s')
           | (Inr n, s') \<Rightarrow> replay_loop apply_fn rs [] (res\<lparr>records_replayed := n\<rparr>) s')
      | _ \<Rightarrow> replay_loop apply_fn rs (pending @ [r]) res s)"

definition empty_replay :: replay_result where
  "empty_replay = \<lparr>records_replayed = 0, records_skipped = 0, committed_txns = []\<rparr>"

definition replay ::
  "(bytes \<Rightarrow> u32) \<Rightarrow> (wal_record \<Rightarrow> 's \<Rightarrow> (io_error + unit) \<times> 's) \<Rightarrow> bytes option \<Rightarrow> 's \<Rightarrow>
   (io_error + replay_result) \<times> 's" where
  "replay crc apply_fn file s =
     (case file of
        None \<Rightarrow> (Inr empty_replay, s)
      | Some buffer \<Rightarrow>
          if buffer = [] then (Inr empty_replay, s)
          else
            (case load_from_disk crc (Some buffer) wal_new of
               (Inl e, _) \<Rightarrow> (Inl e, s)
             | (Inr _, w) \<Rightarrow> replay_loop apply_fn (wal_records w) [] empty_replay s))"

section \<open>Format of local buffers\<close>

lemma write_record_payload: "write_record r lw = lw_push (wal_payload r) (length (wal_payload r)) lw"
  by (cases r) (simp_all add: wal_payload_def len_prefixed_def)

lemma write_records_payload:
  "fold write_record rs lw =
     \<lparr>lw_buffer = lw_buffer lw @ concat (map wal_payload rs), lw_count = lw_count lw + length rs,
      lw_size = lw_size lw + length (concat (map wal_payload rs))\<rparr>"
  by (induction rs arbitrary: lw) (simp_all add: write_record_payload lw_push_def)

fun decodable :: "wal_record \<Rightarrow> bool" where
  "decodable (Insert _ _) = True"
| "decodable (Delete _ _) = True"
| "decodable (Update _ _ _ _) = True"
| "decodable (Commit _) = True"
| "decodable _ = False"

lemma decode_body_enc:
  "wal_valid r \<Longrightarrow> decode_body (wal_tag r) (wal_body r @ rest) = (if decodable r then Some (Some (r, rest)) else None)"
  by (cases r)
     (simp_all add: decode_body_def parse_insert_def parse_delete_def parse_update_def parse_u64_def codec_simps)

lemma decode_concat:
  "list_all wal_valid rs \<Longrightarrow> decode_wal_buffer (concat (map wal_payload rs)) = Inr (takeWhile decodable rs)"
proof (induction rs)
  case Nil
  then show ?case by (simp add: decode_wal_buffer.simps)
next
  case (Cons r rs)
  let ?y = "concat (map wal_payload rs)"
  have eq: "wal_payload r @ ?y = wal_tag r # (wal_body r @ ?y)" by (simp add: wal_payload_def)
  have "decode_wal_buffer (wal_tag r # (wal_body r @ ?y)) =
      (if decodable r then case decode_wal_buffer ?y of Inl e \<Rightarrow> Inl e | Inr rs \<Rightarrow> Inr (r # rs) else Inr [])"
    using Cons.prems by (subst decode_wal_buffer.simps) (simp add: decode_body_enc)
  then show ?case using Cons by (simp add: eq)
qed

text \<open>C31. A transaction's local buffer and recovery agree on the format: after logging any valid records the
  buffer is their payloads in the format of the log, its size field is its length, and decoding it
  gives back the records up to the first one that is not an insert, delete, update or commit.\<close>

theorem local_wal_decodes:
  assumes "list_all wal_valid rs"
  shows "lw_buffer (fold write_record rs lw_new) = concat (map wal_payload rs) \<and>
    lw_size (fold write_record rs lw_new) = length (lw_buffer (fold write_record rs lw_new)) \<and>
    lw_count (fold write_record rs lw_new) = length rs \<and>
    decode_wal_buffer (lw_buffer (fold write_record rs lw_new)) = Inr (takeWhile decodable rs)"
  using decode_concat [OF assms] by (simp add: write_records_payload lw_new_def)

theorem local_wal_decodes_witness:
  "decode_wal_buffer (lw_buffer (fold write_record [Insert 3 [1, 2], Delete 3 9, Checkpoint, Commit 4] lw_new)) =
     Inr [Insert 3 [1, 2], Delete 3 9]"
proof -
  let ?rs = "[Insert 3 [1, 2], Delete 3 9, Checkpoint, Commit 4]"
  have v: "list_all wal_valid ?rs" and t: "takeWhile decodable ?rs = [Insert 3 [1, 2], Delete 3 9]" by simp_all
  show ?thesis using local_wal_decodes [OF v] unfolding t by blast
qed

section \<open>What recovery applies\<close>

fun is_data :: "wal_record \<Rightarrow> bool" where
  "is_data (Commit _) = False"
| "is_data (Rollback _) = False"
| "is_data Checkpoint = False"
| "is_data _ = True"

datatype batch = Committed_batch u64 "wal_record list" | Rolled_back_batch u64 "wal_record list"

fun batch_records :: "batch \<Rightarrow> wal_record list" where
  "batch_records (Committed_batch t ds) = ds @ [Commit t]"
| "batch_records (Rolled_back_batch t ds) = ds @ [Rollback t]"

fun batch_applied :: "batch \<Rightarrow> wal_record list" where
  "batch_applied (Committed_batch t ds) = ds"
| "batch_applied (Rolled_back_batch t ds) = []"

fun batch_skipped :: "batch \<Rightarrow> wal_record list" where
  "batch_skipped (Committed_batch t ds) = []"
| "batch_skipped (Rolled_back_batch t ds) = ds"

fun batch_txns :: "batch \<Rightarrow> u64 set" where
  "batch_txns (Committed_batch t ds) = {t}"
| "batch_txns (Rolled_back_batch t ds) = {}"

fun batch_data :: "batch \<Rightarrow> wal_record list" where
  "batch_data (Committed_batch t ds) = ds"
| "batch_data (Rolled_back_batch t ds) = ds"

text \<open>The effect of applying records in order, for an apply function that does not fail.\<close>

definition apply_all :: "(wal_record \<Rightarrow> 's \<Rightarrow> (io_error + unit) \<times> 's) \<Rightarrow> wal_record list \<Rightarrow> 's \<Rightarrow> 's" where
  "apply_all apply_fn rs s = fold (\<lambda>r s. snd (apply_fn r s)) rs s"

lemma apply_all_append [simp]: "apply_all f (xs @ ys) s = apply_all f ys (apply_all f xs s)"
  by (simp add: apply_all_def)

lemma drain_ok:
  assumes "\<And>r s. fst (apply_fn r s) = Inr ()"
  shows "drain_pending apply_fn rs n s = (Inr (n + length rs), apply_all apply_fn rs s)"
proof (induction rs arbitrary: n s)
  case (Cons r rs)
  then show ?case using assms [of r s] by (cases "apply_fn r s") (simp add: apply_all_def)
qed (simp add: apply_all_def)

lemma replay_data:
  "list_all is_data ds \<Longrightarrow>
     replay_loop apply_fn (ds @ rs) pending res s = replay_loop apply_fn rs (pending @ ds) res s"
proof (induction ds arbitrary: pending)
  case (Cons d ds)
  then show ?case by (cases d) simp_all
qed simp

lemma replay_batches:
  assumes "\<And>r s. fst (apply_fn r s) = Inr ()" "\<forall>b\<in>set bs. list_all is_data (batch_data b)"
  shows "\<exists>res'. replay_loop apply_fn (concat (map batch_records bs)) [] res s =
      (Inr res', apply_all apply_fn (concat (map batch_applied bs)) s) \<and>
    records_replayed res' = records_replayed res + length (concat (map batch_applied bs)) \<and>
    records_skipped res' = records_skipped res + length (concat (map batch_skipped bs)) \<and>
    set (committed_txns res') = set (committed_txns res) \<union> (\<Union>b\<in>set bs. batch_txns b)"
  using assms(2)
proof (induction bs arbitrary: res s)
  case Nil
  then show ?case by (simp add: apply_all_def)
next
  case (Cons b bs)
  show ?case
  proof (cases b)
    case (Committed_batch t ds)
    let ?res = "res\<lparr>records_replayed := records_replayed res + length ds,
      committed_txns := List.insert t (committed_txns res)\<rparr>"
    have "replay_loop apply_fn (concat (map batch_records (b # bs))) [] res s =
        replay_loop apply_fn (concat (map batch_records bs)) [] ?res (apply_all apply_fn ds s)"
      using Cons.prems Committed_batch by (simp add: replay_data drain_ok [OF assms(1)])
    then show ?thesis
      using Cons.IH [of ?res "apply_all apply_fn ds s"] Cons.prems Committed_batch by auto
  next
    case (Rolled_back_batch t ds)
    let ?res = "res\<lparr>records_skipped := records_skipped res + length ds\<rparr>"
    have "replay_loop apply_fn (concat (map batch_records (b # bs))) [] res s =
        replay_loop apply_fn (concat (map batch_records bs)) [] ?res s"
      using Cons.prems Rolled_back_batch by (simp add: replay_data)
    then show ?thesis
      using Cons.IH [of ?res s] Cons.prems Rolled_back_batch by auto
  qed
qed

text \<open>C28. Recovery applies exactly the committed batches: for a log file that holds whole batches, each a
  list of data records closed by a commit or a rollback marker, replaying with an apply function that does
  not fail applies the data of the committed batches, in order and nothing else, and the result
  reports the numbers applied and skipped and the committed transactions.\<close>

theorem recovery_applies_committed:
  assumes "\<And>r s. fst (apply_fn r s) = Inr ()" "\<forall>b\<in>set bs. list_all is_data (batch_data b)"
    "list_all wal_valid (concat (map batch_records bs))"
  shows "\<exists>res. replay crc apply_fn
        (Some (wal_header @ append_records_to_file crc (concat (map batch_records bs)))) s =
      (Inr res, apply_all apply_fn (concat (map batch_applied bs)) s) \<and>
    records_replayed res = length (concat (map batch_applied bs)) \<and>
    records_skipped res = length (concat (map batch_skipped bs)) \<and>
    set (committed_txns res) = (\<Union>b\<in>set bs. batch_txns b)"
proof -
  let ?log = "concat (map batch_records bs)"
  have "load_v2 crc (append_records_to_file crc ?log) [] = (Inr (), ?log)"
    using load_v2_frames [OF assms(3), of crc "[]" "[]"]
    by (simp add: load_v2.simps [of crc "[]"] read_exact_def)
  then obtain w where w: "load_from_disk crc (Some (wal_header @ append_records_to_file crc ?log)) wal_new = (Inr (), w)"
    "wal_records w = ?log"
    unfolding load_header by (simp add: wal_new_def)
  have ne: "wal_header \<noteq> []" by (simp add: wal_header_def)
  show ?thesis
    using replay_batches [OF assms(1,2), where res = empty_replay and s = s] w ne by (simp add: replay_def empty_replay_def)
qed

text \<open>C30. A transaction whose commit record did not reach the disk is replayed: when a crash cuts the log
  anywhere inside the commit record that follows a data record, recovery applies the data record
  all the same.\<close>

theorem uncommitted_tail_replayed:
  assumes "wal_valid d" "is_data d" "n < length (frame crc (Commit t))" "fst (apply_fn d s) = Inr ()"
  shows "replay crc apply_fn (Some (wal_header @ frame crc d @ take n (frame crc (Commit t)))) s =
    (Inr \<lparr>records_replayed = 1, records_skipped = 0, committed_txns = []\<rparr>, snd (apply_fn d s))"
proof -
  have "load_v2 crc (frame crc d @ take n (frame crc (Commit t))) [] = (Inr (), [d])"
    using load_v2_torn [of "Commit t" n crc "[d]"] assms(3) by (simp add: load_v2_frame [OF assms(1)])
  then obtain w where w: "load_from_disk crc (Some (wal_header @ frame crc d @ take n (frame crc (Commit t)))) wal_new = (Inr (), w)"
    "wal_records w = [d]"
    unfolding load_header by (simp add: wal_new_def)
  have ne: "wal_header \<noteq> []" by (simp add: wal_header_def)
  have "replay_loop apply_fn [d] [] empty_replay s = replay_loop apply_fn [] [d] empty_replay s"
    using replay_data [of "[d]" apply_fn "[]" "[]"] assms(2) by simp
  then show ?thesis
    using w ne assms(4) by (cases "apply_fn d s") (simp add: replay_def empty_replay_def)
qed


text \<open>An apply function that records what it is given.\<close>

definition collect :: "wal_record \<Rightarrow> wal_record list \<Rightarrow> (io_error + unit) \<times> wal_record list" where
  "collect r rs = (Inr (), rs @ [r])"

theorem recovery_applies_committed_witness:
  "snd (replay (\<lambda>_. 0) collect
      (Some (wal_header @ append_records_to_file (\<lambda>_. 0)
        (concat (map batch_records
          [Committed_batch 1 [Delete 3 9], Rolled_back_batch 2 [Delete 3 8], Committed_batch 3 [Insert 4 []]])))) []) =
   [Delete 3 9, Insert 4 []]"
proof -
  have "fst (collect r s) = Inr ()" for r s by (simp add: collect_def)
  from recovery_applies_committed [of collect, OF this,
      of "[Committed_batch 1 [Delete 3 9], Rolled_back_batch 2 [Delete 3 8], Committed_batch 3 [Insert 4 []]]" "\<lambda>_. 0" "[]"]
  show ?thesis by (auto simp: apply_all_def collect_def)
qed

theorem uncommitted_tail_replayed_witness:
  "snd (replay (\<lambda>_. 0) collect
      (Some (wal_header @ frame (\<lambda>_. 0) (Delete 3 9) @ take 7 (frame (\<lambda>_. 0) (Commit 1)))) []) = [Delete 3 9]"
  using uncommitted_tail_replayed [of "Delete 3 9" 7 "\<lambda>_. 0" 1 collect "[]"]
  by (simp add: collect_def wal_payload_def)

end
