(* ===== verification/Versions.thy ===== *)
theory Versions
  imports Txn_Manager
begin

text \<open>
  Row versions: insert and delete visibility per node group (\<^verbatim>\<open>akar-storage/src/version_info.rs\<close>), the
  version chains of updates (\<^verbatim>\<open>update_info.rs\<close>) and the undo buffer of a transaction
  (\<^verbatim>\<open>undo_buffer.rs\<close>). A chain of boxed nodes is a list, newest node first. \<^verbatim>\<open>update_info.rs\<close> takes its
  mutex with \<^verbatim>\<open>unwrap_or_else(into_inner)\<close>, so poison does not matter there. The caller of the undo
  buffer supplies the function that writes a value back.
\<close>

section \<open>Insert and delete visibility\<close>

record vector_version_info =
  inserted :: "(u32 \<rightharpoonup> u64) mutex"
  deleted :: "(u32 \<rightharpoonup> u64) mutex"

definition vv_new :: vector_version_info where
  "vv_new = \<lparr>inserted = mutex_new Map.empty, deleted = mutex_new Map.empty\<rparr>"

definition vv_clone :: "vector_version_info \<Rightarrow> vector_version_info" where
  "vv_clone v =
     \<lparr>inserted = mutex_new (case lock_read (inserted v) of Some m \<Rightarrow> m | None \<Rightarrow> Map.empty),
      deleted = mutex_new (case lock_read (deleted v) of Some m \<Rightarrow> m | None \<Rightarrow> Map.empty)\<rparr>"

definition vv_insert :: "u64 \<Rightarrow> u32 \<Rightarrow> vector_version_info \<Rightarrow> vector_version_info" where
  "vv_insert tid row v = v\<lparr>inserted := lock_update (\<lambda>m. m(row \<mapsto> tid)) (inserted v)\<rparr>"

definition vv_delete :: "u64 \<Rightarrow> u32 \<Rightarrow> vector_version_info \<Rightarrow> vector_version_info" where
  "vv_delete tid row v = v\<lparr>deleted := lock_update (\<lambda>m. m(row \<mapsto> tid)) (deleted v)\<rparr>"

definition vv_remove_insert :: "u32 \<Rightarrow> vector_version_info \<Rightarrow> vector_version_info" where
  "vv_remove_insert row v = v\<lparr>inserted := lock_update (\<lambda>m. m(row := None)) (inserted v)\<rparr>"

definition vv_remove_delete :: "u32 \<Rightarrow> vector_version_info \<Rightarrow> vector_version_info" where
  "vv_remove_delete row v = v\<lparr>deleted := lock_update (\<lambda>m. m(row := None)) (deleted v)\<rparr>"

definition vv_reset :: "vector_version_info \<Rightarrow> vector_version_info" where
  "vv_reset v =
     v\<lparr>inserted := lock_update (\<lambda>_. Map.empty) (inserted v), deleted := lock_update (\<lambda>_. Map.empty) (deleted v)\<rparr>"

definition is_txn_committed_before :: "u64 \<Rightarrow> u64 \<Rightarrow> (u64 \<rightharpoonup> u64) \<Rightarrow> bool" where
  "is_txn_committed_before tid snapshot history =
     (case history tid of Some cts \<Rightarrow> cts \<le> snapshot | None \<Rightarrow> False)"

definition vv_is_visible :: "u32 \<Rightarrow> u64 \<Rightarrow> (u64 \<rightharpoonup> u64) \<Rightarrow> vector_version_info \<Rightarrow> bool" where
  "vv_is_visible row snapshot history v =
     (if (case lock_read (deleted v) of
            Some del \<Rightarrow> (case del row of
                           Some tid \<Rightarrow> is_txn_committed_before tid snapshot history
                         | None \<Rightarrow> False)
          | None \<Rightarrow> False) then False
      else case lock_read (inserted v) of
             Some ins \<Rightarrow> (case ins row of
                            Some tid \<Rightarrow> is_txn_committed_before tid snapshot history
                          | None \<Rightarrow> True)
           | None \<Rightarrow> True)"

definition vv_num_inserters :: "vector_version_info \<Rightarrow> nat" where
  "vv_num_inserters v = (case lock_read (inserted v) of Some m \<Rightarrow> card (ran m) | None \<Rightarrow> 0)"

definition vv_num_deleters :: "vector_version_info \<Rightarrow> nat" where
  "vv_num_deleters v = (case lock_read (deleted v) of Some m \<Rightarrow> card (ran m) | None \<Rightarrow> 0)"

record version_info =
  vi_vectors :: "vector_version_info list"
  vi_vector_size :: u32

definition div_ceil :: "nat \<Rightarrow> nat \<Rightarrow> nat" where
  "div_ceil a b = (a + b - 1) div b"

definition vi_new :: "nat \<Rightarrow> version_info" where
  "vi_new total_rows = \<lparr>vi_vectors = replicate (div_ceil total_rows 1024) vv_new, vi_vector_size = 1024\<rparr>"

definition vi_vector_idx :: "version_info \<Rightarrow> u32 \<Rightarrow> nat" where
  "vi_vector_idx vi row = unat (row div vi_vector_size vi)"

definition vi_row_in_vector :: "version_info \<Rightarrow> u32 \<Rightarrow> u32" where
  "vi_row_in_vector vi row = row mod vi_vector_size vi"

text \<open>The common shape of the recorders: change the vector of the row, if it is tracked.\<close>

definition vi_modify ::
  "(u32 \<Rightarrow> vector_version_info \<Rightarrow> vector_version_info) \<Rightarrow> u32 \<Rightarrow> version_info \<Rightarrow> version_info" where
  "vi_modify f row vi =
     (let i = vi_vector_idx vi row
      in if i < length (vi_vectors vi)
         then vi\<lparr>vi_vectors := (vi_vectors vi)[i := f (vi_row_in_vector vi row) (vi_vectors vi ! i)]\<rparr>
         else vi)"

definition vi_insert :: "u64 \<Rightarrow> u32 \<Rightarrow> version_info \<Rightarrow> version_info" where
  "vi_insert tid row vi = vi_modify (vv_insert tid) row vi"

definition vi_delete :: "u64 \<Rightarrow> u32 \<Rightarrow> version_info \<Rightarrow> version_info" where
  "vi_delete tid row vi = vi_modify (vv_delete tid) row vi"

definition vi_remove_insert :: "u32 \<Rightarrow> version_info \<Rightarrow> version_info" where
  "vi_remove_insert row vi = vi_modify vv_remove_insert row vi"

definition vi_remove_delete :: "u32 \<Rightarrow> version_info \<Rightarrow> version_info" where
  "vi_remove_delete row vi = vi_modify vv_remove_delete row vi"

definition vi_reset :: "version_info \<Rightarrow> version_info" where
  "vi_reset vi = vi\<lparr>vi_vectors := map vv_reset (vi_vectors vi)\<rparr>"

definition vi_num_inserters :: "version_info \<Rightarrow> nat" where
  "vi_num_inserters vi = sum_list (map vv_num_inserters (vi_vectors vi))"

definition vi_num_deleters :: "version_info \<Rightarrow> nat" where
  "vi_num_deleters vi = sum_list (map vv_num_deleters (vi_vectors vi))"

definition vi_is_visible :: "u32 \<Rightarrow> u64 \<Rightarrow> (u64 \<rightharpoonup> u64) \<Rightarrow> version_info \<Rightarrow> bool" where
  "vi_is_visible row snapshot history vi =
     (let i = vi_vector_idx vi row
      in if i < length (vi_vectors vi)
         then vv_is_visible (vi_row_in_vector vi row) snapshot history (vi_vectors vi ! i)
         else True)"

section \<open>Update chains\<close>

text \<open>A node of a chain is its version and the value its update replaced.\<close>

record update_info =
  ui_vectors :: "(u64 \<times> bytes) list list"
  ui_vector_size :: u32

definition ui_new :: "nat \<Rightarrow> update_info" where
  "ui_new total_rows = \<lparr>ui_vectors = replicate (div_ceil total_rows 1024) [], ui_vector_size = 1024\<rparr>"

definition ui_vector_idx :: "update_info \<Rightarrow> u32 \<Rightarrow> nat" where
  "ui_vector_idx ui row = unat (row div ui_vector_size ui)"

definition append_update :: "u32 \<Rightarrow> u64 \<Rightarrow> bytes \<Rightarrow> update_info \<Rightarrow> update_info" where
  "append_update row version data ui =
     (let i = ui_vector_idx ui row;
          vs = (if i \<ge> length (ui_vectors ui)
                then ui_vectors ui @ replicate (i + 1 - length (ui_vectors ui)) []
                else ui_vectors ui)
      in ui\<lparr>ui_vectors := vs[i := (version, data) # vs ! i]\<rparr>)"

text \<open>The loop of \<^verbatim>\<open>get_version\<close>: \<open>prev\<close> is the last node seen that is newer than the snapshot.\<close>

fun chain_search :: "(u64 \<times> bytes) list \<Rightarrow> u64 \<Rightarrow> bytes option \<Rightarrow> bytes option" where
  "chain_search [] snapshot prev = prev"
| "chain_search ((version, data) # older) snapshot prev =
     (if version \<le> snapshot then prev else chain_search older snapshot (Some data))"

definition get_version :: "u32 \<Rightarrow> u64 \<Rightarrow> update_info \<Rightarrow> bytes option" where
  "get_version row snapshot ui =
     (let i = ui_vector_idx ui row
      in if i \<ge> length (ui_vectors ui) then None else chain_search (ui_vectors ui ! i) snapshot None)"

definition ui_latest :: "u32 \<Rightarrow> update_info \<Rightarrow> bytes option" where
  "ui_latest row ui =
     (let i = ui_vector_idx ui row
      in if i < length (ui_vectors ui)
         then (case ui_vectors ui ! i of [] \<Rightarrow> None | (_, data) # _ \<Rightarrow> Some data)
         else None)"

definition num_dirty_vectors :: "update_info \<Rightarrow> nat" where
  "num_dirty_vectors ui = length (filter (\<lambda>c. c \<noteq> []) (ui_vectors ui))"

section \<open>Undo buffer\<close>

record undo_buffer =
  ub_records :: "undo_record list"

definition ub_new :: undo_buffer where
  "ub_new = \<lparr>ub_records = []\<rparr>"

definition ub_record :: "u64 \<Rightarrow> u64 \<Rightarrow> u32 \<Rightarrow> bytes \<Rightarrow> undo_buffer \<Rightarrow> undo_buffer" where
  "ub_record table_id row_id column old_data b =
     b\<lparr>ub_records := ub_records b @ [undo_update table_id row_id column old_data]\<rparr>"

definition ub_clear :: "undo_buffer \<Rightarrow> undo_buffer" where
  "ub_clear b = b\<lparr>ub_records := []\<rparr>"

definition ub_drain :: "undo_buffer \<Rightarrow> undo_record list \<times> undo_buffer" where
  "ub_drain b = (ub_records b, b\<lparr>ub_records := []\<rparr>)"

fun ub_apply :: "(undo_record \<Rightarrow> 's \<Rightarrow> ('e + unit) \<times> 's) \<Rightarrow> undo_record list \<Rightarrow> 's \<Rightarrow> ('e + unit) \<times> 's" where
  "ub_apply apply_fn [] s = (Inr (), s)"
| "ub_apply apply_fn (r # rs) s =
     (case apply_fn r s of (Inl e, s') \<Rightarrow> (Inl e, s') | (Inr _, s') \<Rightarrow> ub_apply apply_fn rs s')"

definition ub_rollback ::
  "(undo_record \<Rightarrow> 's \<Rightarrow> ('e + unit) \<times> 's) \<Rightarrow> undo_buffer \<Rightarrow> 's \<Rightarrow> ('e + unit) \<times> undo_buffer \<times> 's" where
  "ub_rollback apply_fn b s =
     (case ub_apply apply_fn (rev (ub_records b)) s of
        (Inl e, s') \<Rightarrow> (Inl e, b, s')
      | (Inr _, s') \<Rightarrow> (Inr (), ub_clear b, s'))"

section \<open>Visibility per row\<close>

text \<open>The version state of one row: who inserted and who deleted it.\<close>

definition vi_ok :: "version_info \<Rightarrow> bool" where
  "vi_ok vi \<longleftrightarrow> vi_vector_size vi = 1024 \<and>
     (\<forall>v\<in>set (vi_vectors vi). \<not> is_poisoned (inserted v) \<and> \<not> is_poisoned (deleted v))"

definition tracked :: "version_info \<Rightarrow> u32 \<Rightarrow> bool" where
  "tracked vi row \<longleftrightarrow> vi_vector_idx vi row < length (vi_vectors vi)"

definition inserter :: "version_info \<Rightarrow> u32 \<Rightarrow> u64 option" where
  "inserter vi row =
     (if tracked vi row then guarded (inserted (vi_vectors vi ! vi_vector_idx vi row)) (vi_row_in_vector vi row) else None)"

definition deleter :: "version_info \<Rightarrow> u32 \<Rightarrow> u64 option" where
  "deleter vi row =
     (if tracked vi row then guarded (deleted (vi_vectors vi ! vi_vector_idx vi row)) (vi_row_in_vector vi row) else None)"

lemma visible_rows:
  assumes "vi_ok vi"
  shows "vi_is_visible row snapshot history vi \<longleftrightarrow>
    \<not> (\<exists>t. deleter vi row = Some t \<and> is_txn_committed_before t snapshot history) \<and>
    (\<forall>t. inserter vi row = Some t \<longrightarrow> is_txn_committed_before t snapshot history)"
proof (cases "tracked vi row")
  case True
  then have "vi_vectors vi ! vi_vector_idx vi row \<in> set (vi_vectors vi)" by (simp add: tracked_def)
  then show ?thesis
    using True assms
    by (auto simp: vi_is_visible_def vv_is_visible_def inserter_def deleter_def tracked_def vi_ok_def Let_def
        split: option.splits)
next
  case False
  then show ?thesis by (simp add: vi_is_visible_def inserter_def deleter_def tracked_def)
qed

lemma same_slot:
  assumes "vi_vector_size vi = 1024" "vi_vector_idx vi a = vi_vector_idx vi b" "vi_row_in_vector vi a = vi_row_in_vector vi b"
  shows "a = b"
proof -
  have "a div 1024 = b div 1024"
    using assms(1,2) by (simp add: vi_vector_idx_def unsigned_word_eqI)
  moreover have "a mod 1024 = b mod 1024" using assms(1,3) by (simp add: vi_row_in_vector_def)
  ultimately show ?thesis by (metis word_mod_div_equality)
qed

lemma modify_proj [simp]:
  "vi_vector_size (vi_modify f row vi) = vi_vector_size vi"
  "length (vi_vectors (vi_modify f row vi)) = length (vi_vectors vi)"
  "vi_vector_idx (vi_modify f row vi) r = vi_vector_idx vi r"
  "vi_row_in_vector (vi_modify f row vi) r = vi_row_in_vector vi r"
  "tracked (vi_modify f row vi) r = tracked vi r"
  by (simp_all add: vi_modify_def Let_def vi_vector_idx_def vi_row_in_vector_def tracked_def)

lemma modify_nth:
  "tracked vi r \<Longrightarrow> vi_vectors (vi_modify f row vi) ! vi_vector_idx vi r =
     (if vi_vector_idx vi r = vi_vector_idx vi row
      then f (vi_row_in_vector vi row) (vi_vectors vi ! vi_vector_idx vi row)
      else vi_vectors vi ! vi_vector_idx vi r)"
  by (auto simp: vi_modify_def Let_def tracked_def)


text \<open>Every recorder acts on the inserter and deleter of its own row only.\<close>

lemma inserter_record:
  assumes "vi_ok vi" "tracked vi row"
  shows "inserter (vi_insert tid row vi) = (inserter vi)(row \<mapsto> tid)" (is ?A)
    and "inserter (vi_delete tid row vi) = inserter vi" (is ?B)
    and "inserter (vi_remove_insert row vi) = (inserter vi)(row := None)" (is ?C)
    and "inserter (vi_remove_delete row vi) = inserter vi" (is ?D)
proof -
  have np: "\<not> is_poisoned (inserted (vi_vectors vi ! vi_vector_idx vi row))"
    using assms by (simp add: vi_ok_def tracked_def)
  have sz: "vi_vector_size vi = 1024" using assms(1) by (simp add: vi_ok_def)
  show ?A using np assms(2) same_slot [OF sz]
    by (auto simp: fun_eq_iff inserter_def vi_insert_def vv_insert_def modify_nth)
  show ?B by (auto simp: fun_eq_iff inserter_def vi_delete_def vv_delete_def modify_nth)
  show ?C using np assms(2) same_slot [OF sz]
    by (auto simp: fun_eq_iff inserter_def vi_remove_insert_def vv_remove_insert_def modify_nth)
  show ?D by (auto simp: fun_eq_iff inserter_def vi_remove_delete_def vv_remove_delete_def modify_nth)
qed

lemma deleter_record:
  assumes "vi_ok vi" "tracked vi row"
  shows "deleter (vi_insert tid row vi) = deleter vi" (is ?A)
    and "deleter (vi_delete tid row vi) = (deleter vi)(row \<mapsto> tid)" (is ?B)
    and "deleter (vi_remove_insert row vi) = deleter vi" (is ?C)
    and "deleter (vi_remove_delete row vi) = (deleter vi)(row := None)" (is ?D)
proof -
  have np: "\<not> is_poisoned (deleted (vi_vectors vi ! vi_vector_idx vi row))"
    using assms by (simp add: vi_ok_def tracked_def)
  have sz: "vi_vector_size vi = 1024" using assms(1) by (simp add: vi_ok_def)
  show ?A by (auto simp: fun_eq_iff deleter_def vi_insert_def vv_insert_def modify_nth)
  show ?B using np assms(2) same_slot [OF sz]
    by (auto simp: fun_eq_iff deleter_def vi_delete_def vv_delete_def modify_nth)
  show ?C by (auto simp: fun_eq_iff deleter_def vi_remove_insert_def vv_remove_insert_def modify_nth)
  show ?D using np assms(2) same_slot [OF sz]
    by (auto simp: fun_eq_iff deleter_def vi_remove_delete_def vv_remove_delete_def modify_nth)
qed

lemma modify_ok:
  assumes "vi_ok vi" "\<And>r v. is_poisoned (inserted (f r v)) = is_poisoned (inserted v)"
    "\<And>r v. is_poisoned (deleted (f r v)) = is_poisoned (deleted v)"
  shows "vi_ok (vi_modify f row vi)"
  using assms by (auto simp: vi_ok_def vi_modify_def Let_def dest!: set_update_subset_insert [THEN subsetD])

lemma record_ok [simp]:
  assumes "vi_ok vi"
  shows "vi_ok (vi_insert tid row vi)" "vi_ok (vi_delete tid row vi)"
    "vi_ok (vi_remove_insert row vi)" "vi_ok (vi_remove_delete row vi)" "vi_ok (vi_reset vi)"
  using assms
  by (auto simp: vi_insert_def vi_delete_def vi_remove_insert_def vi_remove_delete_def vv_insert_def
      vv_delete_def vv_remove_insert_def vv_remove_delete_def intro!: modify_ok)
    (auto simp: vi_reset_def vi_ok_def vv_reset_def)

lemma new_ok [simp]: "vi_ok (vi_new n)"
  by (simp add: vi_ok_def vi_new_def vv_new_def)

lemma tracked_new:
  assumes "unat row < n"
  shows "tracked (vi_new n) row"
proof -
  have "unat row div 1024 < div_ceil n 1024" using assms by (simp add: div_ceil_def)
  then show ?thesis by (simp add: tracked_def vi_vector_idx_def vi_new_def unat_div)
qed

lemma fresh_new [simp]: "inserter (vi_new n) row = None" "deleter (vi_new n) row = None"
  by (simp_all add: inserter_def deleter_def vi_new_def vv_new_def tracked_def vi_vector_idx_def)

lemma row_reset [simp]: "vi_ok vi \<Longrightarrow> inserter (vi_reset vi) row = None" "vi_ok vi \<Longrightarrow> deleter (vi_reset vi) row = None"
  by (simp_all add: inserter_def deleter_def vi_reset_def vv_reset_def tracked_def vi_vector_idx_def vi_ok_def)

text \<open>C13. Row visibility is decided by the row's own inserter and deleter. After a transaction inserts a
  row, that row is visible to a snapshot exactly when the transaction committed at or before it (and
  no committed delete of the row precedes the snapshot); after a transaction deletes a row, the row
  stays visible to the snapshots that do not see the commit of the delete; and every other row, also
  one at the same offset of another vector, is judged as before.
\<close>

theorem row_visibility:
  assumes "vi_ok vi" "tracked vi row"
  shows "(vi_is_visible r ts history (vi_insert tid row vi) \<longleftrightarrow>
      (if r = row
       then is_txn_committed_before tid ts history \<and>
            \<not> (\<exists>d. deleter vi row = Some d \<and> is_txn_committed_before d ts history)
       else vi_is_visible r ts history vi)) \<and>
    (vi_is_visible r ts history (vi_delete tid row vi) \<longleftrightarrow>
      (if r = row
       then \<not> is_txn_committed_before tid ts history \<and>
            (inserter vi row = None \<or> (\<exists>i. inserter vi row = Some i \<and> is_txn_committed_before i ts history))
       else vi_is_visible r ts history vi))"
  by (cases "inserter vi row"; auto simp: visible_rows assms inserter_record deleter_record)

theorem row_visibility_witness:
  "vi_is_visible 1029 7 [3 \<mapsto> 7] (vi_insert 3 1029 (vi_new 4096)) \<and>
   \<not> vi_is_visible 1029 6 [3 \<mapsto> 7] (vi_insert 3 1029 (vi_new 4096)) \<and>
   vi_is_visible 5 6 [3 \<mapsto> 7] (vi_insert 3 1029 (vi_new 4096)) \<and>
   \<not> vi_is_visible 1029 9 [3 \<mapsto> 7] (vi_delete 3 1029 (vi_new 4096))"
proof -
  have t: "tracked (vi_new 4096) 1029" by (rule tracked_new) simp
  show ?thesis
    using row_visibility [OF new_ok t, where history = "[3 \<mapsto> 7]" and tid = 3]
    by (simp add: visible_rows is_txn_committed_before_def)
qed

text \<open>C14. Rolling a change back restores what every snapshot sees: removing the insert record of a row that
  had none before the insert, and the delete record of a row that had none before the delete, gives
  every row the visibility it had before the transaction, in every history; and resetting the group
  makes all rows visible.
\<close>

theorem rollback_restores_visibility:
  assumes "vi_ok vi" "tracked vi row"
  shows "(inserter vi row = None \<longrightarrow>
      vi_is_visible r ts history (vi_remove_insert row (vi_insert tid row vi)) = vi_is_visible r ts history vi) \<and>
    (deleter vi row = None \<longrightarrow>
      vi_is_visible r ts history (vi_remove_delete row (vi_delete tid row vi)) = vi_is_visible r ts history vi) \<and>
    vi_is_visible r ts history (vi_reset vi)"
proof -
  have "tracked (vi_insert tid row vi) row" "tracked (vi_delete tid row vi) row"
    using assms(2) by (simp_all add: vi_insert_def vi_delete_def)
  then show ?thesis
    using assms by (simp add: visible_rows inserter_record deleter_record fun_upd_idem)
qed

theorem rollback_restores_visibility_witness:
  "vi_is_visible 1029 4 Map.empty (vi_remove_insert 1029 (vi_insert 3 1029 (vi_new 4096))) \<and>
   vi_is_visible 1029 4 [3 \<mapsto> 2] (vi_remove_delete 1029 (vi_delete 3 1029 (vi_new 4096)))"
proof -
  have t: "tracked (vi_new 4096) 1029" by (rule tracked_new) simp
  show ?thesis
    using rollback_restores_visibility [OF new_ok t, where r = 1029 and ts = 4 and tid = 3]
    by (simp add: visible_rows [OF new_ok])
qed


section \<open>Version chains of one vector\<close>

text \<open>
  The chain of a vector, and the effect of an append on it: the vector of the row grows by one node at
  its head and no other chain changes.
\<close>

definition chain_of :: "update_info \<Rightarrow> nat \<Rightarrow> (u64 \<times> bytes) list" where
  "chain_of ui i = (if i < length (ui_vectors ui) then ui_vectors ui ! i else [])"

lemma get_version_chain: "get_version row ts ui = chain_search (chain_of ui (ui_vector_idx ui row)) ts None"
  by (simp add: get_version_def chain_of_def Let_def)

lemma append_update_proj [simp]:
  "ui_vector_size (append_update row version data ui) = ui_vector_size ui"
  "ui_vector_idx (append_update row version data ui) r = ui_vector_idx ui r"
  by (simp_all add: append_update_def Let_def ui_vector_idx_def)

lemma chain_of_append:
  "chain_of (append_update row version data ui) i =
     (if i = ui_vector_idx ui row then (version, data) # chain_of ui i else chain_of ui i)"
  by (auto simp: append_update_def Let_def chain_of_def nth_append nth_list_update)

lemma chain_of_new [simp]: "chain_of (ui_new n) i = []"
  by (simp add: chain_of_def ui_new_def)

text \<open>
  On a chain whose versions are descending the search finds the oldest node that is newer than the
  snapshot, the one whose replaced value was current then.
\<close>

lemma chain_search_prev: "chain_search c ts prev = (case chain_search c ts None of None \<Rightarrow> prev | Some d \<Rightarrow> Some d)"
proof (induction c arbitrary: prev)
  case (Cons n c)
  obtain v d where n: "n = (v, d)" by (cases n)
  show ?case
    using Cons.IH [of "Some d"] by (auto simp: n split: option.splits)
qed simp

lemma chain_search_last:
  "chain_search c ts None =
     (case takeWhile (\<lambda>n. ts < fst n) c of [] \<Rightarrow> None | n # ns \<Rightarrow> Some (snd (last (n # ns))))"
proof (induction c)
  case (Cons n c)
  obtain v d where n: "n = (v, d)" by (cases n)
  show ?case
    using chain_search_prev [of c ts "Some d"] Cons.IH
    by (auto simp: n split: list.splits)
qed simp

section \<open>Undoing writes\<close>

text \<open>
  A transaction's write path over a store of cells: the old value of the cell goes to the undo buffer,
  then the cell is overwritten. The write-back function of the rollback restores one cell.
\<close>

type_synonym cell = "u64 \<times> u64 \<times> u32"

fun undo_write :: "cell \<times> bytes \<Rightarrow> undo_buffer \<times> (cell \<Rightarrow> bytes) \<Rightarrow> undo_buffer \<times> (cell \<Rightarrow> bytes)" where
  "undo_write ((t, r, c), new) (b, s) = (ub_record t r c (s (t, r, c)) b, s((t, r, c) := new))"

definition write_back :: "undo_record \<Rightarrow> (cell \<Rightarrow> bytes) \<Rightarrow> (unit + unit) \<times> (cell \<Rightarrow> bytes)" where
  "write_back u s = (Inr (), s((ur_table_id u, ur_row_id u, ur_column u) := ur_old_data u))"

lemma write_back_undoes: "write_back (undo_update t r c (s (t, r, c))) (s((t, r, c) := new)) = (Inr (), s)"
  by (simp add: write_back_def undo_update_def fun_eq_iff)

lemma undo_writes:
  "ub_apply write_back (rev (ub_records (fst (fold undo_write ws (b, s))))) (snd (fold undo_write ws (b, s))) =
   ub_apply write_back (rev (ub_records b)) s"
proof (induction ws arbitrary: b s)
  case (Cons w ws)
  obtain t r c new where w: "w = ((t, r, c), new)" by (metis prod.exhaust)
  define s1 where "s1 = s((t, r, c) := new)"
  have step: "undo_write w (b, s) = (ub_record t r c (s (t, r, c)) b, s1)" by (simp add: w s1_def)
  have "write_back (undo_update t r c (s (t, r, c))) s1 = (Inr (), s)"
    unfolding s1_def by (rule write_back_undoes)
  then show ?case
    using Cons.IH [of "ub_record t r c (s (t, r, c)) b" s1]
    by (simp add: step ub_record_def del: undo_write.simps)
qed simp

text \<open>C16. Undo restores the state before the transaction. After any sequence of writes that record the
  overwritten value first, also several writes to one cell, rolling the buffer back with a
  write-back function succeeds and gives exactly the store from before the first write, and an empty
  buffer.
\<close>

theorem undo_restores_store:
  "let (b, s') = fold undo_write ws (ub_new, s)
   in ub_rollback write_back b s' = (Inr (), ub_new, s)"
  using undo_writes [of ws ub_new s]
  by (simp add: case_prod_beta Let_def ub_rollback_def ub_clear_def ub_new_def)

end
