(* ===== verification/Values.thy ===== *)
theory Values
  imports Akar_Prelude "HOL-Library.Char_ord" "HOL-Library.List_Lexorder" "HOL-Library.Product_Lexorder"
begin

text \<open>
  The runtime values of \<^verbatim>\<open>akar-common/src/types.rs\<close>, one constructor per variant of \<^verbatim>\<open>Value\<close>. Integers are
  words, signed ones read with \<open>sint\<close>; a float is its IEEE 754 bit pattern; a string is its sequence of
  UTF-8 bytes, so that the lexicographic order of the list is the order of \<^verbatim>\<open>str\<close>. The payload of a JSON
  value belongs to another library and is a type parameter.
\<close>

unbundle bit_operations_syntax

record internal_id =
  table_id :: u64
  offset :: u64

record interval =
  months :: u32
  days :: u32
  micros :: u64

datatype 'j db_value =
    VNull
  | VBool bool
  | VInt64 u64
  | VInt32 u32
  | VInt16 u16
  | VInt8 u8
  | VUInt64 u64
  | VUInt32 u32
  | VUInt16 u16
  | VUInt8 u8
  | VInt128 "128 word"
  | VDouble u64
  | VFloat u32
  | VString string
  | VBlob bytes
  | VDate u32
  | VTimestamp u64
  | VTimestampTz u64
  | VTimestampNs u64
  | VTimestampMs u64
  | VTimestampSec u64
  | VInterval interval
  | VInternalID internal_id
  | VUInt128 "128 word"
  | VJson 'j
  | VDTime u64
  | VUnion string "'j db_value"
  | VList "'j db_value list"
  | VMap "('j db_value \<times> 'j db_value) list"
  | VStruct "(string \<times> 'j db_value) list"

section \<open>Ordering of primitive values\<close>

datatype ordering = Less | Equal | Greater

definition cmp_lin :: "'a::linorder \<Rightarrow> 'a \<Rightarrow> ordering" where
  "cmp_lin a b = (if a < b then Less else if a = b then Equal else Greater)"

definition partial_cmp :: "'a::linorder \<Rightarrow> 'a \<Rightarrow> ordering option" where
  "partial_cmp a b = Some (cmp_lin a b)"

definition signed_cmp :: "'a::len word \<Rightarrow> 'a word \<Rightarrow> ordering option" where
  "signed_cmp a b = Some (cmp_lin (sint a) (sint b))"

definition id_cmp :: "internal_id \<Rightarrow> internal_id \<Rightarrow> ordering option" where
  "id_cmp a b = Some (cmp_lin (table_id a, offset a) (table_id b, offset b))"

text \<open>
  The partial order of floats on their bits: a NaN is unordered, otherwise the magnitude is the
  pattern without its sign bit, and the two zeros are equal.
\<close>

definition f64_is_nan :: "u64 \<Rightarrow> bool" where
  "f64_is_nan b = (b AND 0x7FFFFFFFFFFFFFFF > 0x7FF0000000000000)"

definition f64_key :: "u64 \<Rightarrow> int" where
  "f64_key b = (if bit b 63 then - uint (b AND 0x7FFFFFFFFFFFFFFF) else uint (b AND 0x7FFFFFFFFFFFFFFF))"

definition f64_partial_cmp :: "u64 \<Rightarrow> u64 \<Rightarrow> ordering option" where
  "f64_partial_cmp a b = (if f64_is_nan a \<or> f64_is_nan b then None else Some (cmp_lin (f64_key a) (f64_key b)))"

definition f32_is_nan :: "u32 \<Rightarrow> bool" where
  "f32_is_nan b = (b AND 0x7FFFFFFF > 0x7F800000)"

definition f32_key :: "u32 \<Rightarrow> int" where
  "f32_key b = (if bit b 31 then - uint (b AND 0x7FFFFFFF) else uint (b AND 0x7FFFFFFF))"

definition f32_partial_cmp :: "u32 \<Rightarrow> u32 \<Rightarrow> ordering option" where
  "f32_partial_cmp a b = (if f32_is_nan a \<or> f32_is_nan b then None else Some (cmp_lin (f32_key a) (f32_key b)))"

lemma cmp_lin_simps [simp]:
  "cmp_lin a b = Less \<longleftrightarrow> a < b"
  "cmp_lin a b = Equal \<longleftrightarrow> a = b"
  "cmp_lin a b = Greater \<longleftrightarrow> b < a"
  by (auto simp: cmp_lin_def)

end
