(* ===== verification/Zone_Map.thy ===== *)
theory Zone_Map
  imports Values
begin

text \<open>
  Zone maps (\<^verbatim>\<open>akar-storage/src/predicate.rs\<close>): the minimum and maximum a column chunk keeps, and the check
  whether a comparison with a constant can skip the chunk. \<^verbatim>\<open>PartialOrd\<close> is the comparison a generic
  function takes as its argument.
\<close>

datatype zone_map_check_result = AlwaysScan | SkipScan

record 'j column_chunk_stats =
  stat_min :: "'j db_value option"
  stat_max :: "'j db_value option"
  guaranteed_no_nulls :: bool
  guaranteed_all_nulls :: bool

definition stats_new :: "'j db_value option \<Rightarrow> 'j db_value option \<Rightarrow> 'j column_chunk_stats" where
  "stats_new mn mx =
     \<lparr>stat_min = mn, stat_max = mx, guaranteed_no_nulls = True, guaranteed_all_nulls = False\<rparr>"

definition stats_all_nulls :: "'j column_chunk_stats" where
  "stats_all_nulls =
     \<lparr>stat_min = None, stat_max = None, guaranteed_no_nulls = False, guaranteed_all_nulls = True\<rparr>"

definition value_cmp :: "'j db_value \<Rightarrow> 'j db_value \<Rightarrow> ordering option" where
  "value_cmp a b =
     (case a of
        VBool x \<Rightarrow> (case b of VBool y \<Rightarrow> Some (cmp_lin x y) | _ \<Rightarrow> None)
      | VInt64 x \<Rightarrow> (case b of VInt64 y \<Rightarrow> Some (cmp_lin (sint x) (sint y)) | _ \<Rightarrow> None)
      | VInt32 x \<Rightarrow> (case b of VInt32 y \<Rightarrow> Some (cmp_lin (sint x) (sint y)) | _ \<Rightarrow> None)
      | VInt16 x \<Rightarrow> (case b of VInt16 y \<Rightarrow> Some (cmp_lin (sint x) (sint y)) | _ \<Rightarrow> None)
      | VInt8 x \<Rightarrow> (case b of VInt8 y \<Rightarrow> Some (cmp_lin (sint x) (sint y)) | _ \<Rightarrow> None)
      | VUInt64 x \<Rightarrow> (case b of VUInt64 y \<Rightarrow> Some (cmp_lin x y) | _ \<Rightarrow> None)
      | VUInt32 x \<Rightarrow> (case b of VUInt32 y \<Rightarrow> Some (cmp_lin x y) | _ \<Rightarrow> None)
      | VUInt16 x \<Rightarrow> (case b of VUInt16 y \<Rightarrow> Some (cmp_lin x y) | _ \<Rightarrow> None)
      | VUInt8 x \<Rightarrow> (case b of VUInt8 y \<Rightarrow> Some (cmp_lin x y) | _ \<Rightarrow> None)
      | VInt128 x \<Rightarrow> (case b of VInt128 y \<Rightarrow> Some (cmp_lin (sint x) (sint y)) | _ \<Rightarrow> None)
      | VUInt128 x \<Rightarrow> (case b of VUInt128 y \<Rightarrow> Some (cmp_lin x y) | _ \<Rightarrow> None)
      | VDouble x \<Rightarrow> (case b of VDouble y \<Rightarrow> f64_partial_cmp x y | _ \<Rightarrow> None)
      | VFloat x \<Rightarrow> (case b of VFloat y \<Rightarrow> f32_partial_cmp x y | _ \<Rightarrow> None)
      | VString x \<Rightarrow> (case b of VString y \<Rightarrow> Some (cmp_lin x y) | _ \<Rightarrow> None)
      | VDate x \<Rightarrow> (case b of VDate y \<Rightarrow> Some (cmp_lin (sint x) (sint y)) | _ \<Rightarrow> None)
      | VTimestamp x \<Rightarrow> (case b of VTimestamp y \<Rightarrow> Some (cmp_lin (sint x) (sint y)) | _ \<Rightarrow> None)
      | VTimestampTz x \<Rightarrow> (case b of VTimestampTz y \<Rightarrow> Some (cmp_lin (sint x) (sint y)) | _ \<Rightarrow> None)
      | VTimestampNs x \<Rightarrow> (case b of VTimestampNs y \<Rightarrow> Some (cmp_lin (sint x) (sint y)) | _ \<Rightarrow> None)
      | VTimestampMs x \<Rightarrow> (case b of VTimestampMs y \<Rightarrow> Some (cmp_lin (sint x) (sint y)) | _ \<Rightarrow> None)
      | VTimestampSec x \<Rightarrow> (case b of VTimestampSec y \<Rightarrow> Some (cmp_lin (sint x) (sint y)) | _ \<Rightarrow> None)
      | VInternalID x \<Rightarrow> (case b of VInternalID y \<Rightarrow> Some (cmp_lin (table_id x, offset x) (table_id y, offset y)) | _ \<Rightarrow> None)
      | _ \<Rightarrow> None)"

text \<open>\<^verbatim>\<open>update\<close> is \<open>None\<close> at \<^verbatim>\<open>unreachable!()\<close>: one bound is known and the other is not.\<close>

definition stats_update :: "'j db_value \<Rightarrow> 'j column_chunk_stats \<Rightarrow> 'j column_chunk_stats option" where
  "stats_update val st =
     (if val = VNull then Some (st\<lparr>guaranteed_no_nulls := False\<rparr>)
      else let st = st\<lparr>guaranteed_all_nulls := False\<rparr> in
        case (stat_min st, stat_max st) of
          (None, None) \<Rightarrow> Some (st\<lparr>stat_min := Some val, stat_max := Some val\<rparr>)
        | (Some mn, Some mx) \<Rightarrow>
            Some (st\<lparr>stat_min := (if value_cmp val mn = Some Less then Some val else Some mn),
                     stat_max := (if value_cmp val mx = Some Greater then Some val else Some mx)\<rparr>)
        | _ \<Rightarrow> None)"

text \<open>The comparison operators a \<^verbatim>\<open>PartialOrd\<close> type derives from its partial comparison.\<close>

definition op_lt :: "('a \<Rightarrow> 'a \<Rightarrow> ordering option) \<Rightarrow> 'a \<Rightarrow> 'a \<Rightarrow> bool" where
  "op_lt pc a b = (pc a b = Some Less)"

definition op_le :: "('a \<Rightarrow> 'a \<Rightarrow> ordering option) \<Rightarrow> 'a \<Rightarrow> 'a \<Rightarrow> bool" where
  "op_le pc a b = (pc a b = Some Less \<or> pc a b = Some Equal)"

definition op_eq :: "('a \<Rightarrow> 'a \<Rightarrow> ordering option) \<Rightarrow> 'a \<Rightarrow> 'a \<Rightarrow> bool" where
  "op_eq pc a b = (pc a b = Some Equal)"

definition op_gt :: "('a \<Rightarrow> 'a \<Rightarrow> ordering option) \<Rightarrow> 'a \<Rightarrow> 'a \<Rightarrow> bool" where
  "op_gt pc a b = (pc a b = Some Greater)"

definition op_ge :: "('a \<Rightarrow> 'a \<Rightarrow> ordering option) \<Rightarrow> 'a \<Rightarrow> 'a \<Rightarrow> bool" where
  "op_ge pc a b = (pc a b = Some Greater \<or> pc a b = Some Equal)"

definition in_range :: "('a \<Rightarrow> 'a \<Rightarrow> ordering option) \<Rightarrow> 'a \<Rightarrow> 'a \<Rightarrow> 'a \<Rightarrow> bool" where
  "in_range pc mn mx val = (op_ge pc val mn \<and> op_le pc val mx)"

definition check_constant_predicate ::
  "('a \<Rightarrow> 'a \<Rightarrow> ordering option) \<Rightarrow> 'a \<Rightarrow> 'a \<Rightarrow> 'a \<Rightarrow> string \<Rightarrow> zone_map_check_result" where
  "check_constant_predicate pc mn mx constant op =
     (if op = ''='' \<or> op = ''==''
      then (if \<not> in_range pc mn mx constant then SkipScan else AlwaysScan)
      else if op = ''!='' \<or> op = ''<>''
      then (if op_eq pc constant mn \<and> op_eq pc constant mx then SkipScan else AlwaysScan)
      else if op = ''>'' then (if op_ge pc constant mx then SkipScan else AlwaysScan)
      else if op = ''>='' then (if op_gt pc constant mx then SkipScan else AlwaysScan)
      else if op = ''<'' then (if op_le pc constant mn then SkipScan else AlwaysScan)
      else if op = ''<='' then (if op_lt pc constant mn then SkipScan else AlwaysScan)
      else AlwaysScan)"

definition check_values :: "'j db_value \<Rightarrow> 'j db_value \<Rightarrow> 'j db_value \<Rightarrow> string \<Rightarrow> zone_map_check_result" where
  "check_values mn mx constant op =
     (case mn of
        VBool a \<Rightarrow> (case mx of VBool b \<Rightarrow> (case constant of VBool c \<Rightarrow> check_constant_predicate partial_cmp a b c op | _ \<Rightarrow> AlwaysScan) | _ \<Rightarrow> AlwaysScan)
      | VInt64 a \<Rightarrow> (case mx of VInt64 b \<Rightarrow> (case constant of VInt64 c \<Rightarrow> check_constant_predicate signed_cmp a b c op | _ \<Rightarrow> AlwaysScan) | _ \<Rightarrow> AlwaysScan)
      | VInt32 a \<Rightarrow> (case mx of VInt32 b \<Rightarrow> (case constant of VInt32 c \<Rightarrow> check_constant_predicate signed_cmp a b c op | _ \<Rightarrow> AlwaysScan) | _ \<Rightarrow> AlwaysScan)
      | VInt16 a \<Rightarrow> (case mx of VInt16 b \<Rightarrow> (case constant of VInt16 c \<Rightarrow> check_constant_predicate signed_cmp a b c op | _ \<Rightarrow> AlwaysScan) | _ \<Rightarrow> AlwaysScan)
      | VInt8 a \<Rightarrow> (case mx of VInt8 b \<Rightarrow> (case constant of VInt8 c \<Rightarrow> check_constant_predicate signed_cmp a b c op | _ \<Rightarrow> AlwaysScan) | _ \<Rightarrow> AlwaysScan)
      | VUInt64 a \<Rightarrow> (case mx of VUInt64 b \<Rightarrow> (case constant of VUInt64 c \<Rightarrow> check_constant_predicate partial_cmp a b c op | _ \<Rightarrow> AlwaysScan) | _ \<Rightarrow> AlwaysScan)
      | VUInt32 a \<Rightarrow> (case mx of VUInt32 b \<Rightarrow> (case constant of VUInt32 c \<Rightarrow> check_constant_predicate partial_cmp a b c op | _ \<Rightarrow> AlwaysScan) | _ \<Rightarrow> AlwaysScan)
      | VUInt16 a \<Rightarrow> (case mx of VUInt16 b \<Rightarrow> (case constant of VUInt16 c \<Rightarrow> check_constant_predicate partial_cmp a b c op | _ \<Rightarrow> AlwaysScan) | _ \<Rightarrow> AlwaysScan)
      | VUInt8 a \<Rightarrow> (case mx of VUInt8 b \<Rightarrow> (case constant of VUInt8 c \<Rightarrow> check_constant_predicate partial_cmp a b c op | _ \<Rightarrow> AlwaysScan) | _ \<Rightarrow> AlwaysScan)
      | VInt128 a \<Rightarrow> (case mx of VInt128 b \<Rightarrow> (case constant of VInt128 c \<Rightarrow> check_constant_predicate signed_cmp a b c op | _ \<Rightarrow> AlwaysScan) | _ \<Rightarrow> AlwaysScan)
      | VUInt128 a \<Rightarrow> (case mx of VUInt128 b \<Rightarrow> (case constant of VUInt128 c \<Rightarrow> check_constant_predicate partial_cmp a b c op | _ \<Rightarrow> AlwaysScan) | _ \<Rightarrow> AlwaysScan)
      | VDouble a \<Rightarrow> (case mx of VDouble b \<Rightarrow> (case constant of VDouble c \<Rightarrow> check_constant_predicate f64_partial_cmp a b c op | _ \<Rightarrow> AlwaysScan) | _ \<Rightarrow> AlwaysScan)
      | VFloat a \<Rightarrow> (case mx of VFloat b \<Rightarrow> (case constant of VFloat c \<Rightarrow> check_constant_predicate f32_partial_cmp a b c op | _ \<Rightarrow> AlwaysScan) | _ \<Rightarrow> AlwaysScan)
      | VString a \<Rightarrow> (case mx of VString b \<Rightarrow> (case constant of VString c \<Rightarrow> check_constant_predicate partial_cmp a b c op | _ \<Rightarrow> AlwaysScan) | _ \<Rightarrow> AlwaysScan)
      | VDate a \<Rightarrow> (case mx of VDate b \<Rightarrow> (case constant of VDate c \<Rightarrow> check_constant_predicate signed_cmp a b c op | _ \<Rightarrow> AlwaysScan) | _ \<Rightarrow> AlwaysScan)
      | VTimestamp a \<Rightarrow> (case mx of VTimestamp b \<Rightarrow> (case constant of VTimestamp c \<Rightarrow> check_constant_predicate signed_cmp a b c op | _ \<Rightarrow> AlwaysScan) | _ \<Rightarrow> AlwaysScan)
      | VTimestampTz a \<Rightarrow> (case mx of VTimestampTz b \<Rightarrow> (case constant of VTimestampTz c \<Rightarrow> check_constant_predicate signed_cmp a b c op | _ \<Rightarrow> AlwaysScan) | _ \<Rightarrow> AlwaysScan)
      | VTimestampNs a \<Rightarrow> (case mx of VTimestampNs b \<Rightarrow> (case constant of VTimestampNs c \<Rightarrow> check_constant_predicate signed_cmp a b c op | _ \<Rightarrow> AlwaysScan) | _ \<Rightarrow> AlwaysScan)
      | VTimestampMs a \<Rightarrow> (case mx of VTimestampMs b \<Rightarrow> (case constant of VTimestampMs c \<Rightarrow> check_constant_predicate signed_cmp a b c op | _ \<Rightarrow> AlwaysScan) | _ \<Rightarrow> AlwaysScan)
      | VTimestampSec a \<Rightarrow> (case mx of VTimestampSec b \<Rightarrow> (case constant of VTimestampSec c \<Rightarrow> check_constant_predicate signed_cmp a b c op | _ \<Rightarrow> AlwaysScan) | _ \<Rightarrow> AlwaysScan)
      | VInternalID a \<Rightarrow> (case mx of VInternalID b \<Rightarrow> (case constant of VInternalID c \<Rightarrow> check_constant_predicate id_cmp a b c op | _ \<Rightarrow> AlwaysScan) | _ \<Rightarrow> AlwaysScan)
      | _ \<Rightarrow> AlwaysScan)"

definition check_zone_map :: "'j column_chunk_stats \<Rightarrow> string \<Rightarrow> 'j db_value \<Rightarrow> zone_map_check_result" where
  "check_zone_map stats op constant =
     (case (stat_min stats, stat_max stats) of
        (Some mn, Some mx) \<Rightarrow> check_values mn mx constant op
      | _ \<Rightarrow> AlwaysScan)"

definition check_null_zone_map :: "'j column_chunk_stats \<Rightarrow> bool \<Rightarrow> zone_map_check_result" where
  "check_null_zone_map stats is_null =
     (if is_null then (if guaranteed_no_nulls stats then SkipScan else AlwaysScan)
      else if guaranteed_all_nulls stats then SkipScan else AlwaysScan)"

section \<open>Keys\<close>

text \<open>
  An ordered value as a kind and a key in one linear order. Floats have no key when they are NaN, and
  the unordered kinds have none.
\<close>

definition vkey :: "'j db_value \<Rightarrow> (nat \<times> int list) option" where
  "vkey v =
     (case v of
        VBool x \<Rightarrow> Some (2, [of_bool x])
      | VInt64 x \<Rightarrow> Some (3, [sint x])
      | VInt32 x \<Rightarrow> Some (4, [sint x])
      | VInt16 x \<Rightarrow> Some (5, [sint x])
      | VInt8 x \<Rightarrow> Some (6, [sint x])
      | VUInt64 x \<Rightarrow> Some (7, [uint x])
      | VUInt32 x \<Rightarrow> Some (8, [uint x])
      | VUInt16 x \<Rightarrow> Some (9, [uint x])
      | VUInt8 x \<Rightarrow> Some (10, [uint x])
      | VInt128 x \<Rightarrow> Some (11, [sint x])
      | VUInt128 x \<Rightarrow> Some (12, [uint x])
      | VDouble x \<Rightarrow> (if f64_is_nan x then None else Some (13, [f64_key x]))
      | VFloat x \<Rightarrow> (if f32_is_nan x then None else Some (14, [f32_key x]))
      | VString x \<Rightarrow> Some (15, map of_char x)
      | VDate x \<Rightarrow> Some (16, [sint x])
      | VTimestamp x \<Rightarrow> Some (17, [sint x])
      | VTimestampTz x \<Rightarrow> Some (18, [sint x])
      | VTimestampNs x \<Rightarrow> Some (19, [sint x])
      | VTimestampMs x \<Rightarrow> Some (20, [sint x])
      | VTimestampSec x \<Rightarrow> Some (21, [sint x])
      | VInternalID x \<Rightarrow> Some (22, [uint (table_id x), uint (offset x)])
      | _ \<Rightarrow> None)"

definition key_cmp :: "(nat \<times> int list) option \<Rightarrow> (nat \<times> int list) option \<Rightarrow> ordering option" where
  "key_cmp a b = (case (a, b) of
     (Some (k, x), Some (l, y)) \<Rightarrow> (if k = l then Some (cmp_lin x y) else None) | _ \<Rightarrow> None)"

lemma of_char_less_int: "(of_char c :: int) < of_char d \<longleftrightarrow> c < d"
  by (metis less_char_def of_nat_less_iff of_nat_of_char)

lemma string_less_key: "map of_char x < (map of_char y :: int list) \<longleftrightarrow> (x :: string) < y"
proof (induction x arbitrary: y)
  case Nil
  show ?case by (cases y) simp_all
next
  case (Cons c x)
  then show ?case by (cases y) (simp_all add: of_char_less_int)
qed

lemma string_eq_key: "map of_char x = (map of_char y :: int list) \<longleftrightarrow> (x :: string) = y"
  by (simp add: inj_map_eq_map inj_def)

lemma cmp_key_simps:
  "cmp_lin (map of_char x :: int list) (map of_char y) = cmp_lin (x :: string) y"
  "cmp_lin [i] [j] = cmp_lin i (j :: int)"
  "cmp_lin [i, k] [j, l] = cmp_lin (i, k) (j, l :: int)"
  "cmp_lin (uint v) (uint w) = cmp_lin v w"
  "cmp_lin (uint a, uint b) (uint c, uint d) = cmp_lin (a, b) (c, d)"
  "cmp_lin False True = cmp_lin 0 (1 :: int)" "cmp_lin True False = cmp_lin 1 (0 :: int)"
  "cmp_lin p p = Equal"
  by (auto simp: cmp_lin_def string_less_key string_eq_key word_less_def word_le_def word_uint_eq_iff)

lemma value_cmp_key: "value_cmp a b = key_cmp (vkey a) (vkey b)"
  by (cases a; simp add: value_cmp_def vkey_def key_cmp_def cmp_key_simps f64_partial_cmp_def f32_partial_cmp_def
      split: db_value.split)

definition vkind :: "'j db_value \<Rightarrow> nat option" where
  "vkind v =
     (case v of
        VBool _ \<Rightarrow> Some 2 | VInt64 _ \<Rightarrow> Some 3 | VInt32 _ \<Rightarrow> Some 4
      | VInt16 _ \<Rightarrow> Some 5 | VInt8 _ \<Rightarrow> Some 6 | VUInt64 _ \<Rightarrow> Some 7
      | VUInt32 _ \<Rightarrow> Some 8 | VUInt16 _ \<Rightarrow> Some 9 | VUInt8 _ \<Rightarrow> Some 10
      | VInt128 _ \<Rightarrow> Some 11 | VUInt128 _ \<Rightarrow> Some 12 | VDouble _ \<Rightarrow> Some 13
      | VFloat _ \<Rightarrow> Some 14 | VString _ \<Rightarrow> Some 15 | VDate _ \<Rightarrow> Some 16
      | VTimestamp _ \<Rightarrow> Some 17 | VTimestampTz _ \<Rightarrow> Some 18 | VTimestampNs _ \<Rightarrow> Some 19
      | VTimestampMs _ \<Rightarrow> Some 20 | VTimestampSec _ \<Rightarrow> Some 21 | VInternalID _ \<Rightarrow> Some 22
      | _ \<Rightarrow> None)"

lemma vkind_key: "vkey v = Some (k, x) \<Longrightarrow> vkind v = Some k"
  by (cases v) (auto simp: vkey_def vkind_def split: if_splits)

text \<open>A value is NaN when it has a kind but no key.\<close>

definition is_nan :: "'j db_value \<Rightarrow> bool" where
  "is_nan v \<longleftrightarrow> vkind v \<noteq> None \<and> vkey v = None"

text \<open>
  The rows a comparison with a constant selects: those of the constant's kind for which the operator
  holds. An unknown operator selects no row.
\<close>

definition op_sat :: "('a \<Rightarrow> 'a \<Rightarrow> ordering option) \<Rightarrow> string \<Rightarrow> 'a \<Rightarrow> 'a \<Rightarrow> bool" where
  "op_sat pc op v c =
     (if op = ''='' \<or> op = ''=='' then op_eq pc v c
      else if op = ''!='' \<or> op = ''<>'' then \<not> op_eq pc v c
      else if op = ''>'' then op_gt pc v c
      else if op = ''>='' then op_ge pc v c
      else if op = ''<'' then op_lt pc v c
      else if op = ''<='' then op_le pc v c
      else False)"

definition sat :: "string \<Rightarrow> 'j db_value \<Rightarrow> 'j db_value \<Rightarrow> bool" where
  "sat op v c \<longleftrightarrow> vkind v \<noteq> None \<and> vkind v = vkind c \<and> op_sat value_cmp op v c"

lemmas op_defs = op_lt_def op_le_def op_eq_def op_gt_def op_ge_def

lemma check_cong:
  assumes "pc c a = pc' z x" "pc c b = pc' z y"
  shows "check_constant_predicate pc a b c op = check_constant_predicate pc' x y z op"
  using assms
  by (simp add: check_constant_predicate_def in_range_def op_defs)

lemma check_unordered:
  assumes "pc c a = None" "pc c b = None"
  shows "check_constant_predicate pc a b c op = SkipScan \<Longrightarrow> op = ''='' \<or> op = ''==''"
  using assms
  by (auto simp: check_constant_predicate_def in_range_def op_defs
      split: if_splits)

lemma vkey_simps:
  "vkey (VBool x0) = Some (2, [of_bool x0])"
  "vkey (VInt64 x1) = Some (3, [sint x1])"
  "vkey (VInt32 x2) = Some (4, [sint x2])"
  "vkey (VInt16 x3) = Some (5, [sint x3])"
  "vkey (VInt8 x4) = Some (6, [sint x4])"
  "vkey (VUInt64 x5) = Some (7, [uint x5])"
  "vkey (VUInt32 x6) = Some (8, [uint x6])"
  "vkey (VUInt16 x7) = Some (9, [uint x7])"
  "vkey (VUInt8 x8) = Some (10, [uint x8])"
  "vkey (VInt128 x9) = Some (11, [sint x9])"
  "vkey (VUInt128 x10) = Some (12, [uint x10])"
  "vkey (VDouble x11) = (if f64_is_nan x11 then None else Some (13, [f64_key x11]))"
  "vkey (VFloat x12) = (if f32_is_nan x12 then None else Some (14, [f32_key x12]))"
  "vkey (VString x13) = Some (15, map of_char x13)"
  "vkey (VDate x14) = Some (16, [sint x14])"
  "vkey (VTimestamp x15) = Some (17, [sint x15])"
  "vkey (VTimestampTz x16) = Some (18, [sint x16])"
  "vkey (VTimestampNs x17) = Some (19, [sint x17])"
  "vkey (VTimestampMs x18) = Some (20, [sint x18])"
  "vkey (VTimestampSec x19) = Some (21, [sint x19])"
  "vkey (VInternalID x20) = Some (22, [uint (table_id x20), uint (offset x20)])"
  "vkey (VBlob bl) = None"
  "vkey (VInterval iv) = None"
  "vkey (VJson j) = None"
  "vkey (VDTime dt) = None"
  "vkey (VUnion tag u) = None"
  "vkey (VList vs) = None"
  "vkey (VMap kvs) = None"
  "vkey (VStruct fs) = None"
  "vkey (VNull) = None"
  by (simp_all add: vkey_def)

lemma vkey_inv:
  "vkey v = Some (2, y) \<longleftrightarrow> (\<exists>b. v = VBool b \<and> y = [of_bool b])"
  "vkey v = Some (3, y) \<longleftrightarrow> (\<exists>b. v = VInt64 b \<and> y = [sint b])"
  "vkey v = Some (4, y) \<longleftrightarrow> (\<exists>b. v = VInt32 b \<and> y = [sint b])"
  "vkey v = Some (5, y) \<longleftrightarrow> (\<exists>b. v = VInt16 b \<and> y = [sint b])"
  "vkey v = Some (6, y) \<longleftrightarrow> (\<exists>b. v = VInt8 b \<and> y = [sint b])"
  "vkey v = Some (7, y) \<longleftrightarrow> (\<exists>b. v = VUInt64 b \<and> y = [uint b])"
  "vkey v = Some (8, y) \<longleftrightarrow> (\<exists>b. v = VUInt32 b \<and> y = [uint b])"
  "vkey v = Some (9, y) \<longleftrightarrow> (\<exists>b. v = VUInt16 b \<and> y = [uint b])"
  "vkey v = Some (10, y) \<longleftrightarrow> (\<exists>b. v = VUInt8 b \<and> y = [uint b])"
  "vkey v = Some (11, y) \<longleftrightarrow> (\<exists>b. v = VInt128 b \<and> y = [sint b])"
  "vkey v = Some (12, y) \<longleftrightarrow> (\<exists>b. v = VUInt128 b \<and> y = [uint b])"
  "vkey v = Some (13, y) \<longleftrightarrow> (\<exists>b. v = VDouble b \<and> y = [f64_key b] \<and> \<not> f64_is_nan b)"
  "vkey v = Some (14, y) \<longleftrightarrow> (\<exists>b. v = VFloat b \<and> y = [f32_key b] \<and> \<not> f32_is_nan b)"
  "vkey v = Some (15, y) \<longleftrightarrow> (\<exists>b. v = VString b \<and> y = map of_char b)"
  "vkey v = Some (16, y) \<longleftrightarrow> (\<exists>b. v = VDate b \<and> y = [sint b])"
  "vkey v = Some (17, y) \<longleftrightarrow> (\<exists>b. v = VTimestamp b \<and> y = [sint b])"
  "vkey v = Some (18, y) \<longleftrightarrow> (\<exists>b. v = VTimestampTz b \<and> y = [sint b])"
  "vkey v = Some (19, y) \<longleftrightarrow> (\<exists>b. v = VTimestampNs b \<and> y = [sint b])"
  "vkey v = Some (20, y) \<longleftrightarrow> (\<exists>b. v = VTimestampMs b \<and> y = [sint b])"
  "vkey v = Some (21, y) \<longleftrightarrow> (\<exists>b. v = VTimestampSec b \<and> y = [sint b])"
  "vkey v = Some (22, y) \<longleftrightarrow> (\<exists>b. v = VInternalID b \<and> y = [uint (table_id b), uint (offset b)])"
  by (cases v; auto simp: vkey_simps)+

lemma check_values_simps:
  "check_values (VBool a0) (VBool b0) c op =
     (case c of VBool c \<Rightarrow> check_constant_predicate partial_cmp a0 b0 c op | _ \<Rightarrow> AlwaysScan)"
  "check_values (VInt64 a1) (VInt64 b1) c op =
     (case c of VInt64 c \<Rightarrow> check_constant_predicate signed_cmp a1 b1 c op | _ \<Rightarrow> AlwaysScan)"
  "check_values (VInt32 a2) (VInt32 b2) c op =
     (case c of VInt32 c \<Rightarrow> check_constant_predicate signed_cmp a2 b2 c op | _ \<Rightarrow> AlwaysScan)"
  "check_values (VInt16 a3) (VInt16 b3) c op =
     (case c of VInt16 c \<Rightarrow> check_constant_predicate signed_cmp a3 b3 c op | _ \<Rightarrow> AlwaysScan)"
  "check_values (VInt8 a4) (VInt8 b4) c op =
     (case c of VInt8 c \<Rightarrow> check_constant_predicate signed_cmp a4 b4 c op | _ \<Rightarrow> AlwaysScan)"
  "check_values (VUInt64 a5) (VUInt64 b5) c op =
     (case c of VUInt64 c \<Rightarrow> check_constant_predicate partial_cmp a5 b5 c op | _ \<Rightarrow> AlwaysScan)"
  "check_values (VUInt32 a6) (VUInt32 b6) c op =
     (case c of VUInt32 c \<Rightarrow> check_constant_predicate partial_cmp a6 b6 c op | _ \<Rightarrow> AlwaysScan)"
  "check_values (VUInt16 a7) (VUInt16 b7) c op =
     (case c of VUInt16 c \<Rightarrow> check_constant_predicate partial_cmp a7 b7 c op | _ \<Rightarrow> AlwaysScan)"
  "check_values (VUInt8 a8) (VUInt8 b8) c op =
     (case c of VUInt8 c \<Rightarrow> check_constant_predicate partial_cmp a8 b8 c op | _ \<Rightarrow> AlwaysScan)"
  "check_values (VInt128 a9) (VInt128 b9) c op =
     (case c of VInt128 c \<Rightarrow> check_constant_predicate signed_cmp a9 b9 c op | _ \<Rightarrow> AlwaysScan)"
  "check_values (VUInt128 a10) (VUInt128 b10) c op =
     (case c of VUInt128 c \<Rightarrow> check_constant_predicate partial_cmp a10 b10 c op | _ \<Rightarrow> AlwaysScan)"
  "check_values (VDouble a11) (VDouble b11) c op =
     (case c of VDouble c \<Rightarrow> check_constant_predicate f64_partial_cmp a11 b11 c op | _ \<Rightarrow> AlwaysScan)"
  "check_values (VFloat a12) (VFloat b12) c op =
     (case c of VFloat c \<Rightarrow> check_constant_predicate f32_partial_cmp a12 b12 c op | _ \<Rightarrow> AlwaysScan)"
  "check_values (VString a13) (VString b13) c op =
     (case c of VString c \<Rightarrow> check_constant_predicate partial_cmp a13 b13 c op | _ \<Rightarrow> AlwaysScan)"
  "check_values (VDate a14) (VDate b14) c op =
     (case c of VDate c \<Rightarrow> check_constant_predicate signed_cmp a14 b14 c op | _ \<Rightarrow> AlwaysScan)"
  "check_values (VTimestamp a15) (VTimestamp b15) c op =
     (case c of VTimestamp c \<Rightarrow> check_constant_predicate signed_cmp a15 b15 c op | _ \<Rightarrow> AlwaysScan)"
  "check_values (VTimestampTz a16) (VTimestampTz b16) c op =
     (case c of VTimestampTz c \<Rightarrow> check_constant_predicate signed_cmp a16 b16 c op | _ \<Rightarrow> AlwaysScan)"
  "check_values (VTimestampNs a17) (VTimestampNs b17) c op =
     (case c of VTimestampNs c \<Rightarrow> check_constant_predicate signed_cmp a17 b17 c op | _ \<Rightarrow> AlwaysScan)"
  "check_values (VTimestampMs a18) (VTimestampMs b18) c op =
     (case c of VTimestampMs c \<Rightarrow> check_constant_predicate signed_cmp a18 b18 c op | _ \<Rightarrow> AlwaysScan)"
  "check_values (VTimestampSec a19) (VTimestampSec b19) c op =
     (case c of VTimestampSec c \<Rightarrow> check_constant_predicate signed_cmp a19 b19 c op | _ \<Rightarrow> AlwaysScan)"
  "check_values (VInternalID a20) (VInternalID b20) c op =
     (case c of VInternalID c \<Rightarrow> check_constant_predicate id_cmp a20 b20 c op | _ \<Rightarrow> AlwaysScan)"
  by (simp_all add: check_values_def)

lemmas pc_defs = partial_cmp_def signed_cmp_def id_cmp_def f64_partial_cmp_def f32_partial_cmp_def cmp_key_simps

lemma check_values_key:
  assumes "vkey mn = Some (k, x)" "vkey mx = Some (k, y)" "vkey c = Some (k, z)"
  shows "check_values mn mx c op = check_constant_predicate partial_cmp x y z op"
proof (cases "k = 2")
  case True
  then obtain p q r where "mn = VBool p" "mx = VBool q" "c = VBool r" "x = [of_bool p]" "y = [of_bool q]" "z = [of_bool r]"
    using assms by (auto simp: vkey_inv)
  then show ?thesis
    by (simp only: check_values_simps db_value.case, intro check_cong) (auto simp: pc_defs)
next
  case False
  then show ?thesis
    using assms
    by (cases mn; simp add: vkey_simps split: if_splits; clarsimp simp: vkey_inv check_values_simps)
      (rule check_cong, (simp add: pc_defs; fail)+)+
qed

lemma check_values_other:
  assumes "vkey mn = Some (k, x)" "vkey mx = Some (k, y)" "vkind c \<noteq> Some k"
  shows "check_values mn mx c op = AlwaysScan"
  using assms
  by (cases mn; clarsimp simp: vkey_simps vkey_inv check_values_simps vkind_def split: if_splits db_value.splits)



lemma check_values_nan:
  assumes "vkey mn = Some (k, x)" "vkey mx = Some (k, y)" "is_nan c" "check_values mn mx c op = SkipScan"
  shows "op = ''='' \<or> op = ''==''"
proof -
  consider b where "c = VDouble b" "f64_is_nan b" | b where "c = VFloat b" "f32_is_nan b"
    using assms(3) by (cases c) (auto simp: is_nan_def vkind_def vkey_simps split: if_splits)
  then show ?thesis
  proof cases
    case 1
    then have "vkind c = Some 13" by (simp add: vkind_def)
    then have "k = 13" using check_values_other [OF assms(1,2), of c op] assms(4) by (cases "k = 13") simp_all
    then obtain lo hi where m: "mn = VDouble lo" "mx = VDouble hi" using assms(1,2) by (auto simp: vkey_inv)
    show ?thesis
      by (rule check_unordered [of f64_partial_cmp b lo hi])
        (use assms(4) m 1 in \<open>simp_all add: check_values_simps f64_partial_cmp_def\<close>)
  next
    case 2
    then have "vkind c = Some 14" by (simp add: vkind_def)
    then have "k = 14" using check_values_other [OF assms(1,2), of c op] assms(4) by (cases "k = 14") simp_all
    then obtain lo hi where m: "mn = VFloat lo" "mx = VFloat hi" using assms(1,2) by (auto simp: vkey_inv)
    show ?thesis
      by (rule check_unordered [of f32_partial_cmp b lo hi])
        (use assms(4) m 2 in \<open>simp_all add: check_values_simps f32_partial_cmp_def\<close>)
  qed
qed

lemma check_values_unordered: "vkind mn = None \<Longrightarrow> check_values mn mx c op = AlwaysScan"
  by (cases mn) (simp_all add: vkind_def check_values_def)

section \<open>Soundness of skipping\<close>

text \<open>
  What the bounds say about a value of the chunk: null values are flagged, and a value with a key lies
  between the bounds of its kind. Both bounds are known together and have the same kind.
\<close>

definition stats_wf :: "'j column_chunk_stats \<Rightarrow> bool" where
  "stats_wf st \<longleftrightarrow> (stat_min st = None \<longleftrightarrow> stat_max st = None) \<and>
     (\<forall>mn mx. stat_min st = Some mn \<longrightarrow> stat_max st = Some mx \<longrightarrow>
        \<not> is_nan mn \<and> \<not> is_nan mx \<and> map_option fst (vkey mn) = map_option fst (vkey mx))"

definition lower_bound :: "'j db_value \<Rightarrow> 'j db_value \<Rightarrow> bool" where
  "lower_bound mn v \<longleftrightarrow> (\<forall>k x y. vkey v = Some (k, x) \<longrightarrow> vkey mn = Some (k, y) \<longrightarrow> y \<le> x)"

definition upper_bound :: "'j db_value \<Rightarrow> 'j db_value \<Rightarrow> bool" where
  "upper_bound mx v \<longleftrightarrow> (\<forall>k x y. vkey v = Some (k, x) \<longrightarrow> vkey mx = Some (k, y) \<longrightarrow> x \<le> y)"

definition covers :: "'j column_chunk_stats \<Rightarrow> 'j db_value \<Rightarrow> bool" where
  "covers st v \<longleftrightarrow>
     (if v = VNull then \<not> guaranteed_no_nulls st
      else \<not> guaranteed_all_nulls st \<and>
        (\<exists>mn mx. stat_min st = Some mn \<and> stat_max st = Some mx \<and> lower_bound mn v \<and> upper_bound mx v))"

lemma op_sat_cong: "pc v c = pc' x z \<Longrightarrow> op_sat pc op v c = op_sat pc' op x z"
  by (simp add: op_sat_def op_defs)

lemma skip_key:
  assumes "check_constant_predicate partial_cmp a b z op = SkipScan" "a \<le> x" "x \<le> b"
  shows "\<not> op_sat partial_cmp op x z"
  using assms
  by (auto simp: check_constant_predicate_def op_sat_def in_range_def op_defs partial_cmp_def split: if_split_asm)

lemma skip_sound:
  assumes "stats_wf st" "covers st v" "\<not> is_nan v" "check_zone_map st op c = SkipScan"
  shows "\<not> sat op v c"
proof
  assume sat: "sat op v c"
  obtain k x where v: "vkey v = Some (k, x)"
    using sat assms(3) by (cases "vkey v") (auto simp: sat_def is_nan_def)
  then have kind: "vkind c = Some k" using vkind_key [OF v] sat by (simp add: sat_def)
  obtain mn mx where st: "stat_min st = Some mn" "stat_max st = Some mx" and chk: "check_values mn mx c op = SkipScan"
    using assms(4) by (auto simp: check_zone_map_def split: option.splits)
  have wf: "\<not> is_nan mn" "map_option fst (vkey mn) = map_option fst (vkey mx)"
    using assms(1) st by (auto simp: stats_wf_def)
  obtain l a where mn: "vkey mn = Some (l, a)"
    using wf(1) chk check_values_unordered [of mn mx c op] by (cases "vkey mn") (auto simp: is_nan_def)
  then obtain b where mx: "vkey mx = Some (l, b)" using wf(2) by (cases "vkey mx") auto
  have l: "l = k" using check_values_other [OF mn mx, of c op] chk kind by (cases "l = k") simp_all
  have "v \<noteq> VNull" using v by (auto simp: vkey_simps)
  then have bnd: "a \<le> x" "x \<le> b"
    using assms(2) st v mn mx l by (auto simp: covers_def lower_bound_def upper_bound_def)
  show False
  proof (cases "vkey c")
    case None
    then have "op = ''='' \<or> op = ''==''"
      using check_values_nan [OF mn mx _ chk] kind by (simp add: is_nan_def)
    then show False using None sat by (auto simp: sat_def op_sat_def op_eq_def value_cmp_key key_cmp_def v)
  next
    case (Some lz)
    then obtain z where c: "vkey c = Some (k, z)" using vkind_key [of c] kind by (cases lz) auto
    have "check_constant_predicate partial_cmp a b z op = SkipScan"
      using check_values_key [OF mn mx] c l chk by simp
    from skip_key [OF this bnd] have "\<not> op_sat partial_cmp op x z" .
    then have "\<not> op_sat value_cmp op v c"
      using op_sat_cong [of value_cmp v c partial_cmp x z] by (simp add: value_cmp_key key_cmp_def v c partial_cmp_def)
    then show False using sat by (simp add: sat_def)
  qed
qed

lemma value_less:
  "value_cmp a b = Some Less \<longleftrightarrow> (\<exists>k x y. vkey a = Some (k, x) \<and> vkey b = Some (k, y) \<and> x < y)"
  by (auto simp: value_cmp_key key_cmp_def split: option.splits prod.splits)

lemma value_greater:
  "value_cmp a b = Some Greater \<longleftrightarrow> (\<exists>k x y. vkey a = Some (k, x) \<and> vkey b = Some (k, y) \<and> y < x)"
  by (auto simp: value_cmp_key key_cmp_def split: option.splits prod.splits)

lemma bound_refl [simp]: "lower_bound v v" "upper_bound v v"
  by (simp_all add: lower_bound_def upper_bound_def)

lemma bound_step:
  shows lower_bound_step: "lower_bound mn w \<Longrightarrow> lower_bound (if value_cmp v mn = Some Less then v else mn) w"
    and upper_bound_step: "upper_bound mx w \<Longrightarrow> upper_bound (if value_cmp v mx = Some Greater then v else mx) w"
proof -
  assume lo: "lower_bound mn w"
  have "lower_bound v w" if less: "value_cmp v mn = Some Less"
  proof -
    obtain k x y where "vkey v = Some (k, x)" "vkey mn = Some (k, y)" "x < y" using less by (auto simp: value_less)
    then show ?thesis using lo by (auto simp: lower_bound_def)
  qed
  then show "lower_bound (if value_cmp v mn = Some Less then v else mn) w" using lo by simp
next
  assume hi: "upper_bound mx w"
  have "upper_bound v w" if greater: "value_cmp v mx = Some Greater"
  proof -
    obtain k x y where "vkey v = Some (k, x)" "vkey mx = Some (k, y)" "y < x" using greater by (auto simp: value_greater)
    then show ?thesis using hi by (auto simp: upper_bound_def)
  qed
  then show "upper_bound (if value_cmp v mx = Some Greater then v else mx) w" using hi by simp
qed

lemma bound_new:
  "lower_bound (if value_cmp v mn = Some Less then v else mn) v"
  "upper_bound (if value_cmp v mx = Some Greater then v else mx) v"
  by (auto simp: lower_bound_def upper_bound_def value_less value_greater not_less)

lemma bound_kind:
  "value_cmp v m = Some r \<Longrightarrow> map_option fst (vkey v) = map_option fst (vkey m)"
  by (auto simp: value_cmp_key key_cmp_def split: option.splits prod.splits if_splits)

text \<open>An update never panics on well-formed bounds, keeps them well-formed, covers the new value and keeps
  covering the old ones.\<close>

lemma stats_update_covers:
  assumes wf: "stats_wf st" and v: "\<not> is_nan v"
  obtains st' where "stats_update v st = Some st'" "stats_wf st'" "covers st' v" "\<And>w. covers st w \<Longrightarrow> covers st' w"
proof (cases "stat_min st")
  case None
  then have mx: "stat_max st = None" using wf by (simp add: stats_wf_def)
  show ?thesis
  proof (cases "v = VNull")
    case True
    with None mx show ?thesis
      by (intro that [of "st\<lparr>guaranteed_no_nulls := False\<rparr>"]) (auto simp: stats_update_def stats_wf_def covers_def split: if_splits)
  next
    case False
    with None mx v show ?thesis
      by (intro that [of "st\<lparr>guaranteed_all_nulls := False, stat_min := Some v, stat_max := Some v\<rparr>"])
        (auto simp: stats_update_def stats_wf_def covers_def split: if_splits)
  qed
next
  case (Some mn)
  then obtain mx where mx: "stat_max st = Some mx" using wf by (auto simp: stats_wf_def)
  have wf': "\<not> is_nan mn" "\<not> is_nan mx" "map_option fst (vkey mn) = map_option fst (vkey mx)"
    using wf Some mx by (auto simp: stats_wf_def)
  show ?thesis
  proof (cases "v = VNull")
    case True
    with Some mx wf' show ?thesis
      by (intro that [of "st\<lparr>guaranteed_no_nulls := False\<rparr>"]) (auto simp: stats_update_def stats_wf_def covers_def split: if_splits)
  next
    case False
    define st' where "st' = st\<lparr>guaranteed_all_nulls := False,
      stat_min := Some (if value_cmp v mn = Some Less then v else mn),
      stat_max := Some (if value_cmp v mx = Some Greater then v else mx)\<rparr>"
    show ?thesis
    proof (rule that)
      show "stats_update v st = Some st'" using False Some mx by (simp add: stats_update_def st'_def)
      show "stats_wf st'"
        using wf' v bound_kind [of v mn] bound_kind [of v mx] by (auto simp: stats_wf_def st'_def)
      show "covers st' v" using False by (simp add: covers_def st'_def bound_new)
      show "covers st' w" if "covers st w" for w
        using that Some mx
        by (cases "w = VNull") (simp_all add: covers_def st'_def lower_bound_step upper_bound_step)
    qed
  qed
qed

end
