(* ===== verification/Column_Chunk.thy ===== *)
theory Column_Chunk
  imports Versions Zone_Map
begin

text \<open>
  Column chunks (\<^verbatim>\<open>akar-storage/src/column_chunk.rs\<close>): the buffered values of a column, their version
  chains and their zone-map bounds. The JSON encoder and decoder of values belong to another crate
  and are the parameters \<open>enc\<close> and \<open>dec\<close>. A result is \<open>None\<close> where the code panics and \<open>Inl\<close> an error where
  it returns one. Writing the buffer to a column file and the conversion to Arrow arrays are not
  modelled.
\<close>

datatype storage_error =
    IndexOutOfBounds nat nat
  | ColumnCountMismatch nat nat
  | GroupFull
  | NoSpiller
  | SpillFailed string

record 'j column_chunk =
  cc_values :: "'j db_value list"
  cc_capacity :: nat
  cc_update_info :: "update_info option"
  cc_stats :: "'j column_chunk_stats"

definition NODE_GROUP_SIZE :: nat where
  "NODE_GROUP_SIZE = 4096"

definition cc_with_capacity :: "nat \<Rightarrow> 'j column_chunk" where
  "cc_with_capacity capacity =
     \<lparr>cc_values = [], cc_capacity = capacity, cc_update_info = None, cc_stats = stats_new None None\<rparr>"

definition chunk_new :: "'j column_chunk" where
  "chunk_new =
     \<lparr>cc_values = [], cc_capacity = NODE_GROUP_SIZE, cc_update_info = None, cc_stats = stats_new None None\<rparr>"

definition enable_update_info :: "'j column_chunk \<Rightarrow> 'j column_chunk" where
  "enable_update_info c =
     (case cc_update_info c of
        None \<Rightarrow> c\<lparr>cc_update_info := Some (ui_new (cc_capacity c))\<rparr>
      | Some _ \<Rightarrow> c)"

definition cc_append :: "'j db_value \<Rightarrow> 'j column_chunk \<Rightarrow> 'j column_chunk option" where
  "cc_append v c =
     (case stats_update v (cc_stats c) of
        None \<Rightarrow> None
      | Some st \<Rightarrow> Some (c\<lparr>cc_stats := st, cc_values := cc_values c @ [v]\<rparr>))"

definition cc_set_value :: "nat \<Rightarrow> 'j db_value \<Rightarrow> 'j column_chunk \<Rightarrow> (storage_error + 'j column_chunk) option" where
  "cc_set_value idx v c =
     (if idx \<ge> length (cc_values c) then Some (Inl (IndexOutOfBounds idx (length (cc_values c))))
      else case stats_update v (cc_stats c) of
             None \<Rightarrow> None
           | Some st \<Rightarrow> Some (Inr (c\<lparr>cc_stats := st, cc_values := (cc_values c)[idx := v]\<rparr>)))"

definition serialize_value_for_version :: "('j db_value \<Rightarrow> bytes option) \<Rightarrow> 'j db_value \<Rightarrow> bytes" where
  "serialize_value_for_version enc v = (case enc v of Some b \<Rightarrow> b | None \<Rightarrow> [])"

definition set_value_with_version ::
  "('j db_value \<Rightarrow> bytes option) \<Rightarrow> nat \<Rightarrow> 'j db_value \<Rightarrow> u64 \<Rightarrow> 'j column_chunk
     \<Rightarrow> (storage_error + 'j column_chunk) option" where
  "set_value_with_version enc idx v version c =
     (if idx \<ge> length (cc_values c) then Some (Inl (IndexOutOfBounds idx (length (cc_values c))))
      else
        let c1 = (case cc_update_info c of
                    Some ui \<Rightarrow>
                      c\<lparr>cc_update_info := Some (append_update (word_of_nat idx) version
                          (serialize_value_for_version enc (cc_values c ! idx)) ui)\<rparr>
                  | None \<Rightarrow> c)
        in case stats_update v (cc_stats c1) of
             None \<Rightarrow> None
           | Some st \<Rightarrow> Some (Inr (c1\<lparr>cc_stats := st, cc_values := (cc_values c1)[idx := v]\<rparr>)))"

definition cc_get :: "nat \<Rightarrow> 'j column_chunk \<Rightarrow> 'j db_value option" where
  "cc_get idx c = (if idx < length (cc_values c) then Some (cc_values c ! idx) else None)"

text \<open>The by-reference read looks the version up and ignores it.\<close>

definition get_value_with_snapshot :: "nat \<Rightarrow> u64 option \<Rightarrow> 'j column_chunk \<Rightarrow> 'j db_value option" where
  "get_value_with_snapshot idx snapshot c =
     (if idx \<ge> length (cc_values c) then None
      else case snapshot of
             None \<Rightarrow> cc_get idx c
           | Some ts \<Rightarrow>
               (let ignored = (case cc_update_info c of Some ui \<Rightarrow> get_version (word_of_nat idx) ts ui | None \<Rightarrow> None)
                in cc_get idx c))"

definition get_value_owned_with_snapshot ::
  "(bytes \<Rightarrow> 'j db_value option) \<Rightarrow> nat \<Rightarrow> u64 option \<Rightarrow> 'j column_chunk \<Rightarrow> 'j db_value option" where
  "get_value_owned_with_snapshot dec idx snapshot c =
     (if idx \<ge> length (cc_values c) then None
      else case snapshot of
             None \<Rightarrow> Some (cc_values c ! idx)
           | Some ts \<Rightarrow>
               (case (case cc_update_info c of
                        Some ui \<Rightarrow>
                          (case get_version (word_of_nat idx) ts ui of
                             Some old_data \<Rightarrow> dec old_data
                           | None \<Rightarrow> None)
                      | None \<Rightarrow> None) of
                  Some old_value \<Rightarrow> Some old_value
                | None \<Rightarrow> Some (cc_values c ! idx)))"

definition cc_is_full :: "'j column_chunk \<Rightarrow> bool" where
  "cc_is_full c = (length (cc_values c) \<ge> cc_capacity c)"

definition cc_drain :: "'j column_chunk \<Rightarrow> 'j db_value list \<times> 'j column_chunk" where
  "cc_drain c = (cc_values c, c\<lparr>cc_values := []\<rparr>)"

text \<open>The slice panics when it starts after its end.\<close>

definition cc_scan :: "nat \<Rightarrow> nat \<Rightarrow> 'j column_chunk \<Rightarrow> 'j db_value list option" where
  "cc_scan start count c =
     (let stop = min (start + count) (length (cc_values c))
      in if start > stop then None else Some (take (stop - start) (drop start (cc_values c))))"

definition cc_clear :: "'j column_chunk \<Rightarrow> 'j column_chunk" where
  "cc_clear c = c\<lparr>cc_values := []\<rparr>"

definition cc_remaining :: "'j column_chunk \<Rightarrow> nat" where
  "cc_remaining c = cc_capacity c - length (cc_values c)"

fun stats_update_all :: "'j db_value list \<Rightarrow> 'j column_chunk_stats \<Rightarrow> 'j column_chunk_stats option" where
  "stats_update_all [] st = Some st"
| "stats_update_all (v # vs) st = (case stats_update v st of None \<Rightarrow> None | Some st' \<Rightarrow> stats_update_all vs st')"

definition cc_from :: "'j db_value list \<Rightarrow> 'j column_chunk option" where
  "cc_from vs =
     (case stats_update_all vs (stats_new None None) of
        None \<Rightarrow> None
      | Some st \<Rightarrow>
          Some \<lparr>cc_values = vs, cc_capacity = max (length vs) NODE_GROUP_SIZE, cc_update_info = None, cc_stats = st\<rparr>)"

section \<open>Snapshot reads against a history of writes\<close>

text \<open>
  A history is a list of versioned writes in the order they are applied. What a snapshot should see of
  a row is the last write of that row at or before the snapshot, and the initial value if there is
  none.
\<close>

type_synonym 'j versioned_write = "nat \<times> 'j db_value \<times> u64"

fun value_at :: "nat \<Rightarrow> u64 \<Rightarrow> 'j db_value \<Rightarrow> 'j versioned_write list \<Rightarrow> 'j db_value" where
  "value_at idx ts v [] = v"
| "value_at idx ts v ((i, w, version) # ws) =
     value_at idx ts (if i = idx \<and> version \<le> ts then w else v) ws"

fun apply_writes ::
  "('j db_value \<Rightarrow> bytes option) \<Rightarrow> 'j versioned_write list \<Rightarrow> 'j column_chunk \<Rightarrow> (storage_error + 'j column_chunk) option" where
  "apply_writes enc [] c = Some (Inr c)"
| "apply_writes enc ((i, w, version) # ws) c =
     (case set_value_with_version enc i w version c of
        Some (Inr c') \<Rightarrow> apply_writes enc ws c'
      | r \<Rightarrow> r)"

text \<open>An update of the bounds panics only when one bound is known and the other is not.\<close>

definition bounds_paired :: "'j column_chunk_stats \<Rightarrow> bool" where
  "bounds_paired st \<longleftrightarrow> (stat_min st = None \<longleftrightarrow> stat_max st = None)"

lemma stats_update_total:
  assumes "bounds_paired st"
  obtains st' where "stats_update v st = Some st'" "bounds_paired st'"
  using assms that [of "the (stats_update v st)"]
  by (cases "stat_min st"; cases "stat_max st") (auto simp: stats_update_def bounds_paired_def)

lemma value_at_append:
  "value_at idx ts v (xs @ ys) = value_at idx ts (value_at idx ts v xs) ys"
  by (induction idx ts v xs rule: value_at.induct) auto

lemma apply_writes_append:
  "apply_writes enc (xs @ ys) c =
     (case apply_writes enc xs c of Some (Inr c') \<Rightarrow> apply_writes enc ys c' | r \<Rightarrow> r)"
  by (induction enc xs c rule: apply_writes.induct) (auto split: option.splits sum.splits)

lemma vector_of_index:
  assumes "ui_vector_size ui = 1024" "i < 2 ^ 32"
  shows "ui_vector_idx ui (word_of_nat i) = i div 1024"
  using assms by (simp add: ui_vector_idx_def unat_div unat_of_nat take_bit_nat_eq_self)

text \<open>One versioned write, when it is in range.\<close>

lemma set_version_step:
  assumes "cc_update_info c = Some ui" "ui_vector_size ui = 1024" "bounds_paired (cc_stats c)"
    "i < length (cc_values c)" "i < 2 ^ 32" "enc (cc_values c ! i) = Some b"
  obtains c' ui' where "set_value_with_version enc i w version c = Some (Inr c')"
    "cc_update_info c' = Some ui'" "ui_vector_size ui' = 1024" "bounds_paired (cc_stats c')"
    "cc_values c' = (cc_values c)[i := w]"
    "\<And>j. chain_of ui' j = (if j = i div 1024 then (version, b) # chain_of ui j else chain_of ui j)"
proof -
  obtain st' where st': "stats_update w (cc_stats c) = Some st'" "bounds_paired st'"
    using stats_update_total [OF assms(3)] .
  let ?ui = "append_update (word_of_nat i) version b ui"
  show ?thesis
    by (rule that [of "c\<lparr>cc_update_info := Some ?ui, cc_stats := st', cc_values := (cc_values c)[i := w]\<rparr>" ?ui])
      (use assms st' in \<open>simp_all add: set_value_with_version_def serialize_value_for_version_def
          chain_of_append vector_of_index\<close>)
qed

text \<open>
  The state of a chunk after a history, seen from one row: its latest value, and a chain whose search
  gives the value of the snapshot.
\<close>

definition row_tracked ::
  "(bytes \<Rightarrow> 'j db_value option) \<Rightarrow> nat \<Rightarrow> 'j db_value \<Rightarrow> 'j versioned_write list \<Rightarrow> 'j column_chunk \<Rightarrow> bool" where
  "row_tracked dec idx v ws c \<longleftrightarrow>
     (\<exists>ui. cc_update_info c = Some ui \<and> ui_vector_size ui = 1024 \<and>
        (\<forall>ts. (case chain_search (chain_of ui (idx div 1024)) ts None of
                None \<Rightarrow> Some (cc_values c ! idx) | Some d \<Rightarrow> dec d) = Some (value_at idx ts v ws)))"

lemma row_tracked_read:
  assumes "row_tracked dec idx v ws c" "idx < length (cc_values c)" "idx < 2 ^ 32"
  shows "get_value_owned_with_snapshot dec idx (Some ts) c = Some (value_at idx ts v ws)"
proof -
  obtain ui where ui: "cc_update_info c = Some ui" "ui_vector_size ui = 1024"
    and r: "(case chain_search (chain_of ui (idx div 1024)) ts None of
        None \<Rightarrow> Some (cc_values c ! idx) | Some d \<Rightarrow> dec d) = Some (value_at idx ts v ws)"
    using assms(1) by (auto simp: row_tracked_def)
  show ?thesis
    using r assms(2,3) ui
    by (simp add: get_value_owned_with_snapshot_def get_version_chain vector_of_index split: option.splits)
qed

lemma row_tracked_step:
  assumes tr: "row_tracked dec idx v ws c" and len: "i < length (cc_values c)" "i < 2 ^ 32"
    and st: "bounds_paired (cc_stats c)" and enc: "enc (cc_values c ! i) = Some b" "dec b = Some (cc_values c ! i)"
    and own: "i div 1024 = idx div 1024 \<Longrightarrow> i = idx"
  obtains c' where "set_value_with_version enc i w version c = Some (Inr c')"
    "row_tracked dec idx v (ws @ [(i, w, version)]) c'" "cc_values c' = (cc_values c)[i := w]"
    "bounds_paired (cc_stats c')"
proof -
  obtain ui where ui: "cc_update_info c = Some ui" "ui_vector_size ui = 1024"
    and r: "\<And>ts. (case chain_search (chain_of ui (idx div 1024)) ts None of
        None \<Rightarrow> Some (cc_values c ! idx) | Some d \<Rightarrow> dec d) = Some (value_at idx ts v ws)"
    using tr by (auto simp: row_tracked_def)
  obtain c' ui' where c': "set_value_with_version enc i w version c = Some (Inr c')"
    "cc_update_info c' = Some ui'" "ui_vector_size ui' = 1024" "bounds_paired (cc_stats c')"
    "cc_values c' = (cc_values c)[i := w]"
    "\<And>j. chain_of ui' j = (if j = i div 1024 then (version, b) # chain_of ui j else chain_of ui j)"
    using set_version_step [where enc = enc and w = w and version = version, OF ui(1,2) st len enc(1)] by blast
  have "(case chain_search (chain_of ui' (idx div 1024)) ts None of
      None \<Rightarrow> Some (cc_values c' ! idx) | Some d \<Rightarrow> dec d) = Some (value_at idx ts v (ws @ [(i, w, version)]))" for ts
  proof (cases "i = idx")
    case True
    then show ?thesis
      using r [of ts] len enc
      by (cases "version \<le> ts") (auto simp: c' value_at_append chain_search_prev [of _ _ "Some b"] split: option.splits)
  next
    case False
    then have "idx div 1024 \<noteq> i div 1024" using own by metis
    then show ?thesis using False r [of ts] by (simp add: c' value_at_append split: option.splits)
  qed
  then show ?thesis using that c' by (auto simp: row_tracked_def)
qed

lemma history_tracked:
  assumes "row_tracked dec idx v [] c" "bounds_paired (cc_stats c)" "length (cc_values c) \<le> 2 ^ 32"
    "\<And>x. x \<in> set (cc_values c) \<union> (fst \<circ> snd) ` set ws \<Longrightarrow> \<exists>b. enc x = Some b \<and> dec b = Some x"
    "\<And>i w version. (i, w, version) \<in> set ws \<Longrightarrow> i < length (cc_values c) \<and> (i div 1024 = idx div 1024 \<longrightarrow> i = idx)"
  shows "\<exists>c'. apply_writes enc ws c = Some (Inr c') \<and> row_tracked dec idx v ws c' \<and> bounds_paired (cc_stats c') \<and>
    length (cc_values c') = length (cc_values c) \<and> set (cc_values c') \<subseteq> set (cc_values c) \<union> (fst \<circ> snd) ` set ws"
  using assms
proof (induction ws rule: rev_induct)
  case (snoc wr ws)
  obtain i w version where wr: "wr = (i, w, version)" by (cases wr)
  have "\<exists>c'. apply_writes enc ws c = Some (Inr c') \<and> row_tracked dec idx v ws c' \<and> bounds_paired (cc_stats c') \<and>
    length (cc_values c') = length (cc_values c) \<and> set (cc_values c') \<subseteq> set (cc_values c) \<union> (fst \<circ> snd) ` set ws"
    by (rule snoc.IH) (use snoc.prems in auto)
  then obtain c1 where c1: "apply_writes enc ws c = Some (Inr c1)" "row_tracked dec idx v ws c1"
    "bounds_paired (cc_stats c1)" "length (cc_values c1) = length (cc_values c)"
    "set (cc_values c1) \<subseteq> set (cc_values c) \<union> (fst \<circ> snd) ` set ws" by blast
  have i: "i < length (cc_values c1)" "i < 2 ^ 32" "i div 1024 = idx div 1024 \<Longrightarrow> i = idx"
    using snoc.prems(3) snoc.prems(5) [of i w version] c1(4) by (auto simp: wr)
  then have "cc_values c1 ! i \<in> set (cc_values c) \<union> (fst \<circ> snd) ` set (ws @ [wr])"
    using c1(5) by (force dest: nth_mem)
  then obtain b where b: "enc (cc_values c1 ! i) = Some b" "dec b = Some (cc_values c1 ! i)"
    using snoc.prems(4) by blast
  obtain c2 where c2: "set_value_with_version enc i w version c1 = Some (Inr c2)"
    "row_tracked dec idx v (ws @ [(i, w, version)]) c2" "cc_values c2 = (cc_values c1)[i := w]"
    "bounds_paired (cc_stats c2)"
    using row_tracked_step [where enc = enc and w = w and version = version, OF c1(2) i(1,2) c1(3) b i(3)] by blast
  have "set (cc_values c2) \<subseteq> insert w (set (cc_values c1))"
    unfolding c2(3) by (rule set_update_subset_insert)
  then show ?case
    using c1 c2 by (auto simp: apply_writes_append wr)
qed auto

text \<open>C17. A snapshot read returns what the history says. Take a chunk on which update tracking was just
  enabled, and apply any sequence of versioned writes in range in which no other row of the row's
  vector of 1024 is written. If the value encoder and decoder are inverse on the values involved, no
  write fails and a read of the row at any snapshot gives the last write at or before the snapshot,
  or the initial value if there is none.
\<close>

theorem snapshot_read_history:
  assumes "cc_update_info c = None" "bounds_paired (cc_stats c)" "length (cc_values c) \<le> 2 ^ 32"
    and "idx < length (cc_values c)"
    and "\<And>x. x \<in> set (cc_values c) \<union> (fst \<circ> snd) ` set ws \<Longrightarrow> \<exists>b. enc x = Some b \<and> dec b = Some x"
    and "\<And>i w version. (i, w, version) \<in> set ws \<Longrightarrow>
      i < length (cc_values c) \<and> (i div 1024 = idx div 1024 \<longrightarrow> i = idx)"
  shows "\<exists>c'. apply_writes enc ws (enable_update_info c) = Some (Inr c') \<and>
    (\<forall>ts. get_value_owned_with_snapshot dec idx (Some ts) c' = Some (value_at idx ts (cc_values c ! idx) ws))"
proof -
  have "row_tracked dec idx (cc_values c ! idx) [] (enable_update_info c)"
    using assms(1) by (simp add: row_tracked_def enable_update_info_def ui_new_def chain_of_def)
  then have "\<exists>c'. apply_writes enc ws (enable_update_info c) = Some (Inr c') \<and>
      row_tracked dec idx (cc_values c ! idx) ws c' \<and> bounds_paired (cc_stats c') \<and>
      length (cc_values c') = length (cc_values (enable_update_info c)) \<and>
      set (cc_values c') \<subseteq> set (cc_values (enable_update_info c)) \<union> (fst \<circ> snd) ` set ws"
    by (rule history_tracked) (use assms in \<open>simp_all add: enable_update_info_def\<close>)
  then show ?thesis
    using row_tracked_read assms(1,3,4) by (force simp: enable_update_info_def)
qed

definition byte_enc :: "unit db_value \<Rightarrow> bytes option" where
  "byte_enc v = (case v of VInt64 w \<Rightarrow> (if w < 256 then Some [ucast w] else None) | _ \<Rightarrow> None)"

definition byte_dec :: "bytes \<Rightarrow> unit db_value option" where
  "byte_dec bs = (case bs of [b] \<Rightarrow> Some (VInt64 (ucast b)) | _ \<Rightarrow> None)"

lemma byte_ucast: "w < 256 \<Longrightarrow> ucast (ucast (w :: u64) :: u8) = w"
  by (simp add: word_unat_eq_iff unsigned_ucast_eq word_less_nat_alt take_bit_eq_mod unsigned_take_bit_eq unat_mod)

theorem snapshot_read_history_witness:
  "\<exists>c'. apply_writes byte_enc [(1, VInt64 7, 5), (1, VInt64 8, 9)]
      (enable_update_info (chunk_new\<lparr>cc_values := [VInt64 3, VInt64 4]\<rparr>)) = Some (Inr c') \<and>
    get_value_owned_with_snapshot byte_dec 1 (Some 4) c' = Some (VInt64 4) \<and>
    get_value_owned_with_snapshot byte_dec 1 (Some 6) c' = Some (VInt64 7) \<and>
    get_value_owned_with_snapshot byte_dec 1 (Some 9) c' = Some (VInt64 8)"
proof -
  have "\<exists>c'. apply_writes byte_enc [(1, VInt64 7, 5), (1, VInt64 8, 9)]
      (enable_update_info (chunk_new\<lparr>cc_values := [VInt64 3, VInt64 4]\<rparr>)) = Some (Inr c') \<and>
    (\<forall>ts. get_value_owned_with_snapshot byte_dec 1 (Some ts) c' =
      Some (value_at 1 ts (cc_values (chunk_new\<lparr>cc_values := [VInt64 3, VInt64 4]\<rparr>) ! 1) [(1, VInt64 7, 5), (1, VInt64 8, 9)]))"
    by (rule snapshot_read_history)
      (auto simp: chunk_new_def stats_new_def bounds_paired_def byte_enc_def byte_dec_def)
  then show ?thesis by auto
qed

text \<open>The version chain is shared by the 1024 rows of a vector. After one versioned write of row 1, a
  read of row 0 at an older snapshot returns the old value of row 1 instead of the value of row 0,
  which was never written.
\<close>

theorem foreign_version_read:
  "let c = enable_update_info (chunk_new\<lparr>cc_values := [VInt64 3, VInt64 4]\<rparr>)
   in case set_value_with_version byte_enc 1 (VInt64 7) 5 c of
        Some (Inr c') \<Rightarrow>
          cc_get 0 c' = Some (VInt64 3) \<and>
          get_value_owned_with_snapshot byte_dec 0 (Some 4) c' = Some (VInt64 4)
      | _ \<Rightarrow> False"
  by (simp add: enable_update_info_def chunk_new_def stats_new_def set_value_with_version_def stats_update_def
      cc_get_def get_value_owned_with_snapshot_def get_version_chain chain_of_append ui_new_def vector_of_index
      serialize_value_for_version_def byte_enc_def byte_dec_def Let_def chain_of_def ui_vector_idx_def append_update_def
      div_ceil_def NODE_GROUP_SIZE_def)

section \<open>Skipping a chunk is sound\<close>

text \<open>
  The chunks a program can build from values that are not NaN, and what their bounds cover: the
  buffered values, and the replaced values that the version chains still hold. \<open>codec_ok\<close> is what is
  relied on of the encoder and decoder: what is decoded is what was encoded, and the empty input is
  not an encoding.
\<close>

definition codec_ok :: "('j db_value \<Rightarrow> bytes option) \<Rightarrow> (bytes \<Rightarrow> 'j db_value option) \<Rightarrow> bool" where
  "codec_ok enc dec \<longleftrightarrow> (\<forall>v b x. enc v = Some b \<longrightarrow> dec b = Some x \<longrightarrow> x = v) \<and> dec [] = None"

inductive chunk_step :: "('j db_value \<Rightarrow> bytes option) \<Rightarrow> 'j column_chunk \<Rightarrow> 'j column_chunk \<Rightarrow> bool"
  for enc :: "'j db_value \<Rightarrow> bytes option" where
  append: "cc_append v c = Some c' \<Longrightarrow> \<not> is_nan v \<Longrightarrow> chunk_step enc c c'"
| set: "cc_set_value i v c = Some (Inr c') \<Longrightarrow> \<not> is_nan v \<Longrightarrow> chunk_step enc c c'"
| set_version: "set_value_with_version enc i v version c = Some (Inr c') \<Longrightarrow> \<not> is_nan v \<Longrightarrow> chunk_step enc c c'"
| enable: "chunk_step enc c (enable_update_info c)"
| drain: "chunk_step enc c (snd (cc_drain c))"
| clear: "chunk_step enc c (cc_clear c)"

definition chunk_initial :: "'j column_chunk \<Rightarrow> bool" where
  "chunk_initial c \<longleftrightarrow> c = chunk_new \<or> (\<exists>n. c = cc_with_capacity n) \<or>
     (\<exists>vs. cc_from vs = Some c \<and> (\<forall>v\<in>set vs. \<not> is_nan v))"

definition fits :: "'j column_chunk_stats \<Rightarrow> 'j db_value \<Rightarrow> bool" where
  "fits st v \<longleftrightarrow> covers st v \<and> \<not> is_nan v"

definition chain_fits :: "(bytes \<Rightarrow> 'j db_value option) \<Rightarrow> 'j column_chunk_stats \<Rightarrow> update_info \<Rightarrow> bool" where
  "chain_fits dec st ui \<longleftrightarrow> (\<forall>i. \<forall>n\<in>set (chain_of ui i). \<forall>x. dec (snd n) = Some x \<longrightarrow> fits st x)"

definition chunk_inv :: "(bytes \<Rightarrow> 'j db_value option) \<Rightarrow> 'j column_chunk \<Rightarrow> bool" where
  "chunk_inv dec c \<longleftrightarrow> stats_wf (cc_stats c) \<and> (\<forall>v\<in>set (cc_values c). fits (cc_stats c) v) \<and>
     (\<forall>ui. cc_update_info c = Some ui \<longrightarrow> chain_fits dec (cc_stats c) ui)"

lemma stats_update_fits:
  assumes "stats_update v st = Some st'" "stats_wf st" "\<not> is_nan v"
  shows "stats_wf st'" "fits st' v" "\<And>w. fits st w \<Longrightarrow> fits st' w" "\<And>ui. chain_fits dec st ui \<Longrightarrow> chain_fits dec st' ui"
proof -
  obtain st1 where st1: "stats_update v st = Some st1" "stats_wf st1" "covers st1 v" "\<And>w. covers st w \<Longrightarrow> covers st1 w"
    using stats_update_covers [OF assms(2,3)] by blast
  have "st1 = st'" using st1(1) assms(1) by simp
  then show "stats_wf st'" "fits st' v" "\<And>w. fits st w \<Longrightarrow> fits st' w"
    using st1 assms(3) by (auto simp: fits_def)
  then show "\<And>ui. chain_fits dec st ui \<Longrightarrow> chain_fits dec st' ui" by (auto simp: chain_fits_def)
qed

lemma new_inv: "chunk_inv dec chunk_new" "chunk_inv dec (cc_with_capacity n)"
  by (simp_all add: chunk_inv_def chunk_new_def cc_with_capacity_def stats_new_def stats_wf_def)

lemma update_all_fits:
  assumes "stats_update_all vs st = Some st'" "stats_wf st" "\<forall>v\<in>set vs. \<not> is_nan v"
  shows "stats_wf st' \<and> (\<forall>v\<in>set vs. fits st' v) \<and> (\<forall>w. fits st w \<longrightarrow> fits st' w)"
  using assms
proof (induction vs arbitrary: st)
  case (Cons v vs)
  obtain st1 where st1: "stats_update v st = Some st1" "stats_update_all vs st1 = Some st'"
    using Cons.prems(1) by (auto split: option.splits)
  have nan: "\<not> is_nan v" using Cons.prems(3) by simp
  note f = stats_update_fits [OF st1(1) Cons.prems(2) nan]
  show ?case
    using Cons.IH [OF st1(2) f(1)] f Cons.prems(3) by auto
qed simp

lemma from_inv:
  assumes "cc_from vs = Some c" "\<forall>v\<in>set vs. \<not> is_nan v"
  shows "chunk_inv dec c"
proof -
  obtain st where st: "stats_update_all vs (stats_new None None) = Some st" "cc_values c = vs" "cc_stats c = st"
    "cc_update_info c = None"
    using assms(1) by (auto simp: cc_from_def split: option.splits)
  show ?thesis
    using update_all_fits [OF st(1) _ assms(2)] st by (simp add: chunk_inv_def stats_wf_def stats_new_def)
qed

lemma append_update_fits:
  assumes "chain_fits dec st ui" "fits st v" "codec_ok enc dec"
  shows "chain_fits dec st (append_update r version (serialize_value_for_version enc v) ui)"
proof -
  have "fits st x" if "dec (serialize_value_for_version enc v) = Some x" for x
  proof (cases "enc v")
    case None
    then show ?thesis using that assms(3) by (simp add: serialize_value_for_version_def codec_ok_def)
  next
    case (Some b)
    then have "x = v" using that assms(3) unfolding serialize_value_for_version_def codec_ok_def by fastforce
    then show ?thesis using assms(2) by simp
  qed
  then show ?thesis using assms(1) by (auto simp: chain_fits_def chain_of_append)
qed

lemma chunk_step_inv:
  assumes "chunk_step enc c c'" "codec_ok enc dec" "chunk_inv dec c"
  shows "chunk_inv dec c'"
  using assms
proof (induction rule: chunk_step.induct)
  case (append v c c')
  then obtain st where st: "stats_update v (cc_stats c) = Some st" "c' = c\<lparr>cc_stats := st, cc_values := cc_values c @ [v]\<rparr>"
    by (auto simp: cc_append_def split: option.splits)
  show ?case
    using append.prems(2) append.hyps(2) stats_update_fits [OF st(1)] by (auto simp: chunk_inv_def st(2))
next
  case (set i v c c')
  then obtain st where st: "stats_update v (cc_stats c) = Some st"
    "c' = c\<lparr>cc_stats := st, cc_values := (cc_values c)[i := v]\<rparr>"
    by (auto simp: cc_set_value_def split: option.splits if_splits)
  show ?case
    using set.prems(2) set.hyps(2) stats_update_fits [OF st(1)]
    by (auto simp: chunk_inv_def st(2) dest!: set_update_subset_insert [THEN subsetD])
next
  case (set_version i v version c c')
  obtain st where st: "stats_update v (cc_stats c) = Some st" "i < length (cc_values c)"
    and c': "cc_stats c' = st" "cc_values c' = (cc_values c)[i := v]"
      "cc_update_info c' = map_option (append_update (word_of_nat i) version
         (serialize_value_for_version enc (cc_values c ! i))) (cc_update_info c)"
    using set_version.hyps(1)
    by (auto simp: set_value_with_version_def Let_def split: option.splits if_splits)
  note inv = set_version.prems(2) [unfolded chunk_inv_def]
  have old: "fits (cc_stats c) (cc_values c ! i)" using inv st(2) by simp
  have chain: "chain_fits dec (cc_stats c) (append_update (word_of_nat i) version
      (serialize_value_for_version enc (cc_values c ! i)) ui)" if "cc_update_info c = Some ui" for ui
    using append_update_fits [OF _ old set_version.prems(1)] inv that by blast
  have "stats_wf (cc_stats c)" using inv by blast
  note f = stats_update_fits [OF st(1) this set_version.hyps(2)]
  show ?case
    using inv f chain by (auto simp: chunk_inv_def c' dest!: set_update_subset_insert [THEN subsetD])
qed (auto simp: chunk_inv_def enable_update_info_def cc_drain_def cc_clear_def chain_fits_def split: option.splits)

interpretation chunk: inv_system chunk_initial "chunk_step enc" "\<lambda>c. codec_ok enc dec \<longrightarrow> chunk_inv dec c"
  for enc :: "'j db_value \<Rightarrow> bytes option" and dec
proof
  show "codec_ok enc dec \<longrightarrow> chunk_inv dec c" if "chunk_initial c" for c :: "'j column_chunk"
    using that new_inv from_inv by (auto simp: chunk_initial_def)
qed (auto intro: chunk_step_inv)

lemma chain_search_mem: "chain_search ch ts prev = Some d \<Longrightarrow> prev = Some d \<or> d \<in> snd ` set ch"
  by (induction ch ts prev rule: chain_search.induct) (auto split: if_splits)

lemma read_cases:
  assumes "get_value_owned_with_snapshot dec idx snapshot c = Some v"
  obtains "idx < length (cc_values c)" "v = cc_values c ! idx"
    | ui ts d where "cc_update_info c = Some ui" "get_version (word_of_nat idx) ts ui = Some d" "dec d = Some v"
proof (cases "idx < length (cc_values c) \<and> v = cc_values c ! idx")
  case False
  then obtain ts where ts: "snapshot = Some ts" "idx < length (cc_values c)"
    using assms by (cases snapshot) (auto simp: get_value_owned_with_snapshot_def split: if_splits)
  then obtain ui where ui: "cc_update_info c = Some ui"
    using assms False by (cases "cc_update_info c") (auto simp: get_value_owned_with_snapshot_def)
  then obtain d where d: "get_version (word_of_nat idx) ts ui = Some d"
    using assms False ts by (cases "get_version (word_of_nat idx) ts ui") (auto simp: get_value_owned_with_snapshot_def)
  then have "dec d = Some v"
    using assms False ts ui by (cases "dec d") (auto simp: get_value_owned_with_snapshot_def)
  then show ?thesis using that(2) ui d by blast
qed (use that(1) in blast)

lemma read_fits:
  assumes "chunk_inv dec c" "get_value_owned_with_snapshot dec idx snapshot c = Some v"
  shows "fits (cc_stats c) v"
  using assms(2)
proof (cases rule: read_cases)
  case 1
  then show ?thesis using assms(1) by (simp add: chunk_inv_def)
next
  case (2 ui ts d)
  then have "d \<in> snd ` set (chain_of ui (ui_vector_idx ui (word_of_nat idx)))"
    using chain_search_mem [of _ ts None d] by (simp add: get_version_chain)
  then show ?thesis using 2 assms(1) by (auto simp: chunk_inv_def chain_fits_def)
qed

lemma covers_nulls:
  "covers st VNull \<Longrightarrow> \<not> guaranteed_no_nulls st" "covers st v \<Longrightarrow> v \<noteq> VNull \<Longrightarrow> \<not> guaranteed_all_nulls st"
  by (simp_all add: covers_def)

lemma byte_codec: "codec_ok byte_enc byte_dec"
  by (auto simp: codec_ok_def byte_enc_def byte_dec_def byte_ucast split: db_value.splits if_splits)



text \<open>A NaN breaks the bounds. In a chunk that buffers a NaN and then 1.0 the bounds stay NaN, and the
  zone map skips the chunk for a search of 1.0, although the buffered 1.0 satisfies it.
\<close>

theorem nan_skips_match:
  "case cc_append (VDouble 0x7FF8000000000000) (chunk_new :: unit column_chunk) of
     Some c1 \<Rightarrow>
       (case cc_append (VDouble 0x3FF0000000000000) c1 of
          Some c2 \<Rightarrow>
            check_zone_map (cc_stats c2) ''='' (VDouble 0x3FF0000000000000) = SkipScan \<and>
            (\<exists>v\<in>set (cc_values c2). sat ''='' v (VDouble 0x3FF0000000000000))
        | None \<Rightarrow> False)
   | None \<Rightarrow> False"
  by (simp add: cc_append_def chunk_new_def stats_new_def stats_update_def value_cmp_def f64_partial_cmp_def f64_is_nan_def
      check_zone_map_def check_values_def check_constant_predicate_def in_range_def op_defs sat_def op_sat_def vkind_def
      cmp_lin_def)

end
