(* ===== verification/Spiller.thy ===== *)
theory Spiller
  imports Column_Chunk "HOL-Library.Multiset"
begin

text \<open>
  Spilling to disk and the multi-way merge of spill files (\<^verbatim>\<open>akar-storage/src/spiller.rs\<close>). A spill file
  is its text; the file of number \<open>n\<close> is \<^verbatim>\<open>spill_<n>.jsonl\<close> in the spiller's directory. The JSON
  functions belong to another crate and are parameters: \<open>to_line\<close> prints a row, \<open>from_line\<close> parses a row,
  \<open>from_val\<close> a single value. Whether a file can be created and a line written is the parameter \<open>io\<close>;
  opening fails on a missing file and reading an open file succeeds. White space is ASCII white space.
\<close>

section \<open>Spill files\<close>

definition newline :: char where
  "newline = CHR 0x0A"

definition is_ws :: "char \<Rightarrow> bool" where
  "is_ws c \<longleftrightarrow> c \<in> {CHR '' '', CHR 0x09, CHR 0x0A, CHR 0x0B, CHR 0x0C, CHR 0x0D}"

definition trim :: "string \<Rightarrow> string" where
  "trim s = rev (dropWhile is_ws (rev (dropWhile is_ws s)))"

function (sequential) file_lines :: "string \<Rightarrow> string list" where
  "file_lines [] = []"
| "file_lines (c # s) =
     (case dropWhile (\<lambda>d. d \<noteq> newline) (c # s) of
        [] \<Rightarrow> [c # s]
      | _ # rest \<Rightarrow>
          (let l = takeWhile (\<lambda>d. d \<noteq> newline) (c # s)
           in (if l \<noteq> [] \<and> last l = CHR 0x0D then butlast l else l) # file_lines rest))"
  by pat_completeness auto
termination
proof (relation "measure length")
  fix c s x rest
  assume "dropWhile (\<lambda>d. d \<noteq> newline) (c # s) = x # rest"
  then have "length (x # rest) \<le> length (c # s)" by (metis length_dropWhile_le)
  then show "(rest, c # s) \<in> measure length" by simp
qed simp

record io_model =
  can_create :: "u64 \<Rightarrow> bool"
  can_write :: "u64 \<Rightarrow> nat \<Rightarrow> bool"

record spill_file =
  sf_path :: u64
  sf_row_count :: nat
  sf_sort_key_column :: "nat option"

record spiller =
  sp_files :: "u64 \<rightharpoonup> string"
  spill_counter :: u64
  memory_threshold :: u64

definition spiller_new :: "u64 \<Rightarrow> spiller" where
  "spiller_new threshold = \<lparr>sp_files = Map.empty, spill_counter = 1, memory_threshold = threshold\<rparr>"

definition next_spill_path :: "spiller \<Rightarrow> u64 \<times> spiller" where
  "next_spill_path sp = (spill_counter sp, sp\<lparr>spill_counter := spill_counter sp + 1\<rparr>)"

definition estimated_chunk_size :: "'j column_chunk \<Rightarrow> u64" where
  "estimated_chunk_size c = word_of_nat (length (cc_values c)) * 64"

definition should_spill :: "spiller \<Rightarrow> 'j column_chunk \<Rightarrow> bool" where
  "should_spill sp c = (if memory_threshold sp = 0 then False else estimated_chunk_size c > memory_threshold sp)"

text \<open>The write loop: the text written so far stays in the file when a line fails.\<close>

fun write_lines ::
  "io_model \<Rightarrow> ('r \<Rightarrow> string option) \<Rightarrow> u64 \<Rightarrow> nat \<Rightarrow> 'r list \<Rightarrow> string \<Rightarrow> (storage_error + unit) \<times> string" where
  "write_lines io to_line n k [] text = (Inr (), text)"
| "write_lines io to_line n k (r # rs) text =
     (case to_line r of
        None \<Rightarrow> (Inl (SpillFailed ''serialize''), text)
      | Some line \<Rightarrow>
          if \<not> can_write io n k then (Inl (SpillFailed ''write''), text)
          else write_lines io to_line n (Suc k) rs (text @ line @ [newline]))"

definition spill_rows ::
  "io_model \<Rightarrow> ('r \<Rightarrow> string option) \<Rightarrow> 'r list \<Rightarrow> spiller \<Rightarrow> (storage_error + spill_file option) \<times> spiller" where
  "spill_rows io to_line rows sp =
     (let (n, sp1) = next_spill_path sp
      in if \<not> can_create io n then (Inl (SpillFailed ''create''), sp1)
         else case write_lines io to_line n 0 rows [] of
                (Inl e, text) \<Rightarrow> (Inl e, sp1\<lparr>sp_files := (sp_files sp1)(n \<mapsto> text)\<rparr>)
              | (Inr _, text) \<Rightarrow>
                  (Inr (Some \<lparr>sf_path = n, sf_row_count = length rows, sf_sort_key_column = None\<rparr>),
                   sp1\<lparr>sp_files := (sp_files sp1)(n \<mapsto> text)\<rparr>))"

definition spill ::
  "io_model \<Rightarrow> ('j db_value \<Rightarrow> string option) \<Rightarrow> 'j column_chunk \<Rightarrow> spiller
     \<Rightarrow> (storage_error + spill_file option) \<times> 'j column_chunk \<times> spiller" where
  "spill io to_val c sp =
     (if cc_values c = [] then (Inr None, c, sp)
      else let (values, c1) = cc_drain c; (r, sp1) = spill_rows io to_val values sp in (r, c1, sp1))"

text \<open>A row of the columns: a column shorter than the first one gives null.\<close>

definition row_of :: "'j db_value list list \<Rightarrow> nat \<Rightarrow> 'j db_value list" where
  "row_of cols r = map (\<lambda>col. if r < length col then col ! r else VNull) cols"

definition spill_columns ::
  "io_model \<Rightarrow> ('j db_value list \<Rightarrow> string option) \<Rightarrow> 'j column_chunk list \<Rightarrow> spiller
     \<Rightarrow> (storage_error + spill_file option) \<times> 'j column_chunk list \<times> spiller" where
  "spill_columns io to_line chunks sp =
     (case chunks of
        [] \<Rightarrow> (Inr None, chunks, sp)
      | first # _ \<Rightarrow>
          if cc_values first = [] then (Inr None, chunks, sp)
          else
            let num_rows = length (cc_values first);
                drained = map (fst \<circ> cc_drain) chunks;
                chunks1 = map (snd \<circ> cc_drain) chunks;
                (r, sp1) = spill_rows io to_line (map (row_of drained) [0..<num_rows]) sp
            in (r, chunks1, sp1))"

fun parse_lines :: "(string \<Rightarrow> 'r option) \<Rightarrow> string list \<Rightarrow> storage_error + 'r list" where
  "parse_lines from_line [] = Inr []"
| "parse_lines from_line (l # ls) =
     (let t = trim l
      in if t = [] then parse_lines from_line ls
         else case from_line t of
                None \<Rightarrow> Inl (SpillFailed ''deserialize'')
              | Some r \<Rightarrow> (case parse_lines from_line ls of Inl e \<Rightarrow> Inl e | Inr rs \<Rightarrow> Inr (r # rs)))"

definition restore_rows :: "(string \<Rightarrow> 'r option) \<Rightarrow> spill_file \<Rightarrow> spiller \<Rightarrow> storage_error + 'r list" where
  "restore_rows from_line sf sp =
     (case sp_files sp (sf_path sf) of
        None \<Rightarrow> Inl (SpillFailed ''open'')
      | Some text \<Rightarrow> parse_lines from_line (file_lines text))"

definition restore ::
  "(string \<Rightarrow> 'j db_value option) \<Rightarrow> spill_file \<Rightarrow> spiller \<Rightarrow> (storage_error + 'j column_chunk) option" where
  "restore from_val sf sp =
     (case restore_rows from_val sf sp of
        Inl e \<Rightarrow> Some (Inl e)
      | Inr values \<Rightarrow> map_option Inr (cc_from values))"

text \<open>Each parsed row pushes its values to the columns it has.\<close>

definition push_row :: "nat \<Rightarrow> 'j db_value list \<Rightarrow> 'j db_value list list \<Rightarrow> 'j db_value list list" where
  "push_row num_cols row columns =
     map (\<lambda>i. if i < length row \<and> i < num_cols then columns ! i @ [row ! i] else columns ! i) [0..<length columns]"

fun collect_chunks :: "'j db_value list list \<Rightarrow> 'j column_chunk list option" where
  "collect_chunks [] = Some []"
| "collect_chunks (vs # vss) =
     (case cc_from vs of None \<Rightarrow> None | Some c \<Rightarrow> map_option (Cons c) (collect_chunks vss))"

definition restore_columns ::
  "(string \<Rightarrow> 'j db_value list option) \<Rightarrow> spill_file \<Rightarrow> nat \<Rightarrow> spiller
     \<Rightarrow> (storage_error + 'j column_chunk list) option" where
  "restore_columns from_line sf num_cols sp =
     (case restore_rows from_line sf sp of
        Inl e \<Rightarrow> Some (Inl e)
      | Inr rows \<Rightarrow> map_option Inr (collect_chunks (fold (push_row num_cols) rows (replicate num_cols []))))"

definition sp_cleanup :: "spill_file \<Rightarrow> spiller \<Rightarrow> spiller" where
  "sp_cleanup sf sp = sp\<lparr>sp_files := (sp_files sp)(sf_path sf := None)\<rparr>"

definition sp_cleanup_all :: "spiller \<Rightarrow> spiller" where
  "sp_cleanup_all sp = sp\<lparr>sp_files := Map.empty\<rparr>"

section \<open>Multi-way merge\<close>

definition sort_key_of :: "nat \<Rightarrow> 'j db_value list \<Rightarrow> int option" where
  "sort_key_of col row =
     (if col < length row
      then case row ! col of
             VInt64 v \<Rightarrow> Some (sint v)
           | VInt32 v \<Rightarrow> Some (sint v)
           | VInt16 v \<Rightarrow> Some (sint v)
           | VInt8 v \<Rightarrow> Some (sint v)
           | VUInt64 v \<Rightarrow> Some (sint v)
           | VUInt32 v \<Rightarrow> Some (uint v)
           | VUInt16 v \<Rightarrow> Some (uint v)
           | VUInt8 v \<Rightarrow> Some (uint v)
           | _ \<Rightarrow> None
      else None)"

record 'j merge_cursor =
  mc_reader :: "string list"
  mc_current :: "'j db_value list option"
  mc_sort_key_col :: nat

fun read_next_row ::
  "(string \<Rightarrow> 'j db_value list option) \<Rightarrow> (string \<Rightarrow> 'j db_value option) \<Rightarrow> string list
     \<Rightarrow> 'j db_value list option \<times> string list" where
  "read_next_row from_line from_val [] = (None, [])"
| "read_next_row from_line from_val (l # ls) =
     (let t = trim l
      in if t = [] then read_next_row from_line from_val ls
         else case from_line t of
                Some row \<Rightarrow> (Some row, ls)
              | None \<Rightarrow> (case from_val t of
                           Some v \<Rightarrow> (Some [v], ls)
                         | None \<Rightarrow> read_next_row from_line from_val ls))"

definition cursor_new ::
  "(string \<Rightarrow> 'j db_value list option) \<Rightarrow> (string \<Rightarrow> 'j db_value option) \<Rightarrow> spiller \<Rightarrow> spill_file \<Rightarrow> nat
     \<Rightarrow> storage_error + 'j merge_cursor" where
  "cursor_new from_line from_val sp sf col =
     (case sp_files sp (sf_path sf) of
        None \<Rightarrow> Inl (SpillFailed ''open'')
      | Some text \<Rightarrow>
          (let (current, reader) = read_next_row from_line from_val (file_lines text)
           in Inr \<lparr>mc_reader = reader, mc_current = current, mc_sort_key_col = col\<rparr>))"

definition cursor_advance ::
  "(string \<Rightarrow> 'j db_value list option) \<Rightarrow> (string \<Rightarrow> 'j db_value option) \<Rightarrow> 'j merge_cursor \<Rightarrow> 'j merge_cursor" where
  "cursor_advance from_line from_val c =
     (let (current, reader) = read_next_row from_line from_val (mc_reader c)
      in c\<lparr>mc_current := current, mc_reader := reader\<rparr>)"

definition cursor_sort_key :: "'j merge_cursor \<Rightarrow> int option" where
  "cursor_sort_key c =
     (case mc_current c of None \<Rightarrow> None | Some row \<Rightarrow> sort_key_of (mc_sort_key_col c) row)"

record 'j stream_merge =
  sm_cursors :: "'j merge_cursor list"
  sm_in_memory_rows :: "'j db_value list list"
  sm_in_memory_idx :: nat
  sm_sort_key_col :: nat
  sm_dedup :: bool
  sm_last_key :: "int option"

fun open_cursors ::
  "(string \<Rightarrow> 'j db_value list option) \<Rightarrow> (string \<Rightarrow> 'j db_value option) \<Rightarrow> spiller \<Rightarrow> nat \<Rightarrow> spill_file list
     \<Rightarrow> storage_error + 'j merge_cursor list" where
  "open_cursors from_line from_val sp col [] = Inr []"
| "open_cursors from_line from_val sp col (sf # sfs) =
     (if sf_row_count sf > 0
      then case cursor_new from_line from_val sp sf col of
             Inl e \<Rightarrow> Inl e
           | Inr c \<Rightarrow> (case open_cursors from_line from_val sp col sfs of Inl e \<Rightarrow> Inl e | Inr cs \<Rightarrow> Inr (c # cs))
      else open_cursors from_line from_val sp col sfs)"

definition merge_new ::
  "(string \<Rightarrow> 'j db_value list option) \<Rightarrow> (string \<Rightarrow> 'j db_value option) \<Rightarrow> spiller \<Rightarrow> spill_file list
     \<Rightarrow> 'j db_value list list option \<Rightarrow> nat \<Rightarrow> bool \<Rightarrow> storage_error + 'j stream_merge" where
  "merge_new from_line from_val sp spill_files in_memory col dedup =
     (case open_cursors from_line from_val sp col spill_files of
        Inl e \<Rightarrow> Inl e
      | Inr cs \<Rightarrow>
          Inr \<lparr>sm_cursors = cs, sm_in_memory_rows = (case in_memory of Some rows \<Rightarrow> rows | None \<Rightarrow> []),
               sm_in_memory_idx = 0, sm_sort_key_col = col, sm_dedup = dedup, sm_last_key = None\<rparr>)"

datatype merge_source = Cursor nat | InMemory | NoSource

definition better :: "merge_source \<Rightarrow> int \<Rightarrow> (merge_source \<times> int) option \<Rightarrow> (merge_source \<times> int) option" where
  "better src key best =
     (case best of
        Some (_, best_key) \<Rightarrow> (if key < best_key then Some (src, key) else best)
      | None \<Rightarrow> Some (src, key))"

fun best_cursor :: "nat \<Rightarrow> 'j merge_cursor list \<Rightarrow> (merge_source \<times> int) option \<Rightarrow> (merge_source \<times> int) option" where
  "best_cursor idx [] best = best"
| "best_cursor idx (c # cs) best =
     best_cursor (Suc idx) cs
       (if mc_current c = None then best
        else case cursor_sort_key c of Some key \<Rightarrow> better (Cursor idx) key best | None \<Rightarrow> best)"

definition find_smallest :: "'j stream_merge \<Rightarrow> merge_source" where
  "find_smallest m =
     (let best = best_cursor 0 (sm_cursors m) None;
          best = (if sm_in_memory_idx m < length (sm_in_memory_rows m)
                  then case sort_key_of (sm_sort_key_col m) (sm_in_memory_rows m ! sm_in_memory_idx m) of
                         Some k \<Rightarrow> better InMemory k best
                       | None \<Rightarrow> best
                  else best)
      in case best of Some (src, _) \<Rightarrow> src | None \<Rightarrow> NoSource)"

text \<open>The first half of the loop body: the row of the chosen source, which moves on.\<close>

definition take_row ::
  "(string \<Rightarrow> 'j db_value list option) \<Rightarrow> (string \<Rightarrow> 'j db_value option) \<Rightarrow> 'j stream_merge
     \<Rightarrow> ('j db_value list \<times> 'j stream_merge) option" where
  "take_row from_line from_val m =
     (case find_smallest m of
        Cursor idx \<Rightarrow>
          (case mc_current (sm_cursors m ! idx) of
             None \<Rightarrow> None
           | Some row \<Rightarrow>
               Some (row, m\<lparr>sm_cursors := (sm_cursors m)[idx := cursor_advance from_line from_val (sm_cursors m ! idx)]\<rparr>))
      | InMemory \<Rightarrow>
          (if sm_in_memory_idx m < length (sm_in_memory_rows m)
           then Some (sm_in_memory_rows m ! sm_in_memory_idx m, m\<lparr>sm_in_memory_idx := sm_in_memory_idx m + 1\<rparr>)
           else None)
      | NoSource \<Rightarrow> None)"

text \<open>The rows a merge has yet to read bound its loop.\<close>

definition cursor_size :: "'j merge_cursor \<Rightarrow> nat" where
  "cursor_size c = (if mc_current c = None then 0 else Suc (length (mc_reader c)))"

definition merge_size :: "'j stream_merge \<Rightarrow> nat" where
  "merge_size m = sum_list (map cursor_size (sm_cursors m)) + (length (sm_in_memory_rows m) - sm_in_memory_idx m)"

lemma read_next_row_shrinks:
  "read_next_row from_line from_val ls = (r, ls') \<Longrightarrow> r \<noteq> None \<Longrightarrow> length ls' < length ls"
  by (induction from_line from_val ls rule: read_next_row.induct)
    (auto simp: Let_def split: if_splits option.splits)

lemma best_cursor_range:
  "best_cursor i cs best = Some (Cursor j, k) \<Longrightarrow>
     best = Some (Cursor j, k) \<or> i \<le> j \<and> j < i + length cs"
proof (induction i cs best rule: best_cursor.induct)
  case (2 i c cs best)
  then show ?case by (fastforce simp: better_def split: if_splits option.splits)
qed simp

lemma find_smallest_range: "find_smallest m = Cursor j \<Longrightarrow> j < length (sm_cursors m)"
  using best_cursor_range [of 0 "sm_cursors m" None j]
  by (auto simp: find_smallest_def better_def Let_def split: option.splits if_splits prod.splits)

lemma take_row_shrinks:
  assumes "take_row from_line from_val m = Some (row, m')"
  shows "merge_size m' < merge_size m"
proof (cases "find_smallest m")
  case (Cursor idx)
  then have idx: "idx < length (sm_cursors m)" by (rule find_smallest_range)
  let ?c = "sm_cursors m ! idx"
  have m': "m' = m\<lparr>sm_cursors := (sm_cursors m)[idx := cursor_advance from_line from_val ?c]\<rparr>"
    and cur: "mc_current ?c = Some row"
    using assms Cursor by (auto simp: take_row_def split: option.splits)
  have "cursor_size (cursor_advance from_line from_val ?c) < cursor_size ?c"
    using cur read_next_row_shrinks [of from_line from_val "mc_reader ?c"]
    by (auto simp: cursor_size_def cursor_advance_def Let_def split: prod.splits if_splits)
  moreover have "cursor_size ?c \<le> sum_list (map cursor_size (sm_cursors m))"
    using idx by (intro member_le_sum_list) simp_all
  ultimately show ?thesis
    using idx by (simp add: m' merge_size_def map_update sum_list_update)
qed (use assms in \<open>auto simp: take_row_def merge_size_def split: if_splits\<close>)

function next_tuple ::
  "(string \<Rightarrow> 'j db_value list option) \<Rightarrow> (string \<Rightarrow> 'j db_value option) \<Rightarrow> 'j stream_merge
     \<Rightarrow> 'j db_value list option \<times> 'j stream_merge" where
  "next_tuple from_line from_val m =
     (case take_row from_line from_val m of
        None \<Rightarrow> (None, m)
      | Some (row, m1) \<Rightarrow>
          if sm_dedup m1
          then case sort_key_of (sm_sort_key_col m1) row of
                 Some k \<Rightarrow>
                   (if sm_last_key m1 = Some k then next_tuple from_line from_val m1
                    else (Some row, m1\<lparr>sm_last_key := Some k\<rparr>))
               | None \<Rightarrow> (Some row, m1)
          else (Some row, m1))"
  by pat_completeness auto
termination
  by (relation "measure (\<lambda>(_, _, m). merge_size m)") (auto intro: take_row_shrinks)

declare next_tuple.simps [simp del]

lemma next_tuple_shrinks: "next_tuple from_line from_val m = (Some row, m') \<Longrightarrow> merge_size m' < merge_size m"
proof (induction from_line from_val m rule: next_tuple.induct)
  case (1 from_line from_val m)
  obtain row1 m1 where t: "take_row from_line from_val m = Some (row1, m1)"
    using "1.prems" by (auto simp: next_tuple.simps [of _ _ m] split: option.splits)
  have less: "merge_size m1 < merge_size m" using take_row_shrinks [OF t] .
  have key: "merge_size (m1\<lparr>sm_last_key := x\<rparr>) = merge_size m1" for x by (simp add: merge_size_def)
  show ?case
  proof (cases "sm_dedup m1 \<and> (\<exists>k. sort_key_of (sm_sort_key_col m1) row1 = Some k \<and> sm_last_key m1 = Some k)")
    case True
    then have "next_tuple from_line from_val m1 = (Some row, m')"
      using "1.prems" t by (auto simp: next_tuple.simps [of _ _ m])
    then show ?thesis using "1.IH" [OF t refl] True less by fastforce
  next
    case False
    then show ?thesis
      using "1.prems" t less key by (auto simp: next_tuple.simps [of _ _ m] split: if_splits option.splits)
  qed
qed

text \<open>The client's loop, \<^verbatim>\<open>while let Some(row) = merger.next_tuple()\<close> in \<^verbatim>\<open>NodeGroup::flush_with_spiller\<close>.\<close>

function merge_all ::
  "(string \<Rightarrow> 'j db_value list option) \<Rightarrow> (string \<Rightarrow> 'j db_value option) \<Rightarrow> 'j stream_merge \<Rightarrow> 'j db_value list list" where
  "merge_all from_line from_val m =
     (case next_tuple from_line from_val m of
        (None, _) \<Rightarrow> []
      | (Some row, m') \<Rightarrow> row # merge_all from_line from_val m')"
  by pat_completeness auto
termination
  by (relation "measure (\<lambda>(_, _, m). merge_size m)") (auto intro: next_tuple_shrinks dest: sym)

declare merge_all.simps [simp del]

section \<open>The merge orders its sources\<close>

text \<open>The rows a cursor still has to give, and those of the whole merge.\<close>

fun all_rows ::
  "(string \<Rightarrow> 'j db_value list option) \<Rightarrow> (string \<Rightarrow> 'j db_value option) \<Rightarrow> string list \<Rightarrow> 'j db_value list list" where
  "all_rows from_line from_val [] = []"
| "all_rows from_line from_val (l # ls) =
     (if trim l = [] then all_rows from_line from_val ls
      else case from_line (trim l) of
             Some row \<Rightarrow> row # all_rows from_line from_val ls
           | None \<Rightarrow> (case from_val (trim l) of
                        Some v \<Rightarrow> [v] # all_rows from_line from_val ls
                      | None \<Rightarrow> all_rows from_line from_val ls))"

definition cursor_rows ::
  "(string \<Rightarrow> 'j db_value list option) \<Rightarrow> (string \<Rightarrow> 'j db_value option) \<Rightarrow> 'j merge_cursor \<Rightarrow> 'j db_value list list" where
  "cursor_rows from_line from_val c =
     (case mc_current c of None \<Rightarrow> [] | Some r \<Rightarrow> r # all_rows from_line from_val (mc_reader c))"

definition sources ::
  "(string \<Rightarrow> 'j db_value list option) \<Rightarrow> (string \<Rightarrow> 'j db_value option) \<Rightarrow> 'j stream_merge \<Rightarrow> 'j db_value list list list" where
  "sources from_line from_val m =
     map (cursor_rows from_line from_val) (sm_cursors m) @ [drop (sm_in_memory_idx m) (sm_in_memory_rows m)]"

definition pending ::
  "(string \<Rightarrow> 'j db_value list option) \<Rightarrow> (string \<Rightarrow> 'j db_value option) \<Rightarrow> 'j stream_merge \<Rightarrow> 'j db_value list multiset" where
  "pending from_line from_val m = mset (concat (sources from_line from_val m))"

lemma read_next_all:
  "(case read_next_row from_line from_val ls of (None, _) \<Rightarrow> [] | (Some r, ls') \<Rightarrow> r # all_rows from_line from_val ls') =
   all_rows from_line from_val ls"
  by (induction from_line from_val ls rule: read_next_row.induct) (auto simp: Let_def split: option.splits)

lemma cursor_rows_advance:
  assumes "mc_current c = Some r"
  shows "cursor_rows from_line from_val c = r # cursor_rows from_line from_val (cursor_advance from_line from_val c)"
  using assms read_next_all [of from_line from_val "mc_reader c"]
  by (auto simp: cursor_rows_def cursor_advance_def Let_def split: prod.splits option.splits)

lemma cursor_rows_Nil: "cursor_rows from_line from_val c = [] \<longleftrightarrow> mc_current c = None"
  by (simp add: cursor_rows_def split: option.splits)

text \<open>
  A merge is keyed when every pending row has an integer key in the sort column, and ordered when each
  source is ascending in it.
\<close>

definition row_key :: "nat \<Rightarrow> 'j db_value list \<Rightarrow> int" where
  "row_key col row = (case sort_key_of col row of Some k \<Rightarrow> k | None \<Rightarrow> 0)"

definition keyed ::
  "(string \<Rightarrow> 'j db_value list option) \<Rightarrow> (string \<Rightarrow> 'j db_value option) \<Rightarrow> 'j stream_merge \<Rightarrow> bool" where
  "keyed from_line from_val m \<longleftrightarrow>
     set (map mc_sort_key_col (sm_cursors m)) \<subseteq> {sm_sort_key_col m} \<and>
     (\<forall>src\<in>set (sources from_line from_val m). \<forall>row\<in>set src. sort_key_of (sm_sort_key_col m) row \<noteq> None)"

definition ordered ::
  "(string \<Rightarrow> 'j db_value list option) \<Rightarrow> (string \<Rightarrow> 'j db_value option) \<Rightarrow> 'j stream_merge \<Rightarrow> bool" where
  "ordered from_line from_val m \<longleftrightarrow>
     (\<forall>src\<in>set (sources from_line from_val m). sorted (map (row_key (sm_sort_key_col m)) src))"

text \<open>The scan of the cursors finds a least key among their current rows.\<close>

lemma best_cursor_Cons:
  "best_cursor i (c # cs) best =
     best_cursor (Suc i) cs (case cursor_sort_key c of Some key \<Rightarrow> better (Cursor i) key best | None \<Rightarrow> best)"
  by (auto simp: cursor_sort_key_def split: option.splits)

lemma better_cases:
  "better src k best = Some (s, k2) \<Longrightarrow>
     ((s, k2) = (src, k) \<or> best = Some (s, k2)) \<and> k2 \<le> k \<and> (\<forall>s' k'. best = Some (s', k') \<longrightarrow> k2 \<le> k')"
  by (auto simp: better_def split: option.splits if_splits)

lemma better_not_None [simp]: "better src k best \<noteq> None"
  by (simp add: better_def split: option.splits prod.splits)

lemma best_cursor_spec:
  "case best_cursor i cs best of
     None \<Rightarrow> best = None \<and> (\<forall>c\<in>set cs. cursor_sort_key c = None)
   | Some (src, k) \<Rightarrow>
       (\<forall>c\<in>set cs. \<forall>k'. cursor_sort_key c = Some k' \<longrightarrow> k \<le> k') \<and> (\<forall>s' k'. best = Some (s', k') \<longrightarrow> k \<le> k') \<and>
       (best = Some (src, k) \<or> (\<exists>j<length cs. src = Cursor (i + j) \<and> cursor_sort_key (cs ! j) = Some k))"
proof (induction cs arbitrary: i best)
  case (Cons c cs)
  define b where "b = (case cursor_sort_key c of Some key \<Rightarrow> better (Cursor i) key best | None \<Rightarrow> best)"
  have step: "best_cursor i (c # cs) best = best_cursor (Suc i) cs b" by (simp only: best_cursor_Cons b_def)
  show ?case
  proof (cases "best_cursor (Suc i) cs b")
    case None
    then show ?thesis
      using Cons.IH [where i = "Suc i" and best = b] unfolding step by (auto simp: b_def split: option.splits)
  next
    case (Some sk)
    obtain src k where sk: "sk = (src, k)" by (cases sk)
    note IH = Cons.IH [where i = "Suc i" and best = b, unfolded Some sk option.case prod.case]
    have b: "(\<forall>s' k'. best = Some (s', k') \<longrightarrow> k \<le> k') \<and> (\<forall>k'. cursor_sort_key c = Some k' \<longrightarrow> k \<le> k')"
    proof (cases "cursor_sort_key c")
      case None
      then show ?thesis using IH by (simp add: b_def)
    next
      case (Some key)
      then obtain s2 k2 where b2: "b = Some (s2, k2)" by (cases b) (auto simp: b_def)
      then have "k \<le> k2" using IH by blast
      then show ?thesis using better_cases [of "Cursor i" key best s2 k2] b2 Some by (fastforce simp: b_def)
    qed
    have "best = Some (src, k) \<or> (\<exists>j<length (c # cs). src = Cursor (i + j) \<and> cursor_sort_key ((c # cs) ! j) = Some k)"
    proof (cases "b = Some (src, k)")
      case True
      show ?thesis
      proof (cases "cursor_sort_key c")
        case (Some a)
        then have "(src, k) = (Cursor i, a) \<or> best = Some (src, k)"
          using True better_cases [of "Cursor i" a best src k] by (simp add: b_def)
        then show ?thesis using Some by (intro disjCI exI [of _ 0]) auto
      qed (use True in \<open>simp add: b_def\<close>)
    next
      case False
      then obtain j where "j < length cs" "src = Cursor (Suc i + j)" "cursor_sort_key (cs ! j) = Some k" using IH by blast
      then show ?thesis by (intro disjI2 exI [of _ "Suc j"]) simp
    qed
    then show ?thesis using IH b unfolding step Some sk by simp
  qed
qed (simp split: option.splits prod.splits)

text \<open>
  One step of the merge: it stops exactly when nothing is pending; otherwise the row it takes is the
  first of one source, and of least key when the sources are ordered.
\<close>

lemma keyed_cursor:
  assumes "keyed from_line from_val m" "c \<in> set (sm_cursors m)" "mc_current c = Some r"
  shows "cursor_sort_key c = Some (row_key (sm_sort_key_col m) r)"
proof -
  have "r \<in> set (cursor_rows from_line from_val c)" using assms(3) by (simp add: cursor_rows_def)
  then have "sort_key_of (sm_sort_key_col m) r \<noteq> None"
    using assms(1,2) by (auto simp: keyed_def sources_def)
  then show ?thesis
    using assms by (auto simp: keyed_def cursor_sort_key_def row_key_def)
qed

lemma sources_take:
  assumes "i < length xs" "xs ! i = r # rs"
  shows "mset (concat xs) = add_mset r (mset (concat (xs[i := rs])))"
proof -
  have "xs = take i xs @ (r # rs) # drop (Suc i) xs" using assms by (metis id_take_nth_drop)
  moreover have "xs[i := rs] = take i xs @ rs # drop (Suc i) xs" using assms(1) by (rule upd_conv_take_nth_drop)
  ultimately show ?thesis by (metis (no_types, lifting) concat.simps(2) concat_append mset_append append_Cons mset.simps(2) union_mset_add_mset_right)
qed

lemma take_row_sources:
  assumes "take_row from_line from_val m = Some (row, m')"
  obtains i rs where "i < length (sources from_line from_val m)" "sources from_line from_val m ! i = row # rs"
    "sources from_line from_val m' = (sources from_line from_val m)[i := rs]"
    "sm_sort_key_col m' = sm_sort_key_col m" "sm_dedup m' = sm_dedup m" "sm_last_key m' = sm_last_key m"
    "map mc_sort_key_col (sm_cursors m') = map mc_sort_key_col (sm_cursors m)"
proof (cases "find_smallest m")
  case (Cursor idx)
  then have idx: "idx < length (sm_cursors m)" by (rule find_smallest_range)
  let ?c = "sm_cursors m ! idx"
  have m': "m' = m\<lparr>sm_cursors := (sm_cursors m)[idx := cursor_advance from_line from_val ?c]\<rparr>"
    and cur: "mc_current ?c = Some row"
    using assms Cursor by (auto simp: take_row_def split: option.splits)
  have col: "mc_sort_key_col (cursor_advance from_line from_val ?c) = mc_sort_key_col ?c"
    by (simp add: cursor_advance_def Let_def split: prod.splits)
  show ?thesis
  proof (rule that)
    show "sources from_line from_val m ! idx = row # cursor_rows from_line from_val (cursor_advance from_line from_val ?c)"
      using idx cursor_rows_advance [OF cur] by (simp add: sources_def nth_append)
  qed (use idx col in \<open>simp_all add: m' sources_def map_update list_update_append list_update_same_conv\<close>)
next
  case InMemory
  then have m': "m' = m\<lparr>sm_in_memory_idx := sm_in_memory_idx m + 1\<rparr>"
    and row: "sm_in_memory_idx m < length (sm_in_memory_rows m)" "row = sm_in_memory_rows m ! sm_in_memory_idx m"
    using assms by (auto simp: take_row_def split: if_splits)
  show ?thesis
  proof (rule that)
    show "sources from_line from_val m ! length (sm_cursors m) =
        row # drop (Suc (sm_in_memory_idx m)) (sm_in_memory_rows m)"
      using row by (simp add: sources_def nth_append Cons_nth_drop_Suc)
  qed (simp_all add: m' sources_def list_update_append)
qed (use assms in \<open>simp add: take_row_def\<close>)

text \<open>The key of the in-memory source, and the choice among all sources.\<close>

definition mem_key :: "'j stream_merge \<Rightarrow> int option" where
  "mem_key m =
     (if sm_in_memory_idx m < length (sm_in_memory_rows m)
      then sort_key_of (sm_sort_key_col m) (sm_in_memory_rows m ! sm_in_memory_idx m) else None)"

lemma find_smallest_spec:
  "case find_smallest m of
     NoSource \<Rightarrow> mem_key m = None \<and> (\<forall>c\<in>set (sm_cursors m). cursor_sort_key c = None)
   | Cursor j \<Rightarrow> (\<exists>k. j < length (sm_cursors m) \<and> cursor_sort_key (sm_cursors m ! j) = Some k \<and>
       (\<forall>c\<in>set (sm_cursors m). \<forall>k'. cursor_sort_key c = Some k' \<longrightarrow> k \<le> k') \<and> (\<forall>k'. mem_key m = Some k' \<longrightarrow> k \<le> k'))
   | InMemory \<Rightarrow> (\<exists>k. mem_key m = Some k \<and>
       (\<forall>c\<in>set (sm_cursors m). \<forall>k'. cursor_sort_key c = Some k' \<longrightarrow> k \<le> k'))"
proof -
  let ?b = "best_cursor 0 (sm_cursors m) None"
  have fs: "find_smallest m =
    (case (case mem_key m of Some k \<Rightarrow> better InMemory k ?b | None \<Rightarrow> ?b) of Some (src, _) \<Rightarrow> src | None \<Rightarrow> NoSource)"
    by (simp add: find_smallest_def mem_key_def Let_def)
  note spec = best_cursor_spec [where i = 0 and cs = "sm_cursors m" and best = None]
  show ?thesis
  proof (cases ?b)
    case None
    then show ?thesis using spec by (auto simp: fs better_def split: option.splits)
  next
    case (Some sk)
    then obtain src k where b: "?b = Some (src, k)" by (cases sk) auto
    then obtain j where src: "src = Cursor j" "j < length (sm_cursors m)" "cursor_sort_key (sm_cursors m ! j) = Some k"
      and least: "\<forall>c\<in>set (sm_cursors m). \<forall>k'. cursor_sort_key c = Some k' \<longrightarrow> k \<le> k'"
      using spec by auto
    show ?thesis
    proof (cases "\<exists>k'. mem_key m = Some k' \<and> k' < k")
      case True
      then show ?thesis using least by (fastforce simp: fs b better_def)
    next
      case False
      then have "find_smallest m = Cursor j"
        using src by (cases "mem_key m") (auto simp: fs b better_def)
      then show ?thesis using src least False by (auto simp: not_less)
    qed
  qed
qed

lemma keyed_memory:
  assumes "keyed from_line from_val m"
  shows "mem_key m = (case drop (sm_in_memory_idx m) (sm_in_memory_rows m) of
    [] \<Rightarrow> None | r # _ \<Rightarrow> Some (row_key (sm_sort_key_col m) r))"
proof (cases "sm_in_memory_idx m < length (sm_in_memory_rows m)")
  case True
  then obtain rs where d: "drop (sm_in_memory_idx m) (sm_in_memory_rows m) = sm_in_memory_rows m ! sm_in_memory_idx m # rs"
    by (metis Cons_nth_drop_Suc)
  then have "sort_key_of (sm_sort_key_col m) (sm_in_memory_rows m ! sm_in_memory_idx m) \<noteq> None"
    using assms by (auto simp: keyed_def sources_def)
  then show ?thesis using True d by (auto simp: mem_key_def row_key_def)
qed (simp add: mem_key_def)

lemma take_row_None:
  assumes k: "keyed from_line from_val m" and "take_row from_line from_val m = None"
  shows "pending from_line from_val m = {#}"
proof -
  have "find_smallest m = NoSource"
    using assms(2) find_smallest_spec [of m]
    by (auto simp: take_row_def mem_key_def cursor_sort_key_def split: merge_source.splits option.splits if_splits)
  then have mem: "mem_key m = None" and cs: "\<forall>c\<in>set (sm_cursors m). cursor_sort_key c = None"
    using find_smallest_spec [of m] by auto
  have "drop (sm_in_memory_idx m) (sm_in_memory_rows m) = []"
    using mem keyed_memory [OF k] by (auto split: list.splits)
  moreover have "mc_current c = None" if "c \<in> set (sm_cursors m)" for c
    using cs that keyed_cursor [OF k that] by (cases "mc_current c") auto
  ultimately show ?thesis
    by (auto simp: pending_def sources_def cursor_rows_def)
qed

lemma take_row_least:
  assumes k: "keyed from_line from_val m" and t: "take_row from_line from_val m = Some (row, m')"
    and src: "r # rs \<in> set (sources from_line from_val m)"
  shows "row_key (sm_sort_key_col m) row \<le> row_key (sm_sort_key_col m) r"
proof -
  let ?key = "row_key (sm_sort_key_col m)"
  have head: "(\<exists>c\<in>set (sm_cursors m). cursor_sort_key c = Some (?key r)) \<or> mem_key m = Some (?key r)"
  proof (cases "r # rs = drop (sm_in_memory_idx m) (sm_in_memory_rows m)")
    case True
    then show ?thesis using keyed_memory [OF k] by (simp add: True [symmetric])
  next
    case False
    then obtain c where c: "c \<in> set (sm_cursors m)" "cursor_rows from_line from_val c = r # rs"
      using src by (auto simp: sources_def)
    then have "mc_current c = Some r" by (auto simp: cursor_rows_def split: option.splits)
    then show ?thesis using keyed_cursor [OF k c(1)] c(1) by blast
  qed
  show ?thesis
  proof (cases "find_smallest m")
    case (Cursor j)
    then have "mc_current (sm_cursors m ! j) = Some row" "j < length (sm_cursors m)"
      using t find_smallest_range [OF Cursor] by (auto simp: take_row_def split: option.splits)
    then have "cursor_sort_key (sm_cursors m ! j) = Some (?key row)" using keyed_cursor [OF k] by simp
    then show ?thesis using head find_smallest_spec [of m] Cursor by auto
  next
    case InMemory
    then have "sm_in_memory_idx m < length (sm_in_memory_rows m)" "row = sm_in_memory_rows m ! sm_in_memory_idx m"
      using t by (auto simp: take_row_def split: if_splits)
    then have "mem_key m = Some (?key row)"
      using keyed_memory [OF k] by (simp add: Cons_nth_drop_Suc [symmetric])
    then show ?thesis using head find_smallest_spec [of m] InMemory by auto
  qed (use t in \<open>simp add: take_row_def\<close>)
qed

lemma take_row_keeps:
  assumes k: "keyed from_line from_val m" and o: "ordered from_line from_val m"
    and t: "take_row from_line from_val m = Some (row, m')"
  shows "keyed from_line from_val m'" "ordered from_line from_val m'"
    "pending from_line from_val m = add_mset row (pending from_line from_val m')"
    "\<And>r. r \<in># pending from_line from_val m' \<Longrightarrow> row_key (sm_sort_key_col m) row \<le> row_key (sm_sort_key_col m) r"
    "sm_sort_key_col m' = sm_sort_key_col m" "sm_dedup m' = sm_dedup m" "sm_last_key m' = sm_last_key m"
proof -
  let ?key = "row_key (sm_sort_key_col m)"
  obtain i rs where i: "i < length (sources from_line from_val m)" "sources from_line from_val m ! i = row # rs"
    "sources from_line from_val m' = (sources from_line from_val m)[i := rs]"
    and f: "sm_sort_key_col m' = sm_sort_key_col m" "sm_dedup m' = sm_dedup m" "sm_last_key m' = sm_last_key m"
      "map mc_sort_key_col (sm_cursors m') = map mc_sort_key_col (sm_cursors m)"
    using take_row_sources [OF t] .
  have in_src: "row # rs \<in> set (sources from_line from_val m)" using i by (metis nth_mem)
  have src: "s \<in> set (sources from_line from_val m') \<Longrightarrow> s \<in> insert rs (set (sources from_line from_val m))" for s
    using i(3) set_update_subset_insert [of "sources from_line from_val m" i rs] by auto
  have sub: "\<exists>s'\<in>set (sources from_line from_val m). s = s' \<or> s = rs \<and> s' = row # rs"
    if "s \<in> set (sources from_line from_val m')" for s
    using src [OF that] in_src by blast
  have "sort_key_of (sm_sort_key_col m) r \<noteq> None" if "s \<in> set (sources from_line from_val m')" "r \<in> set s" for s r
    using sub [OF that(1)] that(2) k unfolding keyed_def by (metis list.set_intros(2))
  then show "keyed from_line from_val m'"
    using k f(1,4) unfolding keyed_def by simp
  have "sorted (map ?key s)" if "s \<in> set (sources from_line from_val m')" for s
    using sub [OF that] o unfolding ordered_def by (metis list.simps(9) sorted_simps(2))
  then show ord: "ordered from_line from_val m'"
    using f(1) unfolding ordered_def by simp
  show "pending from_line from_val m = add_mset row (pending from_line from_val m')"
    unfolding pending_def i(3) by (rule sources_take [OF i(1,2)])
  show "?key row \<le> ?key r" if "r \<in># pending from_line from_val m'" for r
  proof -
    obtain s where s: "s \<in> set (sources from_line from_val m')" "r \<in> set s"
      using \<open>r \<in># _\<close> by (auto simp: pending_def)
    show ?thesis
    proof (cases "s \<in> set (sources from_line from_val m)")
      case True
      obtain h hs where h: "s = h # hs" using s(2) by (cases s rule: list.exhaust) auto
      then have "?key row \<le> ?key h" using take_row_least [OF k t] True by simp
      moreover have "?key h \<le> ?key r" using o True s(2) h by (auto simp: ordered_def)
      ultimately show ?thesis by simp
    next
      case False
      then have "s = rs" using src [OF s(1)] by simp
      then show ?thesis using o in_src s(2) by (auto simp: ordered_def)
    qed
  qed
qed (use take_row_sources [OF t] in metis)+

lemma merge_sorts:
  assumes "keyed from_line from_val m" "ordered from_line from_val m" "\<not> sm_dedup m"
  shows "mset (merge_all from_line from_val m) = pending from_line from_val m \<and>
    sorted (map (row_key (sm_sort_key_col m)) (merge_all from_line from_val m))"
  using assms
proof (induction "merge_size m" arbitrary: m rule: less_induct)
  case less
  show ?case
  proof (cases "take_row from_line from_val m")
    case None
    then show ?thesis
      using take_row_None [OF less.prems(1)] by (simp add: merge_all.simps [of _ _ m] next_tuple.simps [of _ _ m])
  next
    case (Some rm)
    then obtain row m' where t: "take_row from_line from_val m = Some (row, m')" by (cases rm) auto
    note keep = take_row_keeps [OF less.prems(1,2) t]
    have all: "merge_all from_line from_val m = row # merge_all from_line from_val m'"
      using less.prems(3) keep(6) by (simp add: merge_all.simps [of _ _ m] next_tuple.simps [of _ _ m] t)
    have IH: "mset (merge_all from_line from_val m') = pending from_line from_val m'"
      "sorted (map (row_key (sm_sort_key_col m)) (merge_all from_line from_val m'))"
      using less.hyps [OF take_row_shrinks [OF t] keep(1,2)] less.prems(3) keep(5,6) by simp_all
    have "\<forall>r\<in>set (merge_all from_line from_val m'). row_key (sm_sort_key_col m) row \<le> row_key (sm_sort_key_col m) r"
      using IH(1) keep(4) by (metis set_mset_mset)
    then show ?thesis using IH keep(3) by (simp add: all)
  qed
qed

lemma last_key_irrelevant [simp]:
  "sources from_line from_val (m\<lparr>sm_last_key := x\<rparr>) = sources from_line from_val m"
  "pending from_line from_val (m\<lparr>sm_last_key := x\<rparr>) = pending from_line from_val m"
  "keyed from_line from_val (m\<lparr>sm_last_key := x\<rparr>) = keyed from_line from_val m"
  "ordered from_line from_val (m\<lparr>sm_last_key := x\<rparr>) = ordered from_line from_val m"
  "merge_size (m\<lparr>sm_last_key := x\<rparr>) = merge_size m"
  by (simp_all add: sources_def pending_def keyed_def ordered_def merge_size_def)

lemma keyed_pending:
  assumes "keyed from_line from_val m" "r \<in># pending from_line from_val m"
  shows "sort_key_of (sm_sort_key_col m) r = Some (row_key (sm_sort_key_col m) r)"
proof -
  obtain s where "s \<in> set (sources from_line from_val m)" "r \<in> set s" using assms(2) by (auto simp: pending_def)
  then have "sort_key_of (sm_sort_key_col m) r \<noteq> None" using assms(1) unfolding keyed_def by blast
  then show ?thesis by (auto simp: row_key_def)
qed

text \<open>With deduplication, the keys of the output are those of the sources, each once, past the last one emitted.\<close>

lemma merge_dedups:
  assumes "keyed from_line from_val m" "ordered from_line from_val m" "sm_dedup m"
    and "\<And>r l. r \<in># pending from_line from_val m \<Longrightarrow> sm_last_key m = Some l \<Longrightarrow> l \<le> row_key (sm_sort_key_col m) r"
  shows "sorted_wrt (<) (map (row_key (sm_sort_key_col m)) (merge_all from_line from_val m)) \<and>
    row_key (sm_sort_key_col m) ` set (merge_all from_line from_val m) =
      row_key (sm_sort_key_col m) ` set_mset (pending from_line from_val m) - set_option (sm_last_key m) \<and>
    set (merge_all from_line from_val m) \<subseteq> set_mset (pending from_line from_val m)"
  using assms
proof (induction "merge_size m" arbitrary: m rule: less_induct)
  case less
  let ?key = "row_key (sm_sort_key_col m)"
  show ?case
  proof (cases "take_row from_line from_val m")
    case None
    then show ?thesis
      using take_row_None [OF less.prems(1)] by (simp add: merge_all.simps [of _ _ m] next_tuple.simps [of _ _ m])
  next
    case (Some rm)
    then obtain row m1 where t: "take_row from_line from_val m = Some (row, m1)" by (cases rm) auto
    note keep = take_row_keeps [OF less.prems(1,2) t]
    have row: "row \<in># pending from_line from_val m" using keep(3) by simp
    then have key: "sort_key_of (sm_sort_key_col m) row = Some (?key row)" using keyed_pending [OF less.prems(1)] by blast
    have sub: "r \<in># pending from_line from_val m1 \<Longrightarrow> r \<in># pending from_line from_val m" for r using keep(3) by simp
    show ?thesis
    proof (cases "sm_last_key m = Some (?key row)")
      case True
      have "l \<le> row_key (sm_sort_key_col m1) r" if "r \<in># pending from_line from_val m1" "sm_last_key m1 = Some l" for r l
        using less.prems(4) [OF sub [OF that(1)]] that(2) keep(5-7) by simp
      note IH0 = less.hyps [OF take_row_shrinks [OF t] keep(1,2) less.prems(3) [folded keep(6)] this]
      have all: "merge_all from_line from_val m = merge_all from_line from_val m1"
        using True less.prems(3) keep(5-7) key
        by (simp add: merge_all.simps [of _ _ m] merge_all.simps [of _ _ m1] next_tuple.simps [of _ _ m] t)
      show ?thesis
        using IH0 True keep(3) unfolding all by (auto simp: keep(5-7))
    next
      case False
      define m2 where "m2 = m1\<lparr>sm_last_key := Some (?key row)\<rparr>"
      have all: "merge_all from_line from_val m = row # merge_all from_line from_val m2"
        using False less.prems(3) keep(5-7) key
        by (simp add: merge_all.simps [of _ _ m] next_tuple.simps [of _ _ m] t m2_def)
      have f2: "pending from_line from_val m2 = pending from_line from_val m1" "sm_sort_key_col m2 = sm_sort_key_col m"
        "sm_last_key m2 = Some (?key row)" "merge_size m2 < merge_size m" "sm_dedup m2"
        "keyed from_line from_val m2" "ordered from_line from_val m2"
        using keep take_row_shrinks [OF t] less.prems(3) by (simp_all add: m2_def)
      have "l \<le> row_key (sm_sort_key_col m2) r" if "r \<in># pending from_line from_val m2" "sm_last_key m2 = Some l" for r l
        using keep(4) that f2 by simp
      note IH0 = less.hyps [OF f2(4,6,7,5) this]
      have IH: "sorted_wrt (<) (map ?key (merge_all from_line from_val m2))"
        "?key ` set (merge_all from_line from_val m2) = ?key ` set_mset (pending from_line from_val m1) - {?key row}"
        "set (merge_all from_line from_val m2) \<subseteq> set_mset (pending from_line from_val m1)"
        using IH0 by (simp_all add: f2)
      have above: "?key row < ?key r" if "r \<in> set (merge_all from_line from_val m2)" for r
      proof -
        have "?key r \<noteq> ?key row" using IH(2) that by blast
        moreover have "?key row \<le> ?key r" using IH(3) that keep(4) by blast
        ultimately show ?thesis by simp
      qed
      have old: "set_option (sm_last_key m) \<inter> insert (?key row) (?key ` set_mset (pending from_line from_val m1)) = {}"
      proof -
        have "l < ?key row" if "sm_last_key m = Some l" for l
          using less.prems(4) [OF row that] False that by simp
        then show ?thesis using keep(4) by (cases "sm_last_key m") force+
      qed
      have "?key ` set (merge_all from_line from_val m) = insert (?key row) (?key ` set_mset (pending from_line from_val m1))"
        using IH(2) by (simp add: all)
      then show ?thesis
        using IH(1,3) above old keep(3) by (auto simp: all)
    qed
  qed
qed

text \<open>The sources of a merge that was opened on spill files.\<close>

definition file_rows ::
  "(string \<Rightarrow> 'j db_value list option) \<Rightarrow> (string \<Rightarrow> 'j db_value option) \<Rightarrow> spiller \<Rightarrow> spill_file \<Rightarrow> 'j db_value list list" where
  "file_rows from_line from_val sp sf =
     (case sp_files sp (sf_path sf) of Some text \<Rightarrow> all_rows from_line from_val (file_lines text) | None \<Rightarrow> [])"

definition merge_runs ::
  "(string \<Rightarrow> 'j db_value list option) \<Rightarrow> (string \<Rightarrow> 'j db_value option) \<Rightarrow> spiller \<Rightarrow> spill_file list
     \<Rightarrow> 'j db_value list list \<Rightarrow> 'j db_value list list list" where
  "merge_runs from_line from_val sp files mem =
     map (file_rows from_line from_val sp) (filter (\<lambda>sf. sf_row_count sf > 0) files) @ [mem]"

lemma cursor_new_rows:
  assumes "cursor_new from_line from_val sp sf col = Inr c"
  shows "cursor_rows from_line from_val c = file_rows from_line from_val sp sf" "mc_sort_key_col c = col"
proof -
  obtain body where body: "sp_files sp (sf_path sf) = Some body"
    using assms by (auto simp: cursor_new_def split: option.splits)
  show "cursor_rows from_line from_val c = file_rows from_line from_val sp sf"
    using assms read_next_all [of from_line from_val "file_lines body"]
    by (auto simp: cursor_new_def body file_rows_def cursor_rows_def Let_def split: prod.splits option.splits)
  show "mc_sort_key_col c = col"
    using assms by (auto simp: cursor_new_def body split: prod.splits)
qed

lemma open_cursors_rows:
  "open_cursors from_line from_val sp col files = Inr cs \<Longrightarrow>
     map (cursor_rows from_line from_val) cs =
       map (file_rows from_line from_val sp) (filter (\<lambda>sf. sf_row_count sf > 0) files) \<and>
     set (map mc_sort_key_col cs) \<subseteq> {col}"
  by (induction files arbitrary: cs)
    (auto simp: cursor_new_rows image_subset_iff split: if_splits sum.splits)

lemma merge_new_state:
  assumes "merge_new from_line from_val sp files (Some mem) col dedup = Inr m"
  shows "sources from_line from_val m = merge_runs from_line from_val sp files mem" "sm_sort_key_col m = col"
    "sm_dedup m = dedup" "sm_last_key m = None" "set (map mc_sort_key_col (sm_cursors m)) \<subseteq> {col}"
  using assms open_cursors_rows [of from_line from_val sp col files]
  by (auto simp: merge_new_def sources_def merge_runs_def image_subset_iff split: sum.splits)

text \<open>C20. The merge of spill files is a sorted merge and it ends. Open the merge on spill files and an
  in-memory run in which every row has an integer key in the sort column and every run is ascending
  in it. Draining the merge then ends with all rows of all runs, as a multiset, in ascending key
  order; with deduplication it ends with exactly the keys of the runs, each once and in strictly
  ascending order, each with one of its rows.
\<close>

theorem merge_spill_files:
  assumes "merge_new from_line from_val sp files (Some mem) col dedup = Inr m"
    and "\<And>run. run \<in> set (merge_runs from_line from_val sp files mem) \<Longrightarrow>
      sorted (map (row_key col) run) \<and> (\<forall>row\<in>set run. sort_key_of col row \<noteq> None)"
  shows "if dedup
    then sorted_wrt (<) (map (row_key col) (merge_all from_line from_val m)) \<and>
      row_key col ` set (merge_all from_line from_val m) =
        row_key col ` set (concat (merge_runs from_line from_val sp files mem)) \<and>
      set (merge_all from_line from_val m) \<subseteq> set (concat (merge_runs from_line from_val sp files mem))
    else sorted (map (row_key col) (merge_all from_line from_val m)) \<and>
      mset (merge_all from_line from_val m) = mset (concat (merge_runs from_line from_val sp files mem))"
proof -
  note st = merge_new_state [OF assms(1)]
  have k: "keyed from_line from_val m" using st assms(2) by (auto simp: keyed_def)
  have o: "ordered from_line from_val m" using st assms(2) by (simp add: ordered_def)
  have p: "pending from_line from_val m = mset (concat (merge_runs from_line from_val sp files mem))"
    by (simp add: pending_def st(1))
  show ?thesis
  proof (cases dedup)
    case True
    then show ?thesis using merge_dedups [OF k o] st p by simp
  next
    case False
    then show ?thesis using merge_sorts [OF k o] st p by simp
  qed
qed

theorem merge_spill_files_witness:
  "\<exists>m. merge_new (\<lambda>s. if s = ''1'' then Some [VInt64 1] else if s = ''3'' then Some [VInt64 3] else None) (\<lambda>_. None :: unit db_value option)
      \<lparr>sp_files = [1 \<mapsto> ''1'' @ [newline] @ ''3'' @ [newline]], spill_counter = 2, memory_threshold = 64\<rparr>
      [\<lparr>sf_path = 1, sf_row_count = 2, sf_sort_key_column = None\<rparr>] (Some [[VInt64 2]]) 0 False = Inr m \<and>
    mset (merge_all (\<lambda>s. if s = ''1'' then Some [VInt64 1] else if s = ''3'' then Some [VInt64 3] else None) (\<lambda>_. None) m) =
      {#[VInt64 1], [VInt64 3], [VInt64 2]#}"
proof -
  define fl :: "string \<Rightarrow> unit db_value list option" where
    "fl = (\<lambda>s. if s = ''1'' then Some [VInt64 1] else if s = ''3'' then Some [VInt64 3] else None)"
  define fv :: "string \<Rightarrow> unit db_value option" where "fv = (\<lambda>_. None)"
  define sp where "sp = \<lparr>sp_files = [1 \<mapsto> ''1'' @ [newline] @ ''3'' @ [newline]], spill_counter = 2, memory_threshold = 64\<rparr>"
  define sf where "sf = \<lparr>sf_path = 1, sf_row_count = 2, sf_sort_key_column = None\<rparr>"
  have trims: "trim ''1'' = ''1''" "trim ''3'' = ''3''" by (simp_all add: trim_def is_ws_def)
  have lines: "file_lines (''1'' @ [newline] @ ''3'' @ [newline]) = [''1'', ''3'']"
    by (simp add: newline_def)
  have runs: "merge_runs fl fv sp [sf] [[VInt64 2]] = [[[VInt64 1], [VInt64 3]], [[VInt64 2]]]"
    by (simp add: merge_runs_def file_rows_def sp_def sf_def lines trims fl_def fv_def del: append.simps append_Cons)
  have "merge_new fl fv sp [sf] (Some [[VInt64 2]]) 0 False =
    Inr \<lparr>sm_cursors = [\<lparr>mc_reader = [''3''], mc_current = Some [VInt64 1], mc_sort_key_col = 0\<rparr>],
         sm_in_memory_rows = [[VInt64 2]], sm_in_memory_idx = 0, sm_sort_key_col = 0, sm_dedup = False, sm_last_key = None\<rparr>"
    (is "_ = Inr ?m")
    by (simp add: merge_new_def cursor_new_def sp_def sf_def lines trims fl_def fv_def del: append.simps append_Cons)
  then have m: "merge_new fl fv sp [sf] (Some [[VInt64 2]]) 0 False = Inr ?m" .
  have ok: "sorted (map (row_key 0) run) \<and> (\<forall>row\<in>set run. sort_key_of 0 row \<noteq> None)"
    if "run \<in> set (merge_runs fl fv sp [sf] [[VInt64 2]])" for run
    using that unfolding runs by (auto simp: row_key_def sort_key_of_def)
  have "mset (merge_all fl fv ?m) = mset (concat (merge_runs fl fv sp [sf] [[VInt64 2]]))"
    using merge_spill_files [OF m ok] by simp
  then show ?thesis
    using m unfolding runs by (auto simp: fl_def fv_def sp_def sf_def)
qed

text \<open>A row without an integer key blocks its source. Draining the merge of an in-memory run whose
  second row is null in the sort column gives the first row only: the null row and the integer row
  after it are never emitted, and no error is reported.
\<close>

theorem merge_drops_unkeyed_rows:
  "case merge_new (\<lambda>_. None) (\<lambda>_. None) (spiller_new 64) [] (Some [[VInt64 1], [VNull], [VInt64 2 :: unit db_value]]) 0 False of
     Inr m \<Rightarrow> merge_all (\<lambda>_. None) (\<lambda>_. None) m = [[VInt64 1]]
   | Inl _ \<Rightarrow> False"
  by (simp add: merge_new_def merge_all.simps next_tuple.simps take_row_def find_smallest_def better_def sort_key_of_def)

section \<open>A spill file gives its rows back\<close>

text \<open>
  What is relied on of the row printer and parser for one row: it prints to one line that is not
  blank and parses back.
\<close>

definition line_ok :: "('r \<Rightarrow> string option) \<Rightarrow> (string \<Rightarrow> 'r option) \<Rightarrow> 'r \<Rightarrow> bool" where
  "line_ok to_line from_line r \<longleftrightarrow>
     (\<exists>l. to_line r = Some l \<and> newline \<notin> set l \<and> trim l \<noteq> [] \<and> from_line (trim l) = Some r)"

definition io_ok :: "io_model \<Rightarrow> bool" where
  "io_ok io \<longleftrightarrow> (\<forall>n. can_create io n) \<and> (\<forall>n k. can_write io n k)"

definition strip_cr :: "string \<Rightarrow> string" where
  "strip_cr l = (if l \<noteq> [] \<and> last l = CHR 0x0D then butlast l else l)"

lemma trim_strip_cr [simp]: "trim (strip_cr l) = trim l"
proof (cases "l \<noteq> [] \<and> last l = CHR 0x0D")
  case True
  then obtain l' where l: "l = l' @ [CHR 0x0D]" by (metis append_butlast_last_id)
  have cr: "is_ws (CHR 0x0D)" by (simp add: is_ws_def)
  show ?thesis
  proof (cases "\<forall>c\<in>set l'. is_ws c")
    case True
    then have "dropWhile is_ws l' = []" "dropWhile is_ws l = []" by (auto simp: l cr)
    moreover have "strip_cr l = l'" by (simp add: l strip_cr_def)
    ultimately show ?thesis by (simp only: trim_def)
  next
    case False
    then have "dropWhile is_ws l = dropWhile is_ws l' @ [CHR 0x0D]" by (auto simp: l dropWhile_append)
    then show ?thesis by (simp add: strip_cr_def trim_def cr) (simp add: l)
  qed
qed (auto simp: strip_cr_def)

lemma file_lines_cons:
  assumes "newline \<notin> set l"
  shows "file_lines (l @ newline # s) = strip_cr l # file_lines s"
proof -
  have t: "takeWhile (\<lambda>d. d \<noteq> newline) (l @ newline # s) = l" "dropWhile (\<lambda>d. d \<noteq> newline) (l @ newline # s) = newline # s"
    using assms by (auto simp: takeWhile_append dropWhile_append)
  show ?thesis
    using t by (cases "l @ newline # s") (auto simp: strip_cr_def Let_def simp del: takeWhile.simps dropWhile.simps)
qed

lemma write_lines_ok:
  assumes "io_ok io" "\<And>r. r \<in> set rows \<Longrightarrow> line_ok to_line from_line r"
  obtains body where "write_lines io to_line n k rows pre = (Inr (), pre @ body)"
    "parse_lines from_line (file_lines body) = Inr rows"
  using assms
proof (induction rows arbitrary: k pre thesis)
  case Nil
  then show ?case by simp
next
  case (Cons r rows)
  obtain l where l: "to_line r = Some l" "newline \<notin> set l" "trim l \<noteq> []" "from_line (trim l) = Some r"
    using Cons.prems(3) [of r] by (auto simp: line_ok_def)
  obtain body where body: "write_lines io to_line n (Suc k) rows (pre @ l @ [newline]) = (Inr (), (pre @ l @ [newline]) @ body)"
    "parse_lines from_line (file_lines body) = Inr rows"
    using Cons.IH [of "Suc k" "pre @ l @ [newline]"] Cons.prems(2,3) by auto
  show ?case
  proof (rule Cons.prems(1))
    show "write_lines io to_line n k (r # rows) pre = (Inr (), pre @ l @ newline # body)"
      using body(1) l Cons.prems(2) by (simp add: io_ok_def)
    show "parse_lines from_line (file_lines (l @ newline # body)) = Inr (r # rows)"
      using body(2) l by (simp add: file_lines_cons)
  qed
qed

lemma spill_rows_ok:
  assumes "io_ok io" "\<And>r. r \<in> set rows \<Longrightarrow> line_ok to_line from_line r"
  obtains body where "spill_rows io to_line rows sp =
      (Inr (Some \<lparr>sf_path = spill_counter sp, sf_row_count = length rows, sf_sort_key_column = None\<rparr>),
       sp\<lparr>spill_counter := spill_counter sp + 1, sp_files := (sp_files sp)(spill_counter sp \<mapsto> body)\<rparr>)"
    "parse_lines from_line (file_lines body) = Inr rows"
proof -
  obtain body where "write_lines io to_line (spill_counter sp) 0 rows [] = (Inr (), body)"
    "parse_lines from_line (file_lines body) = Inr rows"
    using write_lines_ok [OF assms, where n = "spill_counter sp" and k = 0 and pre = "[]"] by (metis append_Nil)
  then show ?thesis
    using assms(1) that by (simp add: spill_rows_def next_spill_path_def io_ok_def)
qed

end
