(* ===== verification/Node_Group.thy ===== *)
theory Node_Group
  imports Spiller
begin

text \<open>
  Node groups (\<^verbatim>\<open>akar-storage/src/node_group.rs\<close>): one chunk per column, the insert and delete versions of
  the rows, and spilling of the buffer. The spiller is shared between groups and is passed along; a
  group records whether it has one. Rows are counted in \<open>nat\<close>. A result is \<open>None\<close> where the code panics. The flushes
  into column files are not modelled.
\<close>

record 'j node_group =
  ng_columns :: "'j column_chunk list"
  start_offset :: u64
  num_nodes :: nat
  ng_version_info :: "version_info option"
  has_spiller :: bool
  spill_files :: "spill_file list"

definition ng_new :: "nat \<Rightarrow> u64 \<Rightarrow> 'j node_group" where
  "ng_new num_columns start =
     \<lparr>ng_columns = replicate num_columns chunk_new, start_offset = start, num_nodes = 0, ng_version_info = None,
      has_spiller = False, spill_files = []\<rparr>"

definition ng_with_capacity :: "nat \<Rightarrow> u64 \<Rightarrow> nat \<Rightarrow> 'j node_group" where
  "ng_with_capacity num_columns start capacity =
     \<lparr>ng_columns = replicate num_columns (cc_with_capacity capacity), start_offset = start, num_nodes = 0,
      ng_version_info = None, has_spiller = False, spill_files = []\<rparr>"

definition set_spiller :: "'j node_group \<Rightarrow> 'j node_group" where
  "set_spiller g = g\<lparr>has_spiller := True\<rparr>"

definition enable_version_info :: "'j node_group \<Rightarrow> 'j node_group" where
  "enable_version_info g =
     (case ng_version_info g of
        None \<Rightarrow> g\<lparr>ng_version_info := Some (vi_new NODE_GROUP_SIZE)\<rparr>
      | Some _ \<Rightarrow> g)"

definition ng_is_full :: "'j node_group \<Rightarrow> bool" where
  "ng_is_full g = (num_nodes g \<ge> NODE_GROUP_SIZE)"

definition ng_is_empty :: "'j node_group \<Rightarrow> bool" where
  "ng_is_empty g = (num_nodes g = 0)"

definition ng_remaining :: "'j node_group \<Rightarrow> nat" where
  "ng_remaining g = NODE_GROUP_SIZE - num_nodes g"

definition spill_and_clear ::
  "io_model \<Rightarrow> ('j db_value list \<Rightarrow> string option) \<Rightarrow> 'j node_group \<Rightarrow> spiller
     \<Rightarrow> (storage_error + unit) \<times> 'j node_group \<times> spiller" where
  "spill_and_clear io to_line g sp =
     (if \<not> has_spiller g then (Inl NoSpiller, g, sp)
      else if ng_is_empty g then (Inr (), g, sp)
      else case spill_columns io to_line (ng_columns g) sp of
             (Inl e, cols, sp1) \<Rightarrow> (Inl e, g\<lparr>ng_columns := cols\<rparr>, sp1)
           | (Inr sf, cols, sp1) \<Rightarrow>
               (Inr (),
                g\<lparr>ng_columns := cols,
                  spill_files := (case sf of Some f \<Rightarrow> spill_files g @ [f] | None \<Rightarrow> spill_files g),
                  num_nodes := 0,
                  ng_version_info := map_option vi_reset (ng_version_info g)\<rparr>,
                sp1))"

fun append_values :: "'j db_value list \<Rightarrow> 'j column_chunk list \<Rightarrow> 'j column_chunk list option" where
  "append_values (v # vs) (c # cs) =
     (case cc_append v c of None \<Rightarrow> None | Some c' \<Rightarrow> map_option (Cons c') (append_values vs cs))"
| "append_values _ cs = Some cs"

definition append_row_with_txn ::
  "io_model \<Rightarrow> ('j db_value list \<Rightarrow> string option) \<Rightarrow> 'j db_value list \<Rightarrow> u64 option \<Rightarrow> 'j node_group \<Rightarrow> spiller
     \<Rightarrow> ((storage_error + unit) \<times> 'j node_group \<times> spiller) option" where
  "append_row_with_txn io to_line row txn g sp =
     (if length row \<noteq> length (ng_columns g)
      then Some (Inl (ColumnCountMismatch (length (ng_columns g)) (length row)), g, sp)
      else if ng_is_full g then Some (Inl GroupFull, g, sp)
      else
        case (if has_spiller g \<and> ng_columns g \<noteq> [] \<and> should_spill sp (hd (ng_columns g))
              then spill_and_clear io to_line g sp else (Inr (), g, sp)) of
          (Inl e, g1, sp1) \<Rightarrow> Some (Inl e, g1, sp1)
        | (Inr _, g1, sp1) \<Rightarrow>
            (case append_values row (ng_columns g1) of
               None \<Rightarrow> None
             | Some cols \<Rightarrow>
                 Some (Inr (),
                   g1\<lparr>ng_columns := cols,
                      ng_version_info :=
                        (case (ng_version_info g1, txn) of
                           (Some vi, Some t) \<Rightarrow> Some (vi_insert t (word_of_nat (num_nodes g1)) vi)
                         | (v, _) \<Rightarrow> v),
                      num_nodes := num_nodes g1 + 1\<rparr>, sp1)))"

definition append_row ::
  "io_model \<Rightarrow> ('j db_value list \<Rightarrow> string option) \<Rightarrow> 'j db_value list \<Rightarrow> 'j node_group \<Rightarrow> spiller
     \<Rightarrow> ((storage_error + unit) \<times> 'j node_group \<times> spiller) option" where
  "append_row io to_line row g sp = append_row_with_txn io to_line row None g sp"

definition ng_row :: "'j node_group \<Rightarrow> nat \<Rightarrow> 'j db_value list" where
  "ng_row g r = map (\<lambda>c. case cc_get r c of Some v \<Rightarrow> v | None \<Rightarrow> VNull) (ng_columns g)"

definition ng_scan :: "'j node_group \<Rightarrow> 'j db_value list list" where
  "ng_scan g = map (ng_row g) [0..<num_nodes g]"

definition ng_scan_range :: "nat \<Rightarrow> nat \<Rightarrow> 'j node_group \<Rightarrow> 'j db_value list list" where
  "ng_scan_range start n g =
     (let stop = min (start + n) (num_nodes g)
      in if start \<ge> stop then [] else map (ng_row g) [start..<stop])"

definition ng_get_value :: "nat \<Rightarrow> nat \<Rightarrow> 'j node_group \<Rightarrow> 'j db_value option" where
  "ng_get_value local_row col g = (if col < length (ng_columns g) then cc_get local_row (ng_columns g ! col) else None)"

definition is_row_visible :: "nat \<Rightarrow> u64 \<Rightarrow> (u64 \<rightharpoonup> u64) \<Rightarrow> 'j node_group \<Rightarrow> bool" where
  "is_row_visible local_row snapshot history g =
     (case ng_version_info g of
        Some vi \<Rightarrow> vi_is_visible (word_of_nat local_row) snapshot history vi
      | None \<Rightarrow> True)"

definition ng_get_value_with_snapshot ::
  "nat \<Rightarrow> nat \<Rightarrow> u64 option \<Rightarrow> (u64 \<rightharpoonup> u64) \<Rightarrow> 'j node_group \<Rightarrow> 'j db_value option" where
  "ng_get_value_with_snapshot local_row col snapshot history g =
     (if (case snapshot of Some ts \<Rightarrow> \<not> is_row_visible local_row ts history g | None \<Rightarrow> False) then None
      else if col < length (ng_columns g) then get_value_with_snapshot local_row snapshot (ng_columns g ! col)
      else None)"

definition ng_get_value_owned_with_snapshot ::
  "(bytes \<Rightarrow> 'j db_value option) \<Rightarrow> nat \<Rightarrow> nat \<Rightarrow> u64 option \<Rightarrow> (u64 \<rightharpoonup> u64) \<Rightarrow> 'j node_group \<Rightarrow> 'j db_value option" where
  "ng_get_value_owned_with_snapshot dec local_row col snapshot history g =
     (if (case snapshot of Some ts \<Rightarrow> \<not> is_row_visible local_row ts history g | None \<Rightarrow> False) then None
      else if col < length (ng_columns g) then get_value_owned_with_snapshot dec local_row snapshot (ng_columns g ! col)
      else None)"

definition ng_clear :: "'j node_group \<Rightarrow> 'j node_group" where
  "ng_clear g =
     g\<lparr>ng_columns := map cc_clear (ng_columns g), num_nodes := 0,
       ng_version_info := map_option vi_reset (ng_version_info g)\<rparr>"

text \<open>Restoring: the rows of one file, of all files in order, and the rebuilt columns.\<close>

definition chunk_rows :: "'j column_chunk list \<Rightarrow> 'j db_value list list" where
  "chunk_rows chunks =
     (let n = (case chunks of [] \<Rightarrow> 0 | c # _ \<Rightarrow> length (cc_values c))
      in map (\<lambda>r. map (\<lambda>c. case cc_get r c of Some v \<Rightarrow> v | None \<Rightarrow> VNull) chunks) [0..<n])"

fun restored_rows ::
  "(string \<Rightarrow> 'j db_value list option) \<Rightarrow> nat \<Rightarrow> spill_file list \<Rightarrow> spiller
     \<Rightarrow> (storage_error + 'j db_value list list) option" where
  "restored_rows from_line num_cols [] sp = Some (Inr [])"
| "restored_rows from_line num_cols (sf # sfs) sp =
     (case restore_columns from_line sf num_cols sp of
        None \<Rightarrow> None
      | Some (Inl e) \<Rightarrow> Some (Inl e)
      | Some (Inr chunks) \<Rightarrow>
          (case restored_rows from_line num_cols sfs sp of
             Some (Inr rows) \<Rightarrow> Some (Inr (chunk_rows chunks @ rows))
           | r \<Rightarrow> r))"

fun append_rows :: "'j db_value list list \<Rightarrow> 'j column_chunk list \<Rightarrow> 'j column_chunk list option" where
  "append_rows [] cols = Some cols"
| "append_rows (row # rows) cols =
     (if length row > length cols then None
      else case append_values row cols of None \<Rightarrow> None | Some cols' \<Rightarrow> append_rows rows cols')"

definition restore_spilled ::
  "(string \<Rightarrow> 'j db_value list option) \<Rightarrow> 'j node_group \<Rightarrow> spiller
     \<Rightarrow> ((storage_error + unit) \<times> 'j node_group \<times> spiller) option" where
  "restore_spilled from_line g sp =
     (if spill_files g = [] then Some (Inr (), g, sp)
      else if \<not> has_spiller g then Some (Inl NoSpiller, g, sp)
      else
        let num_cols = length (ng_columns g); files = spill_files g; g1 = g\<lparr>spill_files := []\<rparr>
        in case restored_rows from_line num_cols files sp of
             None \<Rightarrow> None
           | Some (Inl e) \<Rightarrow> Some (Inl e, g1, sp)
           | Some (Inr restored) \<Rightarrow>
               let rows = restored @ ng_scan g1
               in case append_rows rows (replicate num_cols chunk_new) of
                    None \<Rightarrow> None
                  | Some cols \<Rightarrow>
                      Some (Inr (),
                        g1\<lparr>ng_columns := cols, num_nodes := length rows,
                           ng_version_info := map_option vi_reset (ng_version_info g1)\<rparr>,
                        fold sp_cleanup files sp))"

section \<open>Rows and columns\<close>

text \<open>The columns of a list of rows of width \<open>n\<close>, and chunks that hold them.\<close>

definition cols_of :: "nat \<Rightarrow> 'a list list \<Rightarrow> 'a list list" where
  "cols_of n rows = map (\<lambda>i. map (\<lambda>r. r ! i) rows) [0..<n]"

definition chunks_hold :: "nat \<Rightarrow> 'j db_value list list \<Rightarrow> 'j column_chunk list \<Rightarrow> bool" where
  "chunks_hold n rows cs \<longleftrightarrow>
     map cc_values cs = cols_of n rows \<and> (\<forall>c\<in>set cs. bounds_paired (cc_stats c))"

lemma length_cols_of [simp]: "length (cols_of n rows) = n"
  by (simp add: cols_of_def)

lemma nth_cols_of [simp]: "i < n \<Longrightarrow> cols_of n rows ! i = map (\<lambda>r. r ! i) rows"
  by (simp add: cols_of_def)

lemma chunks_hold_length: "chunks_hold n rows cs \<Longrightarrow> length cs = n"
  by (metis chunks_hold_def length_cols_of length_map)

lemma chunks_hold_nth:
  assumes "chunks_hold n rows cs" "i < n"
  shows "cc_values (cs ! i) = map (\<lambda>r. r ! i) rows"
proof -
  have "map cc_values cs ! i = cols_of n rows ! i" using assms(1) by (simp add: chunks_hold_def)
  then show ?thesis using assms(2) chunks_hold_length [OF assms(1)] by simp
qed

lemma chunks_holdI:
  assumes "length cs = n" "\<And>i. i < n \<Longrightarrow> cc_values (cs ! i) = map (\<lambda>r. r ! i) rows \<and> bounds_paired (cc_stats (cs ! i))"
  shows "chunks_hold n rows cs"
  using assms by (auto simp: chunks_hold_def in_set_conv_nth intro!: nth_equalityI)

lemma append_values_ok:
  assumes "length vs = length cs" "\<forall>c\<in>set cs. bounds_paired (cc_stats c)"
  shows "\<exists>cs'. append_values vs cs = Some cs' \<and> length cs' = length cs \<and>
    (\<forall>i<length cs. cc_values (cs' ! i) = cc_values (cs ! i) @ [vs ! i] \<and> bounds_paired (cc_stats (cs' ! i)))"
  using assms
proof (induction vs cs rule: list_induct2)
  case (Cons v vs c cs)
  then obtain cs' where cs': "append_values vs cs = Some cs'" "length cs' = length cs"
    "\<forall>i<length cs. cc_values (cs' ! i) = cc_values (cs ! i) @ [vs ! i] \<and> bounds_paired (cc_stats (cs' ! i))"
    by auto
  obtain st where st: "stats_update v (cc_stats c) = Some st" "bounds_paired st"
    using stats_update_total [of "cc_stats c" v] Cons.prems by auto
  show ?case
    by (rule exI [of _ "c\<lparr>cc_stats := st, cc_values := cc_values c @ [v]\<rparr> # cs'"])
      (use cs' st in \<open>auto simp: cc_append_def nth_Cons split: nat.splits\<close>)
qed simp

lemma append_values_hold:
  assumes "chunks_hold n rows cs" "length row = n"
  obtains cs' where "append_values row cs = Some cs'" "chunks_hold n (rows @ [row]) cs'"
proof -
  have len: "length row = length cs" using assms chunks_hold_length by metis
  obtain cs' where cs': "append_values row cs = Some cs'" "length cs' = length cs"
    "\<forall>i<length cs. cc_values (cs' ! i) = cc_values (cs ! i) @ [row ! i] \<and> bounds_paired (cc_stats (cs' ! i))"
    using append_values_ok [OF len] assms(1) unfolding chunks_hold_def by metis
  have "chunks_hold n (rows @ [row]) cs'"
    by (rule chunks_holdI) (use cs' assms len chunks_hold_nth [OF assms(1)] in auto)
  then show ?thesis using that cs'(1) by blast
qed

lemma append_rows_hold:
  assumes "chunks_hold n pre cs" "\<forall>r\<in>set rows. length r = n"
  shows "\<exists>cs'. append_rows rows cs = Some cs' \<and> chunks_hold n (pre @ rows) cs'"
  using assms
proof (induction rows arbitrary: pre cs)
  case (Cons row rows)
  obtain cs1 where cs1: "append_values row cs = Some cs1" "chunks_hold n (pre @ [row]) cs1"
    using append_values_hold [OF Cons.prems(1), of row] Cons.prems(2) by auto
  then show ?case
    using Cons.IH [OF cs1(2)] Cons.prems chunks_hold_length [OF Cons.prems(1)] by auto
qed simp

lemma new_hold: "chunks_hold n [] (replicate n chunk_new)"
  by (rule chunks_holdI) (simp_all add: chunk_new_def stats_new_def bounds_paired_def)

lemma row_of_hold:
  assumes "chunks_hold n rows cs" "r < length rows" "length (rows ! r) = n"
  shows "map (\<lambda>c. case cc_get r c of Some v \<Rightarrow> v | None \<Rightarrow> VNull) cs = rows ! r"
    "row_of (map cc_values cs) r = rows ! r"
  using assms chunks_hold_length [OF assms(1)] chunks_hold_nth [OF assms(1)]
  by (auto simp: cc_get_def row_of_def intro!: nth_equalityI)

lemma chunk_rows_hold:
  assumes "chunks_hold n rows cs" "0 < n" "\<forall>r\<in>set rows. length r = n"
  shows "chunk_rows cs = rows"
proof -
  obtain c cs' where cs: "cs = c # cs'" using assms(2) chunks_hold_length [OF assms(1)] by (cases cs) auto
  have len: "length (cc_values c) = length rows" using chunks_hold_nth [OF assms(1,2)] by (simp add: cs)
  show ?thesis
    using row_of_hold(1) [OF assms(1)] assms(3) len unfolding chunk_rows_def Let_def
    by (intro nth_equalityI) (auto simp: cs)
qed

lemma scan_hold:
  assumes "chunks_hold n rows (ng_columns g)" "num_nodes g = length rows" "\<forall>r\<in>set rows. length r = n"
  shows "ng_scan g = rows"
  using row_of_hold(1) [OF assms(1)] assms(2,3) by (intro nth_equalityI) (auto simp: ng_scan_def ng_row_def)

lemma replicate_cols: "replicate n [] = cols_of n []"
  by (auto intro!: nth_equalityI)

lemma push_row_cols:
  "length row = n \<Longrightarrow> push_row n row (cols_of n rows) = cols_of n (rows @ [row])"
  by (auto simp: push_row_def intro!: nth_equalityI)

lemma push_rows_cols:
  "\<forall>r\<in>set rows. length r = n \<Longrightarrow> fold (push_row n) rows (cols_of n pre) = cols_of n (pre @ rows)"
  by (induction rows arbitrary: pre) (simp_all add: push_row_cols)

lemma stats_update_all_total:
  "bounds_paired st \<Longrightarrow> \<exists>st'. stats_update_all vs st = Some st' \<and> bounds_paired st'"
proof (induction vs arbitrary: st)
  case (Cons v vs)
  obtain st1 where "stats_update v st = Some st1" "bounds_paired st1" using stats_update_total [OF Cons.prems] .
  then show ?case using Cons.IH by simp
qed simp

lemma collect_chunks_hold:
  "\<exists>cs. collect_chunks vss = Some cs \<and> map cc_values cs = vss \<and> (\<forall>c\<in>set cs. bounds_paired (cc_stats c))"
proof (induction vss)
  case (Cons vs vss)
  obtain st where "stats_update_all vs (stats_new None None) = Some st" "bounds_paired st"
    using stats_update_all_total [of "stats_new None None" vs] by (auto simp: bounds_paired_def stats_new_def)
  then show ?case using Cons.IH by (auto simp: cc_from_def)
qed simp

lemma restore_columns_hold:
  assumes "restore_rows from_line sf sp = Inr rows" "\<forall>r\<in>set rows. length r = n"
  obtains cs where "restore_columns from_line sf n sp = Some (Inr cs)" "chunks_hold n rows cs"
proof -
  have "fold (push_row n) rows (replicate n []) = cols_of n rows"
    using push_rows_cols [OF assms(2), of "[]"] by (simp add: replicate_cols)
  then show ?thesis
    using that assms(1) collect_chunks_hold [of "cols_of n rows"]
    by (auto simp: restore_columns_def chunks_hold_def)
qed

section \<open>Ingesting with a memory bound\<close>

fun ingest ::
  "io_model \<Rightarrow> ('j db_value list \<Rightarrow> string option) \<Rightarrow> 'j db_value list list \<Rightarrow> 'j node_group \<Rightarrow> spiller
     \<Rightarrow> ((storage_error + unit) \<times> 'j node_group \<times> spiller) option" where
  "ingest io to_line [] g sp = Some (Inr (), g, sp)"
| "ingest io to_line (row # rows) g sp =
     (case append_row io to_line row g sp of
        Some (Inr _, g', sp') \<Rightarrow> ingest io to_line rows g' sp'
      | r \<Rightarrow> r)"

text \<open>
  The state while rows of width \<open>n\<close> are ingested: the spill files hold \<open>old\<close>, in order, and the buffer
  holds \<open>new\<close>. File numbers below the counter are in use.
\<close>

definition ingest_inv ::
  "(string \<Rightarrow> 'j db_value list option) \<Rightarrow> nat \<Rightarrow> 'j db_value list list \<Rightarrow> 'j db_value list list \<Rightarrow> 'j node_group \<Rightarrow> spiller \<Rightarrow> bool" where
  "ingest_inv from_line n old new g sp \<longleftrightarrow>
     has_spiller g \<and> chunks_hold n new (ng_columns g) \<and> num_nodes g = length new \<and>
     restored_rows from_line n (spill_files g) sp = Some (Inr old) \<and>
     length (spill_files g) \<le> length old \<and> unat (spill_counter sp) = Suc (length (spill_files g)) \<and>
     (\<forall>f\<in>set (spill_files g). unat (sf_path f) < unat (spill_counter sp)) \<and>
     dom (sp_files sp) = sf_path ` set (spill_files g)"

lemma restored_rows_frame:
  assumes "\<And>f. f \<in> set files \<Longrightarrow> sp_files sp' (sf_path f) = sp_files sp (sf_path f)"
  shows "restored_rows from_line n files sp' = restored_rows from_line n files sp"
  using assms
  by (induction files) (auto simp: restore_columns_def restore_rows_def split: option.splits sum.splits)

lemma restored_rows_snoc:
  assumes "restored_rows from_line n files sp = Some (Inr old)"
    "restore_columns from_line f n sp = Some (Inr chunks)"
  shows "restored_rows from_line n (files @ [f]) sp = Some (Inr (old @ chunk_rows chunks))"
  using assms
  by (induction files arbitrary: old) (auto split: option.splits sum.splits)

lemma spill_step:
  assumes inv: "ingest_inv from_line n old new g sp" and io: "io_ok io" and n: "0 < n"
    and rows: "\<forall>r\<in>set new. length r = n \<and> line_ok to_line from_line r" and ne: "new \<noteq> []"
    and cnt: "Suc (length old) < 2 ^ 64 - 1"
  obtains g' sp' where "spill_and_clear io to_line g sp = (Inr (), g', sp')"
    "ingest_inv from_line n (old @ new) [] g' sp'" "memory_threshold sp' = memory_threshold sp"
proof -
  note i = inv [unfolded ingest_inv_def]
  let ?p = "spill_counter sp"
  have hold: "chunks_hold n new (ng_columns g)" using i by blast
  obtain c cs where cols: "ng_columns g = c # cs"
    using n chunks_hold_length [OF hold] by (cases "ng_columns g") auto
  have len: "length (cc_values c) = length new" using chunks_hold_nth [OF hold n] by (simp add: cols)
  then have ne_c: "cc_values c \<noteq> []" using ne by auto
  have drained: "map (row_of (map cc_values (ng_columns g))) [0..<length new] = new"
    using row_of_hold(2) [OF hold] rows by (intro nth_equalityI) auto
  obtain body where sr: "spill_rows io to_line new sp =
      (Inr (Some \<lparr>sf_path = ?p, sf_row_count = length new, sf_sort_key_column = None\<rparr>),
       sp\<lparr>spill_counter := ?p + 1, sp_files := (sp_files sp)(?p \<mapsto> body)\<rparr>)"
    and body: "parse_lines from_line (file_lines body) = Inr new"
    using spill_rows_ok [OF io, of new to_line from_line sp] rows by blast
  define f where "f = \<lparr>sf_path = ?p, sf_row_count = length new, sf_sort_key_column = None\<rparr>"
  define sp' where "sp' = sp\<lparr>spill_counter := ?p + 1, sp_files := (sp_files sp)(?p \<mapsto> body)\<rparr>"
  define g' where "g' = g\<lparr>ng_columns := map (snd \<circ> cc_drain) (ng_columns g), spill_files := spill_files g @ [f],
    num_nodes := 0, ng_version_info := map_option vi_reset (ng_version_info g)\<rparr>"
  have step: "spill_and_clear io to_line g sp = (Inr (), g', sp')"
    using i ne len ne_c drained sr
    by (simp add: spill_and_clear_def spill_columns_def ng_is_empty_def cols g'_def sp'_def f_def cc_drain_def comp_def)
  have fresh: "sf_path x \<noteq> ?p" if "x \<in> set (spill_files g)" for x using i that by fastforce
  have old: "restored_rows from_line n (spill_files g) sp' = Some (Inr old)"
    using i restored_rows_frame [of "spill_files g" sp' sp from_line n] fresh by (simp add: sp'_def)
  have "restore_rows from_line f sp' = Inr new" using body by (simp add: restore_rows_def f_def sp'_def)
  then obtain ch where ch: "restore_columns from_line f n sp' = Some (Inr ch)" "chunks_hold n new ch"
    using restore_columns_hold rows by metis
  then have "chunk_rows ch = new" using chunk_rows_hold n rows by blast
  then have all: "restored_rows from_line n (spill_files g') sp' = Some (Inr (old @ new))"
    using restored_rows_snoc [OF old ch(1)] by (simp add: g'_def)
  have "unat (?p + 1) = Suc (unat ?p)"
  proof (rule unat_Suc_word)
    show "?p \<noteq> - 1"
    proof
      assume "?p = - 1"
      then have "unat ?p = 2 ^ 64 - 1" by (simp add: unsigned_minus_1_eq_mask mask_eq_exp_minus_1)
      then show False using i cnt by linarith
    qed
  qed
  then have counter: "unat (spill_counter sp') = Suc (length (spill_files g'))"
    "\<forall>x\<in>set (spill_files g'). unat (sf_path x) < unat (spill_counter sp')"
    using i by (auto simp: g'_def sp'_def f_def less_SucI)
  have files: "length (spill_files g') \<le> length (old @ new)"
    using i ne by (cases new) (auto simp: g'_def)
  have hold': "chunks_hold n [] (ng_columns g')"
    using hold chunks_hold_length [OF hold]
    by (intro chunks_holdI) (auto simp: g'_def cc_drain_def chunks_hold_def)
  have "ingest_inv from_line n (old @ new) [] g' sp'"
    unfolding ingest_inv_def using i hold' all counter files
    by (auto simp: g'_def sp'_def f_def)
  then show ?thesis using that step by (simp add: sp'_def)
qed

lemma append_step:
  assumes inv: "ingest_inv from_line n old new g sp" and io: "io_ok io" and n: "0 < n"
    and rows: "\<forall>r\<in>set (new @ [row]). length r = n \<and> line_ok to_line from_line r"
    and cnt: "Suc (length old) < 2 ^ 64 - 1" and room: "length new < NODE_GROUP_SIZE"
  obtains g' sp' old' new' where "append_row io to_line row g sp = Some (Inr (), g', sp')"
    "ingest_inv from_line n old' new' g' sp'" "old' @ new' = old @ new @ [row]"
    "memory_threshold sp' = memory_threshold sp"
    "new' = (if memory_threshold sp \<noteq> 0 \<and> word_of_nat (length new) * 64 > memory_threshold sp then [row] else new @ [row])"
proof -
  note i = inv [unfolded ingest_inv_def]
  have hold: "chunks_hold n new (ng_columns g)" using i by blast
  have len: "length (ng_columns g) = n" using chunks_hold_length [OF hold] .
  have first: "ng_columns g \<noteq> []" "length (cc_values (hd (ng_columns g))) = length new"
    using n len chunks_hold_nth [OF hold n] by (auto simp: hd_conv_nth)
  let ?spill = "memory_threshold sp \<noteq> 0 \<and> word_of_nat (length new) * 64 > memory_threshold sp"
  have ss: "should_spill sp (hd (ng_columns g)) = ?spill"
    by (simp add: should_spill_def estimated_chunk_size_def first)
  obtain g1 sp1 old1 new1 where pre:
    "(if has_spiller g \<and> ng_columns g \<noteq> [] \<and> should_spill sp (hd (ng_columns g))
      then spill_and_clear io to_line g sp else (Inr (), g, sp)) = (Inr (), g1, sp1)"
    and inv1: "ingest_inv from_line n old1 new1 g1 sp1" and eq: "old1 @ new1 = old @ new"
    and th: "memory_threshold sp1 = memory_threshold sp" and new1: "new1 = (if ?spill then [] else new)"
  proof (cases ?spill)
    case True
    then have "new \<noteq> []" by auto
    then obtain g' sp' where "spill_and_clear io to_line g sp = (Inr (), g', sp')"
      "ingest_inv from_line n (old @ new) [] g' sp'" "memory_threshold sp' = memory_threshold sp"
      using spill_step [where to_line = to_line, OF inv io n _ _ cnt] rows
      by (metis UnCI set_append)
    then show ?thesis using that [of g' sp' "old @ new" "[]"] True i first ss by simp
  next
    case False
    then show ?thesis using that [of g sp old new] inv ss by auto
  qed
  note i1 = inv1 [unfolded ingest_inv_def]
  obtain cs where cs: "append_values row (ng_columns g1) = Some cs" "chunks_hold n (new1 @ [row]) cs"
    using append_values_hold [of n new1 "ng_columns g1" row] i1 rows by auto
  define g2 where "g2 = g1\<lparr>ng_columns := cs, ng_version_info := (case (ng_version_info g1, None) of
      (Some vi, Some t) \<Rightarrow> Some (vi_insert t (word_of_nat (num_nodes g1)) vi) | (v, _) \<Rightarrow> v),
      num_nodes := num_nodes g1 + 1\<rparr>"
  have "append_row io to_line row g sp = Some (Inr (), g2, sp1)"
    using pre cs(1) rows len room i
    by (simp add: append_row_def append_row_with_txn_def g2_def ng_is_full_def split del: if_split)
  moreover have "ingest_inv from_line n old1 (new1 @ [row]) g2 sp1"
    using i1 cs(2) unfolding ingest_inv_def by (auto simp: g2_def)
  ultimately show ?thesis using that [of g2 sp1 old1 "new1 @ [row]"] eq th new1 by simp
qed

text \<open>
  The bound on the buffer: with a threshold that a group of full size exceeds, the buffer is spilled
  before it is full; without, all rows have to fit.
\<close>

definition fits_in_memory :: "u64 \<Rightarrow> nat \<Rightarrow> bool" where
  "fits_in_memory threshold rows \<longleftrightarrow> rows \<le> NODE_GROUP_SIZE \<or> 0 < threshold \<and> unat threshold < 64 * (NODE_GROUP_SIZE - 1)"

lemma ingest_ok:
  assumes "ingest_inv from_line n old new g sp" "io_ok io" "0 < n"
    and "\<forall>r\<in>set (new @ rows). length r = n \<and> line_ok to_line from_line r"
    and "Suc (length old + length new + length rows) < 2 ^ 64 - 1"
    and "length new + length rows \<le> NODE_GROUP_SIZE \<or>
      length new < NODE_GROUP_SIZE \<and> 0 < memory_threshold sp \<and> unat (memory_threshold sp) < 64 * (NODE_GROUP_SIZE - 1)"
  shows "\<exists>g' sp' old' new'. ingest io to_line rows g sp = Some (Inr (), g', sp') \<and>
    ingest_inv from_line n old' new' g' sp' \<and> old' @ new' = old @ new @ rows"
  using assms
proof (induction rows arbitrary: old new g sp)
  case Nil
  then show ?case by auto
next
  case (Cons row rows)
  have room: "length new < NODE_GROUP_SIZE" using Cons.prems(6) by auto
  have pr: "\<forall>r\<in>set (new @ [row]). length r = n \<and> line_ok to_line from_line r" using Cons.prems(4) by auto
  have cnt: "Suc (length old) < 2 ^ 64 - 1" using Cons.prems(5) by simp
  obtain g1 sp1 old1 new1 where a: "append_row io to_line row g sp = Some (Inr (), g1, sp1)"
    "ingest_inv from_line n old1 new1 g1 sp1" "old1 @ new1 = old @ new @ [row]"
    "memory_threshold sp1 = memory_threshold sp"
    "new1 = (if memory_threshold sp \<noteq> 0 \<and> word_of_nat (length new) * 64 > memory_threshold sp then [row] else new @ [row])"
    using append_step [OF Cons.prems(1-3) pr cnt room] by blast
  have len: "length old1 + length new1 = length old + length new + 1" using arg_cong [OF a(3), of length] by simp
  have big: "unat (word_of_nat (length new) * 64 :: u64) = length new * 64" if "length new < NODE_GROUP_SIZE"
    using that by (simp add: unat_word_ariths NODE_GROUP_SIZE_def unat_of_nat take_bit_nat_eq_self)
  have next_room: "length new1 + length rows \<le> NODE_GROUP_SIZE \<or>
      length new1 < NODE_GROUP_SIZE \<and> 0 < memory_threshold sp1 \<and> unat (memory_threshold sp1) < 64 * (NODE_GROUP_SIZE - 1)"
    using Cons.prems(6) big [OF room] a(4,5) room by (auto simp: word_less_nat_alt NODE_GROUP_SIZE_def)
  have rows: "\<forall>r\<in>set (new1 @ rows). length r = n \<and> line_ok to_line from_line r"
    using Cons.prems(4) a(5) by auto
  obtain g' sp' old' new' where "ingest io to_line rows g1 sp1 = Some (Inr (), g', sp')"
    "ingest_inv from_line n old' new' g' sp'" "old' @ new' = old1 @ new1 @ rows"
    using Cons.IH [OF a(2) Cons.prems(2,3) rows _ next_room] Cons.prems(5) len by auto
  moreover have "old1 @ new1 @ rows = old @ new @ row # rows"
    using arg_cong [OF a(3), of "\<lambda>xs. xs @ rows"] by simp
  ultimately show ?case using a(1) by auto
qed

lemma restore_ok:
  assumes inv: "ingest_inv from_line n old new g sp" and n: "0 < n" and rows: "\<forall>r\<in>set (old @ new). length r = n"
  obtains g' sp' where "restore_spilled from_line g sp = Some (Inr (), g', sp')" "ng_scan g' = old @ new"
    "spill_files g' = []" "dom (sp_files sp') = {}"
proof -
  note i = inv [unfolded ingest_inv_def]
  have clean: "dom (sp_files (fold sp_cleanup fs sp0)) = dom (sp_files sp0) - sf_path ` set fs" for fs sp0
    by (induction fs arbitrary: sp0) (auto simp: sp_cleanup_def)
  have len: "length (ng_columns g) = n" using i chunks_hold_length by blast
  show ?thesis
  proof (cases "spill_files g = []")
    case True
    then have "old = []" using i by simp
    then show ?thesis using that [of g sp] True i rows scan_hold [of n new g] by (auto simp: restore_spilled_def)
  next
    case False
    have scan: "ng_scan (g\<lparr>spill_files := []\<rparr>) = new"
      by (rule scan_hold) (use i rows in auto)
    obtain cs where cs: "append_rows (old @ new) (replicate n chunk_new) = Some cs" "chunks_hold n (old @ new) cs"
      using append_rows_hold [OF new_hold rows] by auto
    define g' where "g' = g\<lparr>spill_files := [], ng_columns := cs, num_nodes := length (old @ new),
      ng_version_info := map_option vi_reset (ng_version_info g)\<rparr>"
    have r: "restore_spilled from_line g sp = Some (Inr (), g', fold sp_cleanup (spill_files g) sp)"
      using False i len scan cs(1) by (simp add: restore_spilled_def g'_def)
    have "ng_scan g' = old @ new" by (rule scan_hold) (use cs(2) rows in \<open>auto simp: g'_def\<close>)
    then show ?thesis
      by (rule that [OF r]) (use clean [of "spill_files g" sp] i in \<open>auto simp: g'_def\<close>)
  qed
qed

text \<open>C19. A memory-bounded ingest loses nothing. Append any rows of the group's width to a fresh group with a
  spiller, where the rows fit in the group or the memory threshold is positive and below the size of a
  full group: if the files can be written and each row prints to a line that parses back, every
  append succeeds however often the buffer is spilled, the restore succeeds, a scan then gives exactly
  the appended rows in order, and no spill file is left.
\<close>

theorem ingest_restore_complete:
  assumes "io_ok io" "0 < n" "\<And>r. r \<in> set rows \<Longrightarrow> length r = n \<and> line_ok to_line from_line r"
    and "length rows < 2 ^ 64 - 2" "fits_in_memory threshold (length rows)"
  shows "\<exists>g sp g' sp'. ingest io to_line rows (set_spiller (ng_new n start)) (spiller_new threshold) = Some (Inr (), g, sp) \<and>
    restore_spilled from_line g sp = Some (Inr (), g', sp') \<and> ng_scan g' = rows \<and>
    spill_files g' = [] \<and> sp_files sp' = Map.empty"
proof -
  have inv: "ingest_inv from_line n [] [] (set_spiller (ng_new n start)) (spiller_new threshold)"
    by (simp add: ingest_inv_def set_spiller_def ng_new_def spiller_new_def new_hold)
  have room: "length [] + length rows \<le> NODE_GROUP_SIZE \<or> length [] < NODE_GROUP_SIZE \<and>
      0 < memory_threshold (spiller_new threshold) \<and>
      unat (memory_threshold (spiller_new threshold)) < 64 * (NODE_GROUP_SIZE - 1)"
    using assms(5) by (auto simp: fits_in_memory_def spiller_new_def NODE_GROUP_SIZE_def)
  obtain g sp old new where ing: "ingest io to_line rows (set_spiller (ng_new n start)) (spiller_new threshold) = Some (Inr (), g, sp)"
    and inv': "ingest_inv from_line n old new g sp" and eq: "old @ new = rows"
    using ingest_ok [OF inv assms(1,2) _ _ room, of to_line] assms(3,4) by auto
  obtain g' sp' where "restore_spilled from_line g sp = Some (Inr (), g', sp')" "ng_scan g' = old @ new"
    "spill_files g' = []" "dom (sp_files sp') = {}"
    using restore_ok [OF inv' assms(2)] eq assms(3) by blast
  then show ?thesis using ing eq by auto
qed

definition row_line :: "unit db_value list \<Rightarrow> string option" where
  "row_line r = (if r = [VBool True] then Some ''t'' else if r = [VBool False] then Some ''f'' else None)"

definition line_row :: "string \<Rightarrow> unit db_value list option" where
  "line_row l = (if l = ''t'' then Some [VBool True] else if l = ''f'' then Some [VBool False] else None)"

theorem ingest_restore_complete_witness:
  "\<exists>g sp g' sp'. ingest \<lparr>can_create = \<lambda>_. True, can_write = \<lambda>_ _. True\<rparr> row_line
      [[VBool True], [VBool False], [VBool True]] (set_spiller (ng_new 1 0)) (spiller_new 1) = Some (Inr (), g, sp) \<and>
    restore_spilled line_row g sp = Some (Inr (), g', sp') \<and>
    ng_scan g' = [[VBool True], [VBool False], [VBool True]] \<and> spill_files g' = [] \<and> sp_files sp' = Map.empty"
  by (rule ingest_restore_complete)
    (auto simp: io_ok_def line_ok_def row_line_def line_row_def fits_in_memory_def NODE_GROUP_SIZE_def newline_def
      trim_def is_ws_def)


end
