(* ===== verification/Roaring.thy ===== *)
theory Roaring
  imports Akar_Prelude
begin

unbundle bit_operations_syntax

text \<open>
  The Roaring bitmap (\<^verbatim>\<open>akar-storage/src/roaring_bitmap.rs\<close>): a set of 32-bit values in containers, one per
  value of the high 16 bits. A container is a sorted array or a bitmap of 1024 words. The B-tree map of
  containers is an association list in ascending key order; an iterator is the list of the items it
  yields. Binary search is given by its result on a sorted slice.
\<close>

section \<open>Containers\<close>

definition ARRAY_MAX_SIZE :: nat where
  "ARRAY_MAX_SIZE = 4096"

datatype container = Array "u16 list" | Bitmap "u64 list"

text \<open>\<open>Inr\<close> the position of the element, \<open>Inl\<close> the position where it would go.\<close>

definition binary_search :: "'a::linorder list \<Rightarrow> 'a \<Rightarrow> nat + nat" where
  "binary_search v x =
     (let pos = length (takeWhile (\<lambda>y. y < x) v)
      in if pos < length v \<and> v ! pos = x then Inr pos else Inl pos)"

definition vec_insert :: "nat \<Rightarrow> 'a \<Rightarrow> 'a list \<Rightarrow> 'a list" where
  "vec_insert pos x v = take pos v @ x # drop pos v"

definition vec_remove :: "nat \<Rightarrow> 'a list \<Rightarrow> 'a list" where
  "vec_remove pos v = take pos v @ drop (Suc pos) v"

definition word_idx :: "u16 \<Rightarrow> nat" where
  "word_idx idx = unat idx div 64"

definition bit_of :: "u16 \<Rightarrow> u64" where
  "bit_of idx = push_bit (unat idx mod 64) 1"

definition count_ones :: "u64 \<Rightarrow> nat" where
  "count_ones w = length (filter (bit w) [0..<64])"

definition c_len :: "container \<Rightarrow> nat" where
  "c_len c = (case c of Array v \<Rightarrow> length v | Bitmap bm \<Rightarrow> sum_list (map count_ones bm))"

definition c_is_empty :: "container \<Rightarrow> bool" where
  "c_is_empty c = (case c of Array v \<Rightarrow> v = [] | Bitmap bm \<Rightarrow> list_all (\<lambda>w. w = 0) bm)"

definition c_contains :: "container \<Rightarrow> u16 \<Rightarrow> bool" where
  "c_contains c idx =
     (case c of
        Array v \<Rightarrow> (case binary_search v idx of Inr _ \<Rightarrow> True | Inl _ \<Rightarrow> False)
      | Bitmap bm \<Rightarrow> bm ! word_idx idx AND bit_of idx \<noteq> 0)"

definition set_idx :: "u16 \<Rightarrow> u64 list \<Rightarrow> u64 list" where
  "set_idx idx bm = bm[word_idx idx := bm ! word_idx idx OR bit_of idx]"

definition unset_idx :: "u16 \<Rightarrow> u64 list \<Rightarrow> u64 list" where
  "unset_idx idx bm = bm[word_idx idx := bm ! word_idx idx AND NOT (bit_of idx)]"

definition from_array_to_bitmap :: "u16 list \<Rightarrow> u64 list" where
  "from_array_to_bitmap v = fold set_idx v (replicate 1024 0)"

definition c_add :: "u16 \<Rightarrow> container \<Rightarrow> bool \<times> container" where
  "c_add idx c =
     (case c of
        Array v \<Rightarrow>
          (case binary_search v idx of
             Inl pos \<Rightarrow>
               (let v' = vec_insert pos idx v
                in if length v' > ARRAY_MAX_SIZE then (True, Bitmap (from_array_to_bitmap v')) else (True, Array v'))
           | Inr _ \<Rightarrow> (False, c))
      | Bitmap bm \<Rightarrow>
          if bm ! word_idx idx AND bit_of idx = 0 then (True, Bitmap (set_idx idx bm)) else (False, c))"

definition c_remove :: "u16 \<Rightarrow> container \<Rightarrow> bool \<times> container" where
  "c_remove idx c =
     (case c of
        Array v \<Rightarrow>
          (case binary_search v idx of Inr pos \<Rightarrow> (True, Array (vec_remove pos v)) | Inl _ \<Rightarrow> (False, c))
      | Bitmap bm \<Rightarrow>
          if bm ! word_idx idx AND bit_of idx \<noteq> 0 then (True, Bitmap (unset_idx idx bm)) else (False, c))"

text \<open>The two-pointer merge of the array case, as a recursion over the rests of both slices.\<close>

fun merge_sorted :: "u16 list \<Rightarrow> u16 list \<Rightarrow> u16 list" where
  "merge_sorted (x # xs) (y # ys) =
     (if x < y then x # merge_sorted xs (y # ys)
      else if x > y then y # merge_sorted (x # xs) ys
      else x # merge_sorted xs ys)"
| "merge_sorted xs [] = xs"
| "merge_sorted [] ys = ys"

definition or_words :: "u64 list \<Rightarrow> u64 list \<Rightarrow> u64 list" where
  "or_words bm other = map2 (OR) bm other"

definition vec_add :: "u16 \<Rightarrow> u16 list \<Rightarrow> u16 list" where
  "vec_add idx v = (case binary_search v idx of Inl pos \<Rightarrow> vec_insert pos idx v | Inr _ \<Rightarrow> v)"

text \<open>The items of a bitmap in the order of the nested loops over words and bits.\<close>

definition word_items :: "nat \<Rightarrow> u64 \<Rightarrow> u16 list" where
  "word_items w word =
     (if word = 0 then []
      else map (\<lambda>b. word_of_nat (w * 64 + b)) (filter (\<lambda>b. word AND push_bit b 1 \<noteq> 0) [0..<64]))"

definition bitmap_items :: "u64 list \<Rightarrow> u16 list" where
  "bitmap_items bm = concat (map (\<lambda>w. word_items w (bm ! w)) [0..<1024])"

definition insert_all_from :: "container \<Rightarrow> container \<Rightarrow> container" where
  "insert_all_from c other =
     (case c of
        Array v \<Rightarrow>
          (case other of
             Array other_v \<Rightarrow>
               (let merged = merge_sorted v other_v
                in if length merged > ARRAY_MAX_SIZE then Bitmap (from_array_to_bitmap merged) else Array merged)
           | Bitmap other_bm \<Rightarrow>
               (if length v + sum_list (map count_ones other_bm) > ARRAY_MAX_SIZE
                then Bitmap (or_words (from_array_to_bitmap v) other_bm)
                else let v' = fold vec_add (bitmap_items other_bm) v
                     in if length v' > ARRAY_MAX_SIZE then Bitmap (from_array_to_bitmap v') else Array v'))
      | Bitmap bm \<Rightarrow>
          (case other of
             Array other_v \<Rightarrow> Bitmap (fold set_idx other_v bm)
           | Bitmap other_bm \<Rightarrow> Bitmap (or_words bm other_bm)))"

definition is_ok :: "'a + 'b \<Rightarrow> bool" where
  "is_ok r = (case r of Inr _ \<Rightarrow> True | Inl _ \<Rightarrow> False)"

definition retain_intersection :: "container \<Rightarrow> container \<Rightarrow> container" where
  "retain_intersection c other =
     (case (c, other) of
        (Array v, Array other_v) \<Rightarrow> Array (filter (\<lambda>x. is_ok (binary_search other_v x)) v)
      | (Array v, Bitmap other_bm) \<Rightarrow> Array (filter (\<lambda>x. other_bm ! word_idx x AND bit_of x \<noteq> 0) v)
      | (Bitmap bm, Array other_v) \<Rightarrow> Bitmap (map2 (AND) bm (fold set_idx other_v (replicate 1024 0)))
      | (Bitmap bm, Bitmap other_bm) \<Rightarrow> Bitmap (map2 (AND) bm other_bm))"

definition subtract :: "container \<Rightarrow> container \<Rightarrow> container" where
  "subtract c other =
     (case (c, other) of
        (Array v, Array other_v) \<Rightarrow> Array (filter (\<lambda>x. \<not> is_ok (binary_search other_v x)) v)
      | (Array v, Bitmap other_bm) \<Rightarrow> Array (filter (\<lambda>x. other_bm ! word_idx x AND bit_of x = 0) v)
      | (Bitmap bm, Array other_v) \<Rightarrow> Bitmap (fold unset_idx other_v bm)
      | (Bitmap bm, Bitmap other_bm) \<Rightarrow> Bitmap (map2 (\<lambda>w x. w AND NOT x) bm other_bm))"

definition c_iter :: "container \<Rightarrow> u16 list" where
  "c_iter c = (case c of Array v \<Rightarrow> v | Bitmap bm \<Rightarrow> bitmap_items bm)"

section \<open>The bitmap\<close>

record roaring_bitmap =
  containers :: "(u16 \<times> container) list"
  rb_len :: nat

definition key_of :: "u32 \<Rightarrow> u16" where
  "key_of value = ucast (drop_bit 16 value)"

definition low_of :: "u32 \<Rightarrow> u16" where
  "low_of value = ucast (value AND 0xFFFF)"

fun bt_put :: "'k::linorder \<Rightarrow> 'v \<Rightarrow> ('k \<times> 'v) list \<Rightarrow> ('k \<times> 'v) list" where
  "bt_put k v [] = [(k, v)]"
| "bt_put k v ((l, w) # m) =
     (if k < l then (k, v) # (l, w) # m else if k = l then (k, v) # m else (l, w) # bt_put k v m)"

definition bt_remove :: "'k \<Rightarrow> ('k \<times> 'v) list \<Rightarrow> ('k \<times> 'v) list" where
  "bt_remove k m = filter (\<lambda>(l, _). l \<noteq> k) m"

definition entry_or_new :: "u16 \<Rightarrow> (u16 \<times> container) list \<Rightarrow> container" where
  "entry_or_new k m = (case map_of m k of Some c \<Rightarrow> c | None \<Rightarrow> Array [])"

definition rb_new :: roaring_bitmap where
  "rb_new = \<lparr>containers = [], rb_len = 0\<rparr>"

definition rb_add :: "u32 \<Rightarrow> roaring_bitmap \<Rightarrow> bool \<times> roaring_bitmap" where
  "rb_add value rb =
     (let key = key_of value;
          (new, c) = c_add (low_of value) (entry_or_new key (containers rb));
          rb1 = rb\<lparr>containers := bt_put key c (containers rb)\<rparr>
      in if new then (True, rb1\<lparr>rb_len := rb_len rb1 + 1\<rparr>) else (False, rb1))"

definition rb_remove :: "u32 \<Rightarrow> roaring_bitmap \<Rightarrow> bool \<times> roaring_bitmap" where
  "rb_remove value rb =
     (case map_of (containers rb) (key_of value) of
        None \<Rightarrow> (False, rb)
      | Some c \<Rightarrow>
          (let (present, c') = c_remove (low_of value) c;
               m = bt_put (key_of value) c' (containers rb)
           in if present
              then (True, rb\<lparr>containers := (if c_is_empty c' then bt_remove (key_of value) m else m),
                            rb_len := rb_len rb - 1\<rparr>)
              else (False, rb\<lparr>containers := m\<rparr>)))"

definition rb_contains :: "u32 \<Rightarrow> roaring_bitmap \<Rightarrow> bool" where
  "rb_contains value rb =
     (case map_of (containers rb) (key_of value) of Some c \<Rightarrow> c_contains c (low_of value) | None \<Rightarrow> False)"

definition rb_is_empty :: "roaring_bitmap \<Rightarrow> bool" where
  "rb_is_empty rb = (rb_len rb = 0)"

text \<open>\<^verbatim>\<open>from_sorted\<close> ignores whether an element is new when it counts.\<close>

definition from_sorted_step :: "u32 \<Rightarrow> roaring_bitmap \<Rightarrow> roaring_bitmap" where
  "from_sorted_step value rb =
     rb\<lparr>containers := bt_put (key_of value) (snd (c_add (low_of value) (entry_or_new (key_of value) (containers rb))))
          (containers rb),
        rb_len := rb_len rb + 1\<rparr>"

definition from_sorted :: "u32 list \<Rightarrow> roaring_bitmap" where
  "from_sorted values = fold from_sorted_step values rb_new"

definition union_step :: "u16 \<times> container \<Rightarrow> roaring_bitmap \<Rightarrow> roaring_bitmap" where
  "union_step kc rb =
     (let (key, other_c) = kc;
          c = entry_or_new key (containers rb);
          c' = insert_all_from c other_c
      in rb\<lparr>containers := bt_put key c' (containers rb), rb_len := rb_len rb + (c_len c' - c_len c)\<rparr>)"

definition union_with :: "roaring_bitmap \<Rightarrow> roaring_bitmap \<Rightarrow> roaring_bitmap" where
  "union_with rb other = fold union_step (containers other) rb"

text \<open>
  The in-place loops of intersection and difference: the containers so far, the length and the keys to
  remove afterwards.
\<close>

fun intersect_loop ::
  "(u16 \<times> container) list \<Rightarrow> (u16 \<times> container) list \<Rightarrow> nat \<Rightarrow> (u16 \<times> container) list \<times> nat \<times> u16 list" where
  "intersect_loop other [] len = ([], len, [])"
| "intersect_loop other ((key, c) # m) len =
     (case map_of other key of
        Some other_c \<Rightarrow>
          (let c' = retain_intersection c other_c;
               (m', len', ks) = intersect_loop other m (len - (c_len c - c_len c'))
           in ((key, c') # m', len', if c_is_empty c' then key # ks else ks))
      | None \<Rightarrow> (let (m', len', ks) = intersect_loop other m (len - c_len c) in ((key, c) # m', len', key # ks)))"

definition intersect_with :: "roaring_bitmap \<Rightarrow> roaring_bitmap \<Rightarrow> roaring_bitmap" where
  "intersect_with rb other =
     (let (m, len, ks) = intersect_loop (containers other) (containers rb) (rb_len rb)
      in \<lparr>containers = fold bt_remove ks m, rb_len = len\<rparr>)"

fun difference_loop ::
  "(u16 \<times> container) list \<Rightarrow> (u16 \<times> container) list \<Rightarrow> nat \<Rightarrow> (u16 \<times> container) list \<times> nat \<times> u16 list" where
  "difference_loop other [] len = ([], len, [])"
| "difference_loop other ((key, c) # m) len =
     (case map_of other key of
        Some other_c \<Rightarrow>
          (let c' = subtract c other_c;
               (m', len', ks) = difference_loop other m (len - (c_len c - c_len c'))
           in ((key, c') # m', len', if c_is_empty c' then key # ks else ks))
      | None \<Rightarrow> (let (m', len', ks) = difference_loop other m len in ((key, c) # m', len', ks)))"

definition difference_with :: "roaring_bitmap \<Rightarrow> roaring_bitmap \<Rightarrow> roaring_bitmap" where
  "difference_with rb other =
     (let (m, len, ks) = difference_loop (containers other) (containers rb) (rb_len rb)
      in \<lparr>containers = fold bt_remove ks m, rb_len = len\<rparr>)"

definition rb_union :: "roaring_bitmap \<Rightarrow> roaring_bitmap \<Rightarrow> roaring_bitmap" where
  "rb_union a b = (let out = a in union_with out b)"

definition rb_intersection :: "roaring_bitmap \<Rightarrow> roaring_bitmap \<Rightarrow> roaring_bitmap" where
  "rb_intersection a b = (let out = a in intersect_with out b)"

definition rb_difference :: "roaring_bitmap \<Rightarrow> roaring_bitmap \<Rightarrow> roaring_bitmap" where
  "rb_difference a b = (let out = a in difference_with out b)"

definition join_value :: "u16 \<Rightarrow> u16 \<Rightarrow> u32" where
  "join_value key low = push_bit 16 (ucast key) OR ucast low"

definition rb_to_vec :: "roaring_bitmap \<Rightarrow> u32 list" where
  "rb_to_vec rb = concat (map (\<lambda>(key, c). map (join_value key) (c_iter c)) (containers rb))"

section \<open>Containers are sets\<close>

text \<open>The set a container stands for and what every container satisfies.\<close>

definition bits :: "u64 list \<Rightarrow> u16 set" where
  "bits bm = {i. bit (bm ! word_idx i) (unat i mod 64)}"

definition c_set :: "container \<Rightarrow> u16 set" where
  "c_set c = (case c of Array v \<Rightarrow> set v | Bitmap bm \<Rightarrow> bits bm)"

definition c_ok :: "container \<Rightarrow> bool" where
  "c_ok c = (case c of Array v \<Rightarrow> sorted_wrt (<) v | Bitmap bm \<Rightarrow> length bm = 1024)"

lemma c_set_simps [simp]: "c_set (Array v) = set v" "c_set (Bitmap bm) = bits bm"
  by (simp_all add: c_set_def)

lemma c_ok_simps [simp]: "c_ok (Array v) = sorted_wrt (<) v" "c_ok (Bitmap bm) = (length bm = 1024)"
  by (simp_all add: c_ok_def)

lemma word_idx_bound [simp]: "word_idx i < 1024"
proof -
  have "unat i < 65536" using unsigned_less [of i] by simp
  then show ?thesis by (simp add: word_idx_def)
qed

lemma bit_pow: "n < 64 \<Longrightarrow> bit ((2 :: u64) ^ n) m \<longleftrightarrow> m = n"
  by (auto simp: bit_exp_iff)

lemma and_pow:
  assumes "n < 64"
  shows "w AND 2 ^ n = 0 \<longleftrightarrow> \<not> bit (w :: u64) n"
proof (cases "bit w n")
  case True
  then have "bit (w AND 2 ^ n) n" using assms by (simp add: bit_and_iff bit_pow)
  then show ?thesis using True by auto
next
  case False
  then have "w AND 2 ^ n = 0" using assms by (intro bit_word_eqI) (auto simp: bit_and_iff bit_pow)
  then show ?thesis using False by simp
qed

lemma and_bit: "w AND bit_of i = 0 \<longleftrightarrow> \<not> bit w (unat i mod 64)"
  by (simp add: bit_of_def and_pow)

lemma bit_bit_of [simp]: "bit (bit_of i) n \<longleftrightarrow> n = unat i mod 64"
  by (simp add: bit_of_def bit_pow)

text \<open>A value is determined by its word and its bit.\<close>

lemma idx_eq: "word_idx i = word_idx j \<Longrightarrow> unat i mod 64 = unat j mod 64 \<Longrightarrow> i = j"
  unfolding word_idx_def by (metis div_mult_mod_eq unsigned_word_eqI)

lemma length_set_idx [simp]: "length (set_idx i bm) = length bm" "length (unset_idx i bm) = length bm"
  by (simp_all add: set_idx_def unset_idx_def)

lemma bits_set_idx: "length bm = 1024 \<Longrightarrow> bits (set_idx i bm) = insert i (bits bm)"
  using idx_eq [of _ i]
  by (auto simp: bits_def set_idx_def nth_list_update bit_or_iff split: if_splits)

lemma bits_unset_idx: "length bm = 1024 \<Longrightarrow> bits (unset_idx i bm) = bits bm - {i}"
  using idx_eq [of _ i]
  by (auto simp: bits_def unset_idx_def nth_list_update bit_and_iff bit_not_iff split: if_splits)

lemma bits_fold_set: "length bm = 1024 \<Longrightarrow> length (fold set_idx v bm) = 1024 \<and> bits (fold set_idx v bm) = bits bm \<union> set v"
  by (induction v arbitrary: bm) (auto simp: bits_set_idx)

lemma bits_fold_unset: "length bm = 1024 \<Longrightarrow> length (fold unset_idx v bm) = 1024 \<and> bits (fold unset_idx v bm) = bits bm - set v"
  by (induction v arbitrary: bm) (auto simp: bits_unset_idx)

lemma bits_zero [simp]: "bits (replicate 1024 0) = {}"
  by (simp add: bits_def)

lemma from_array: "length (from_array_to_bitmap v) = 1024" "bits (from_array_to_bitmap v) = set v"
  using bits_fold_set [of "replicate 1024 0" v] by (simp_all add: from_array_to_bitmap_def)

lemma bits_map2:
  assumes "length bm = 1024" "length other = 1024"
  shows "bits (or_words bm other) = bits bm \<union> bits other"
    "bits (map2 (AND) bm other) = bits bm \<inter> bits other"
    "bits (map2 (\<lambda>w x. w AND NOT x) bm other) = bits bm - bits other"
  using assms by (auto simp: bits_def or_words_def bit_simps)

text \<open>Binary search on a strictly ascending array.\<close>

lemma takeWhile_less_nth:
  assumes "sorted_wrt (<) v" "x \<in> set v"
  shows "length (takeWhile (\<lambda>y. y < x) v) < length v \<and> v ! length (takeWhile (\<lambda>y. y < x) v) = (x :: 'a::linorder)"
  using assms
proof (induction v)
  case (Cons y v)
  then show ?case by (cases "y < x") auto
qed simp

lemma search_ok: "sorted_wrt (<) v \<Longrightarrow> is_ok (binary_search v x) \<longleftrightarrow> x \<in> set v"
  using takeWhile_less_nth [of v x] by (auto simp: is_ok_def binary_search_def Let_def dest: nth_mem)

lemma search_Inl:
  assumes "sorted_wrt (<) v" "binary_search v x = Inl pos"
  shows "x \<notin> set v" "set (vec_insert pos x v) = insert x (set v)" "sorted_wrt (<) (vec_insert pos x v)"
    "length (vec_insert pos x v) = Suc (length v)"
proof -
  show nm: "x \<notin> set v" using search_ok [OF assms(1), of x] assms(2) by (simp add: is_ok_def)
  have pos: "pos = length (takeWhile (\<lambda>y. y < x) v)" using assms(2) by (auto simp: binary_search_def Let_def split: if_splits)
  have tk: "take pos v = takeWhile (\<lambda>y. y < x) v" "drop pos v = dropWhile (\<lambda>y. y < x) v"
    by (simp_all add: pos takeWhile_eq_take [symmetric] dropWhile_eq_drop [symmetric])
  have above: "x < y" if "y \<in> set (dropWhile (\<lambda>y. y < x) v)" for y
    using assms(1) nm that by (induction v) (auto split: if_splits)
  have v: "takeWhile (\<lambda>y. y < x) v @ dropWhile (\<lambda>y. y < x) v = v" by simp
  have "set (takeWhile (\<lambda>y. y < x) v) \<union> set (dropWhile (\<lambda>y. y < x) v) = set v" by (metis v set_append)
  then show "set (vec_insert pos x v) = insert x (set v)" by (auto simp: vec_insert_def tk)
  have "sorted_wrt (<) (takeWhile (\<lambda>y. y < x) v @ dropWhile (\<lambda>y. y < x) v)" using assms(1) by simp
  then show "sorted_wrt (<) (vec_insert pos x v)"
    using above by (auto simp: vec_insert_def tk sorted_wrt_append dest: set_takeWhileD intro: less_trans)
  show "length (vec_insert pos x v) = Suc (length v)"
    using length_takeWhile_le [of "\<lambda>y. y < x" v] by (simp add: vec_insert_def pos)
qed

lemma search_Inr:
  assumes "sorted_wrt (<) v" "binary_search v x = Inr pos"
  shows "x \<in> set v" "set (vec_remove pos v) = set v - {x}" "sorted_wrt (<) (vec_remove pos v)"
proof -
  have pos: "pos < length v" "v ! pos = x" using assms(2) by (auto simp: binary_search_def Let_def split: if_splits)
  then show "x \<in> set v" by (metis nth_mem)
  have v: "v = take pos v @ x # drop (Suc pos) v" using pos by (metis id_take_nth_drop)
  have s: "sorted_wrt (<) (take pos v @ x # drop (Suc pos) v)" using assms(1) v by simp
  then have "x \<notin> set (take pos v)" "x \<notin> set (drop (Suc pos) v)" by (auto simp: sorted_wrt_append)
  moreover have "set v = set (take pos v) \<union> insert x (set (drop (Suc pos) v))" by (metis v set_append list.simps(15))
  ultimately show "set (vec_remove pos v) = set v - {x}" by (auto simp: vec_remove_def)
  show "sorted_wrt (<) (vec_remove pos v)" using s by (auto simp: vec_remove_def sorted_wrt_append)
qed

text \<open>The items of a bitmap, in ascending order.\<close>

lemma upt_words: "[0..<n * 64] = concat (map (\<lambda>w. map (\<lambda>b. w * 64 + b) [0..<64]) [0..<n])"
proof (induction n)
  case (Suc n)
  have "[0..<Suc n * 64] = [0..<n * 64] @ [n * 64..<n * 64 + 64]"
    using upt_add_eq_append [of 0 "n * 64" 64] by (simp add: add.commute)
  moreover have "[n * 64..<n * 64 + 64] = map (\<lambda>b. n * 64 + b) [0..<64]"
    by (auto intro: nth_equalityI)
  ultimately show ?case using Suc by simp
qed simp

definition bit_at :: "u64 list \<Rightarrow> nat \<Rightarrow> bool" where
  "bit_at bm i = bit (bm ! (i div 64)) (i mod 64)"

lemma word_items_filter: "word_items w (bm ! w) = map word_of_nat (filter (bit_at bm) (map (\<lambda>b. w * 64 + b) [0..<64]))"
proof -
  have "filter (\<lambda>b. bm ! w AND push_bit b 1 \<noteq> 0) [0..<64] = filter (bit_at bm \<circ> (\<lambda>b. w * 64 + b)) [0..<64]"
    by (rule filter_cong) (simp_all add: bit_at_def and_pow)
  moreover have "filter (bit_at bm \<circ> (\<lambda>b. w * 64 + b)) [0..<64] = []" if "bm ! w = 0"
    using that by (auto simp: bit_at_def filter_empty_conv)
  ultimately show ?thesis by (auto simp: word_items_def filter_map comp_def)
qed

lemma bitmap_items_filter: "bitmap_items bm = map word_of_nat (filter (bit_at bm) [0..<65536])"
proof -
  have "[0..<65536] = concat (map (\<lambda>w. map (\<lambda>b. w * 64 + b) [0..<64]) [0..<1024])"
    using upt_words [of 1024] by simp
  then show ?thesis
    by (simp only: bitmap_items_def word_items_filter filter_concat map_concat map_map comp_def)
qed

lemma u16_of_nat: "n < 65536 \<Longrightarrow> unat (word_of_nat n :: u16) = n"
  by (simp add: unat_of_nat take_bit_nat_eq_self)

lemma bitmap_items_sorted: "sorted_wrt (<) (bitmap_items bm)"
proof -
  have "sorted_wrt (\<lambda>a b. (word_of_nat a :: u16) < word_of_nat b) (filter (bit_at bm) [0..<65536])"
    by (rule sorted_wrt_mono_rel [where P = "(<)"])
      (auto simp: word_less_nat_alt u16_of_nat sorted_wrt_filter)
  then show ?thesis by (simp add: bitmap_items_filter sorted_wrt_map)
qed

lemma set_bitmap_items: "set (bitmap_items bm) = bits bm"
proof
  show "set (bitmap_items bm) \<subseteq> bits bm"
    by (auto simp: bitmap_items_filter bits_def bit_at_def word_idx_def u16_of_nat)
  show "bits bm \<subseteq> set (bitmap_items bm)"
  proof
    fix i assume "i \<in> bits bm"
    then have "bit_at bm (unat i)" by (simp add: bits_def bit_at_def word_idx_def)
    moreover have "unat i < 65536" using unsigned_less [of i] by simp
    ultimately show "i \<in> set (bitmap_items bm)"
      by (auto simp: bitmap_items_filter image_iff intro!: bexI [of _ "unat i"])
  qed
qed

lemma length_bitmap_items:
  assumes "length bm = 1024"
  shows "length (bitmap_items bm) = sum_list (map count_ones bm)"
proof -
  have "length (word_items w (bm ! w)) = count_ones (bm ! w)" for w
  proof -
    have "filter (\<lambda>b. bm ! w AND push_bit b 1 \<noteq> 0) [0..<64] = filter (bit (bm ! w)) [0..<64]"
      by (rule filter_cong) (simp_all add: and_pow)
    then show ?thesis by (auto simp: word_items_def count_ones_def)
  qed
  then have "length (bitmap_items bm) = sum_list (map (\<lambda>w. count_ones (bm ! w)) [0..<1024])"
    by (simp add: bitmap_items_def length_concat comp_def)
  also have "map (\<lambda>w. count_ones (bm ! w)) [0..<1024] = map count_ones bm"
    using assms by (auto intro: nth_equalityI)
  finally show ?thesis .
qed

lemma c_iter_sorted: "c_ok c \<Longrightarrow> sorted_wrt (<) (c_iter c) \<and> set (c_iter c) = c_set c \<and> length (c_iter c) = c_len c"
  by (cases c) (simp_all add: c_iter_def bitmap_items_sorted set_bitmap_items length_bitmap_items c_len_def)

lemma c_len_card:
  assumes "c_ok c"
  shows "c_len c = card (c_set c)"
proof -
  have "distinct (c_iter c)" using c_iter_sorted [OF assms] by (simp add: strict_sorted_iff)
  then show ?thesis using c_iter_sorted [OF assms] distinct_card by metis
qed

lemma c_empty: "c_ok c \<Longrightarrow> c_is_empty c \<longleftrightarrow> c_set c = {}"
proof (cases c)
  case (Bitmap bm)
  assume ok: "c_ok c"
  have "bm ! w = 0" if "bits bm = {}" "w < 1024" for w
  proof (rule bit_word_eqI)
    fix n assume "n < LENGTH(64)"
    then have n: "n < 64" by simp
    define i :: u16 where "i = word_of_nat (w * 64 + n)"
    have "unat i = w * 64 + n" unfolding i_def using that(2) n by (intro u16_of_nat) simp
    then have "word_idx i = w" "unat i mod 64 = n" using n by (simp_all add: word_idx_def)
    moreover have "i \<notin> bits bm" using that(1) by simp
    ultimately show "bit (bm ! w) n = bit 0 n" by (simp add: bits_def)
  qed
  moreover have "bits bm = {}" if "\<And>w. w < 1024 \<Longrightarrow> bm ! w = 0"
    using that by (simp add: bits_def)
  ultimately show ?thesis using ok Bitmap by (auto simp: c_is_empty_def list_all_length)
qed (simp add: c_is_empty_def)

text \<open>The operations on containers are the set operations.\<close>

lemma c_contains_set: "c_ok c \<Longrightarrow> c_contains c i \<longleftrightarrow> i \<in> c_set c"
  by (cases c) (simp_all add: c_contains_def and_bit bits_def search_ok [unfolded is_ok_def])

lemma c_add_set:
  assumes "c_ok c"
  shows "c_ok (snd (c_add i c)) \<and> c_set (snd (c_add i c)) = insert i (c_set c) \<and> (fst (c_add i c) \<longleftrightarrow> i \<notin> c_set c)"
proof (cases c)
  case (Array v)
  then have s: "sorted_wrt (<) v" using assms by simp
  show ?thesis
  proof (cases "binary_search v i")
    case (Inl pos)
    then show ?thesis using search_Inl [OF s Inl] Array by (simp add: c_add_def Let_def from_array)
  next
    case (Inr pos)
    then show ?thesis using search_Inr [OF s Inr] Array s by (auto simp: c_add_def)
  qed
next
  case (Bitmap bm)
  then show ?thesis using assms by (auto simp: c_add_def and_bit bits_set_idx) (auto simp: bits_def)
qed

lemma c_remove_set:
  assumes "c_ok c"
  shows "c_ok (snd (c_remove i c)) \<and> c_set (snd (c_remove i c)) = c_set c - {i} \<and> (fst (c_remove i c) \<longleftrightarrow> i \<in> c_set c)"
proof (cases c)
  case (Array v)
  then have s: "sorted_wrt (<) v" using assms by simp
  show ?thesis
  proof (cases "binary_search v i")
    case (Inl pos)
    then show ?thesis using search_Inl [OF s Inl] Array s by (simp add: c_remove_def)
  next
    case (Inr pos)
    then show ?thesis using search_Inr [OF s Inr] Array s by (simp add: c_remove_def)
  qed
next
  case (Bitmap bm)
  then show ?thesis using assms by (auto simp: c_remove_def and_bit bits_unset_idx) (auto simp: bits_def)
qed

lemma merge_sorted_set: "sorted_wrt (<) xs \<Longrightarrow> sorted_wrt (<) ys \<Longrightarrow>
    sorted_wrt (<) (merge_sorted xs ys) \<and> set (merge_sorted xs ys) = set xs \<union> set ys"
  by (induction xs ys rule: merge_sorted.induct) (auto intro: less_trans)

lemma fold_vec_add: "sorted_wrt (<) v \<Longrightarrow> sorted_wrt (<) (fold vec_add is v) \<and> set (fold vec_add is v) = set v \<union> set is"
proof (induction "is" arbitrary: v)
  case (Cons i "is")
  have "sorted_wrt (<) (vec_add i v)" "set (vec_add i v) = insert i (set v)"
    using search_Inl [OF Cons.prems] search_Inr [OF Cons.prems] Cons.prems
    by (auto simp: vec_add_def split: sum.splits)
  then show ?case using Cons.IH by simp
qed simp

lemma length_or_words [simp]: "length (or_words bm other) = min (length bm) (length other)"
  by (simp add: or_words_def)

lemma insert_all_from_set:
  assumes "c_ok c" "c_ok d"
  shows "c_ok (insert_all_from c d) \<and> c_set (insert_all_from c d) = c_set c \<union> c_set d"
proof (cases c; cases d)
  fix v w assume "c = Array v" "d = Array w"
  then show ?thesis using assms merge_sorted_set [of v w] by (simp add: insert_all_from_def Let_def from_array)
next
  fix v bm assume "c = Array v" "d = Bitmap bm"
  then show ?thesis
    using assms fold_vec_add [of v "bitmap_items bm"]
    by (simp add: insert_all_from_def Let_def from_array bits_map2 set_bitmap_items)
qed (use assms in \<open>auto simp: insert_all_from_def bits_fold_set bits_map2\<close>)

lemma retain_intersection_set:
  assumes "c_ok c" "c_ok d"
  shows "c_ok (retain_intersection c d) \<and> c_set (retain_intersection c d) = c_set c \<inter> c_set d"
  using assms
  by (cases c; cases d)
    (auto simp: retain_intersection_def search_ok sorted_wrt_filter and_bit bits_map2 bits_fold_set, auto simp: bits_def)

lemma subtract_set:
  assumes "c_ok c" "c_ok d"
  shows "c_ok (subtract c d) \<and> c_set (subtract c d) = c_set c - c_set d"
  using assms
  by (cases c; cases d)
    (auto simp: subtract_def search_ok sorted_wrt_filter and_bit bits_map2 bits_fold_unset, auto simp: bits_def)

section \<open>The bitmap is a set\<close>

text \<open>The B-tree map as a sorted association list.\<close>

abbreviation keys_sorted :: "('k::linorder \<times> 'v) list \<Rightarrow> bool" where
  "keys_sorted m \<equiv> sorted_wrt (<) (map fst m)"

lemma bt_put_keys: "set (map fst (bt_put k v m)) = insert k (set (map fst m))"
  by (induction k v m rule: bt_put.induct) auto

lemma bt_put_sorted: "keys_sorted m \<Longrightarrow> keys_sorted (bt_put k v m)"
proof (induction k v m rule: bt_put.induct)
  case (2 k v l w m)
  then show ?case using bt_put_keys [of k v m] by (auto intro: less_trans)
qed simp

lemma map_of_bt_put: "keys_sorted m \<Longrightarrow> map_of (bt_put k v m) = (map_of m)(k \<mapsto> v)"
  by (induction k v m rule: bt_put.induct) (auto simp: fun_eq_iff map_of_eq_None_iff)

lemma set_bt_put: "set (bt_put k v m) \<subseteq> insert (k, v) (set m)"
  by (induction k v m rule: bt_put.induct) auto

lemma bt_remove_sorted: "keys_sorted m \<Longrightarrow> keys_sorted (bt_remove k m)"
  by (induction m) (auto simp: bt_remove_def)

lemma map_of_bt_remove: "map_of (bt_remove k m) = (map_of m)(k := None)"
  by (induction m) (auto simp: bt_remove_def fun_eq_iff)

lemma bt_remove_put: "bt_remove k (bt_put k v m) = bt_remove k m"
  by (induction k v m rule: bt_put.induct) (auto simp: bt_remove_def)

text \<open>Splitting and joining a value.\<close>

lemma low_mask: "(65535 :: 32 word) = mask 16"
  by (simp add: mask_eq_exp_minus_1)

lemma bit_ge_16: "\<not> bit (l :: 16 word) (16 + n)"
  using bit_imp_le_length [of l "16 + n"] by auto

lemma key_join [simp]: "key_of (join_value k l) = k"
  by (rule bit_word_eqI) (auto simp: key_of_def join_value_def bit_simps bit_ge_16)

lemma low_join [simp]: "low_of (join_value k l) = l"
  by (rule bit_word_eqI) (auto simp: low_of_def join_value_def low_mask bit_simps)

lemma join_key_low [simp]: "join_value (key_of v) (low_of v) = v"
proof (rule bit_word_eqI)
  fix n assume "n < LENGTH(32)"
  then show "bit (join_value (key_of v) (low_of v)) n \<longleftrightarrow> bit v n"
    by (cases "n < 16") (auto simp: key_of_def low_of_def join_value_def low_mask bit_simps)
qed

text \<open>The set a bitmap denotes, through the set of low halves stored under each key.\<close>

definition lows :: "(16 word \<times> container) list \<Rightarrow> 16 word \<Rightarrow> 16 word set" where
  "lows m k = (case map_of m k of Some c \<Rightarrow> c_set c | None \<Rightarrow> {})"

definition glue :: "(16 word \<Rightarrow> 16 word set) \<Rightarrow> 32 word set" where
  "glue f = {v. low_of v \<in> f (key_of v)}"

definition rb_set :: "roaring_bitmap \<Rightarrow> 32 word set" where
  "rb_set rb = glue (lows (containers rb))"

definition stored :: "(16 word \<times> container) list \<Rightarrow> nat" where
  "stored m = sum_list (map (c_len \<circ> snd) m)"

definition m_ok :: "(16 word \<times> container) list \<Rightarrow> bool" where
  "m_ok m \<longleftrightarrow> keys_sorted m \<and> (\<forall>(k, c) \<in> set m. c_ok c \<and> \<not> c_is_empty c)"

definition rb_ok :: "roaring_bitmap \<Rightarrow> bool" where
  "rb_ok rb \<longleftrightarrow> m_ok (containers rb) \<and> rb_len rb = stored (containers rb)"

lemma glue_upd: "glue (f(k := X)) = glue (f(k := {})) \<union> join_value k ` X"
proof -
  have "v \<in> join_value k ` X \<longleftrightarrow> key_of v = k \<and> low_of v \<in> X" for v
    by (metis image_iff join_key_low key_join low_join)
  then show ?thesis by (auto simp: glue_def)
qed

lemma card_glue_upd: "card (glue (f(k := X))) = card (glue (f(k := {}))) + card X"
proof -
  have "inj_on (join_value k) X" by (rule inj_onI) (metis low_join)
  moreover have "glue (f(k := {})) \<inter> join_value k ` X = {}" by (auto simp: glue_def)
  ultimately show ?thesis by (subst glue_upd) (simp add: card_Un_disjoint card_image)
qed

lemma lows_Nil [simp]: "lows [] = (\<lambda>_. {})"
  by (simp add: lows_def fun_eq_iff)

lemma lows_Cons: "lows ((k, c) # m) = (lows m)(k := c_set c)"
  by (simp add: lows_def fun_eq_iff)

lemma lows_put: "keys_sorted m \<Longrightarrow> lows (bt_put k c m) = (lows m)(k := c_set c)"
  by (simp add: lows_def fun_eq_iff map_of_bt_put)

lemma lows_remove: "lows (bt_remove k m) = (lows m)(k := {})"
  by (simp add: lows_def fun_eq_iff map_of_bt_remove)

lemma lows_absent: "k \<notin> fst ` set m \<Longrightarrow> lows m k = {}"
  by (simp add: lows_def map_of_eq_None_iff [symmetric] del: map_of_eq_None_iff)

lemma card_glue_lows:
  assumes "keys_sorted m" "\<forall>(k, c) \<in> set m. c_ok c"
  shows "card (glue (lows m)) = stored m"
  using assms
proof (induction m)
  case Nil
  then show ?case by (simp add: glue_def stored_def)
next
  case (Cons e m)
  obtain k c where e: "e = (k, c)" by (cases e)
  have "lows m k = {}" using Cons.prems e by (intro lows_absent) auto
  then have "(lows m)(k := {}) = lows m" by (simp add: fun_eq_iff)
  then have "card (glue (lows (e # m))) = card (glue (lows m)) + card (c_set c)"
    using card_glue_upd [of "lows m" k "c_set c"] by (simp only: e lows_Cons)
  then show ?case using Cons e by (simp add: stored_def c_len_card)
qed

lemma rb_len_card: "rb_ok rb \<Longrightarrow> rb_len rb = card (rb_set rb)"
  using card_glue_lows [of "containers rb"] by (fastforce simp: rb_ok_def m_ok_def rb_set_def)

text \<open>Replacing the container of one key, as every operation on a single value does.\<close>

lemma stored_upd:
  assumes "keys_sorted m" "\<forall>(k, c) \<in> set m. c_ok c" "keys_sorted m'" "\<forall>(k, c) \<in> set m'. c_ok c"
    and "lows m' = (lows m)(k := X)"
  shows "stored m' + card (lows m k) = stored m + card X"
proof -
  have "card (glue (lows m)) = card (glue ((lows m)(k := {}))) + card (lows m k)"
    using card_glue_upd [of "lows m" k "lows m k"] by simp
  moreover have "card (glue (lows m')) = card (glue ((lows m)(k := {}))) + card X"
    using assms(5) card_glue_upd [of "lows m" k X] by simp
  ultimately show ?thesis using assms(1-4) card_glue_lows by simp
qed

lemma m_okD: "m_ok m \<Longrightarrow> keys_sorted m" "m_ok m \<Longrightarrow> \<forall>(k, c) \<in> set m. c_ok c"
  by (auto simp: m_ok_def)

lemma m_ok_stored:
  assumes "m_ok m" "m_ok m'" "lows m' = (lows m)(k := X)"
  shows "stored m' + card (lows m k) = stored m + card X"
  using stored_upd [OF m_okD [OF assms(1)] m_okD [OF assms(2)] assms(3)] .

lemma m_ok_put: "m_ok m \<Longrightarrow> c_ok c \<Longrightarrow> c_set c \<noteq> {} \<Longrightarrow> m_ok (bt_put k c m)"
  using set_bt_put [of k c m] by (auto simp: m_ok_def bt_put_sorted c_empty)

lemma m_ok_remove: "m_ok m \<Longrightarrow> m_ok (bt_remove k m)"
  by (auto simp: m_ok_def bt_remove_sorted) (auto simp: bt_remove_def)

lemma m_ok_find: "m_ok m \<Longrightarrow> map_of m k = Some c \<Longrightarrow> c_ok c \<and> c_set c \<noteq> {} \<and> lows m k = c_set c"
  by (auto simp: m_ok_def lows_def c_empty dest!: map_of_SomeD)

lemma entry_or_new: "m_ok m \<Longrightarrow> c_ok (entry_or_new k m) \<and> c_set (entry_or_new k m) = lows m k"
  using m_ok_find [of m k] by (auto simp: entry_or_new_def lows_def split: option.splits)

lemma glue_insert: "glue (f(key_of v := insert (low_of v) (f (key_of v)))) = insert v (glue f)"
  by (auto simp: glue_def) (metis join_key_low)

lemma glue_delete: "glue (f(key_of v := f (key_of v) - {low_of v})) = glue f - {v}"
  by (auto simp: glue_def) (metis join_key_low)+

lemma in_glue: "v \<in> glue f \<longleftrightarrow> low_of v \<in> f (key_of v)"
  by (simp add: glue_def)

lemma rb_contains_set: "rb_ok rb \<Longrightarrow> rb_contains v rb \<longleftrightarrow> v \<in> rb_set rb"
  using m_ok_find [of "containers rb" "key_of v"]
  by (auto simp: rb_contains_def rb_ok_def rb_set_def in_glue c_contains_set lows_def split: option.splits)

lemma rb_add_set:
  assumes "rb_ok rb"
  shows "rb_ok (snd (rb_add v rb)) \<and> rb_set (snd (rb_add v rb)) = insert v (rb_set rb)
    \<and> (fst (rb_add v rb) \<longleftrightarrow> v \<notin> rb_set rb)"
proof -
  let ?m = "containers rb" and ?k = "key_of v"
  have ok: "m_ok ?m" using assms by (simp add: rb_ok_def)
  obtain new c where ca: "c_add (low_of v) (entry_or_new ?k ?m) = (new, c)" by fastforce
  have c: "c_ok c" "c_set c = insert (low_of v) (lows ?m ?k)" "new \<longleftrightarrow> v \<notin> rb_set rb"
    using c_add_set [of "entry_or_new ?k ?m" "low_of v"] entry_or_new [OF ok, of ?k] ca
    by (auto simp: rb_set_def in_glue)
  have m': "m_ok (bt_put ?k c ?m)" using ok c by (intro m_ok_put) auto
  have l': "lows (bt_put ?k c ?m) = (lows ?m)(?k := insert (low_of v) (lows ?m ?k))"
    using lows_put m_okD(1) [OF ok] c by simp
  have "stored (bt_put ?k c ?m) = stored ?m + (if new then 1 else 0)"
    using m_ok_stored [OF ok m' l'] c(3) by (auto simp: rb_set_def in_glue card_insert_if split: if_splits)
  then show ?thesis
    using assms m' l' c(3) ca by (auto simp: rb_add_def Let_def rb_ok_def rb_set_def glue_insert)
qed

lemma rb_remove_set:
  assumes "rb_ok rb"
  shows "rb_ok (snd (rb_remove v rb)) \<and> rb_set (snd (rb_remove v rb)) = rb_set rb - {v}
    \<and> (fst (rb_remove v rb) \<longleftrightarrow> v \<in> rb_set rb)"
proof (cases "map_of (containers rb) (key_of v)")
  case None
  then have "v \<notin> rb_set rb" by (simp add: rb_set_def in_glue lows_def)
  then show ?thesis using assms None by (simp add: rb_remove_def)
next
  case (Some c)
  let ?m = "containers rb" and ?k = "key_of v"
  have ok: "m_ok ?m" using assms by (simp add: rb_ok_def)
  obtain present c' where cr: "c_remove (low_of v) c = (present, c')" by fastforce
  have c: "c_ok c'" "c_set c' = lows ?m ?k - {low_of v}" "present \<longleftrightarrow> v \<in> rb_set rb"
    using c_remove_set [of c "low_of v"] m_ok_find [OF ok Some] cr by (auto simp: rb_set_def in_glue)
  let ?m' = "if c_is_empty c' then bt_remove ?k (bt_put ?k c' ?m) else bt_put ?k c' ?m"
  have s: "keys_sorted ?m" using m_okD(1) [OF ok] .
  have l': "lows ?m' = (lows ?m)(?k := lows ?m ?k - {low_of v})"
    using c(2) c_empty [OF c(1)] lows_put [OF s, of ?k c'] lows_remove [of ?k "bt_put ?k c' ?m"]
    by (cases "c_is_empty c'") (simp_all only: if_True if_False refl simp_thms fun_upd_upd)
  have m': "m_ok ?m'"
  proof (cases "c_is_empty c'")
    case True
    then show ?thesis using m_ok_remove [OF ok] by (simp add: bt_remove_put)
  next
    case False
    then show ?thesis using c ok by (auto simp: c_empty intro: m_ok_put)
  qed
  have "card (lows ?m ?k) = card (lows ?m ?k - {low_of v}) + (if present then 1 else 0)"
    using c(3) card_Suc_Diff1 [of "lows ?m ?k" "low_of v"] by (simp add: rb_set_def in_glue)
  then have "stored ?m' = stored ?m - (if present then 1 else 0)"
    using m_ok_stored [OF ok m' l'] by linarith
  moreover have "\<not> c_is_empty c'" if "\<not> present"
    using that c m_ok_find [OF ok Some] by (auto simp: c_empty rb_set_def in_glue)
  ultimately show ?thesis
    using assms m' l' c(3) cr Some by (auto simp: rb_remove_def Let_def rb_ok_def rb_set_def glue_delete split: if_splits)
qed

text \<open>Union, one container of the other bitmap at a time.\<close>

lemma union_step_set:
  assumes "rb_ok rb" "c_ok d" "c_set d \<noteq> {}"
  shows "rb_ok (union_step (k, d) rb)
    \<and> lows (containers (union_step (k, d) rb)) = (lows (containers rb))(k := lows (containers rb) k \<union> c_set d)"
proof -
  let ?m = "containers rb" and ?c = "entry_or_new k (containers rb)"
  let ?c' = "insert_all_from ?c d"
  have ok: "m_ok ?m" using assms by (simp add: rb_ok_def)
  have c: "c_ok ?c" "c_set ?c = lows ?m k" using entry_or_new [OF ok] by auto
  have c': "c_ok ?c'" "c_set ?c' = lows ?m k \<union> c_set d" using insert_all_from_set [OF c(1) assms(2)] c by auto
  have m': "m_ok (bt_put k ?c' ?m)" using ok c' assms by (intro m_ok_put) auto
  have l': "lows (bt_put k ?c' ?m) = (lows ?m)(k := lows ?m k \<union> c_set d)"
    using lows_put m_okD(1) [OF ok] c' by simp
  have "card (lows ?m k) \<le> card (lows ?m k \<union> c_set d)" by (intro card_mono) auto
  then have "stored (bt_put k ?c' ?m) = stored ?m + (c_len ?c' - c_len ?c)"
    using m_ok_stored [OF ok m' l'] c c' by (simp add: c_len_card)
  then show ?thesis using assms m' l' by (simp add: union_step_def Let_def rb_ok_def)
qed

lemma union_fold:
  assumes "rb_ok rb" "m_ok m"
  shows "rb_ok (fold union_step m rb)
    \<and> lows (containers (fold union_step m rb)) = (\<lambda>k. lows (containers rb) k \<union> lows m k)"
  using assms
proof (induction m arbitrary: rb)
  case (Cons e m)
  obtain k d where e: "e = (k, d)" by (cases e)
  have d: "c_ok d" "c_set d \<noteq> {}" and m: "m_ok m" "k \<notin> fst ` set m"
    using Cons.prems(2) e by (auto simp: m_ok_def c_empty)
  note u = union_step_set [OF Cons.prems(1) d, of k]
  show ?case
    using Cons.IH [of "union_step (k, d) rb"] u m e lows_absent [OF m(2)]
    by (auto simp: lows_Cons fun_eq_iff)
qed simp

lemma union_with_set:
  "rb_ok a \<Longrightarrow> rb_ok b \<Longrightarrow> rb_ok (union_with a b) \<and> rb_set (union_with a b) = rb_set a \<union> rb_set b"
  using union_fold [of a "containers b"]
  by (auto simp: union_with_def rb_ok_def [of b] rb_set_def in_glue)

text \<open>
  Intersection and difference share one loop: a function says what becomes of the container of each key, and
  whether the key is removed afterwards.
\<close>

fun scan :: "(16 word \<Rightarrow> container \<Rightarrow> container \<times> bool) \<Rightarrow> (16 word \<times> container) list \<Rightarrow> nat
    \<Rightarrow> (16 word \<times> container) list \<times> nat \<times> 16 word list" where
  "scan g [] len = ([], len, [])"
| "scan g ((k, c) # m) len =
     (let (c', gone) = g k c;
          (m', len', ks) = scan g m (len - (c_len c - (if gone then 0 else c_len c')))
      in ((k, c') # m', len', if gone then k # ks else ks))"

definition shrinks :: "(16 word \<Rightarrow> container \<Rightarrow> container \<times> bool) \<Rightarrow> bool" where
  "shrinks g \<longleftrightarrow> (\<forall>k c c' gone. c_ok c \<longrightarrow> c_set c \<noteq> {} \<longrightarrow> g k c = (c', gone) \<longrightarrow>
     c_ok c' \<and> c_set c' \<subseteq> c_set c \<and> (\<not> gone \<longrightarrow> c_set c' \<noteq> {}))"

definition outcome :: "(16 word \<Rightarrow> container \<Rightarrow> container \<times> bool) \<Rightarrow> 16 word \<Rightarrow> container \<Rightarrow> 16 word set" where
  "outcome g k c = (if snd (g k c) then {} else c_set (fst (g k c)))"

lemma fold_bt_remove: "fold bt_remove ks m = filter (\<lambda>(k, _). k \<notin> set ks) m"
  by (induction ks arbitrary: m) (auto simp: bt_remove_def intro!: filter_cong)

lemma scan_spec:
  assumes "shrinks g" "m_ok m" "stored m \<le> len" "scan g m len = (m', len', ks)"
  shows "map fst m' = map fst m \<and> set ks \<subseteq> fst ` set m \<and> m_ok (fold bt_remove ks m')
    \<and> len' + stored m = len + stored (fold bt_remove ks m')
    \<and> lows (fold bt_remove ks m') = (\<lambda>k. case map_of m k of Some c \<Rightarrow> outcome g k c | None \<Rightarrow> {})"
  using assms(2-4)
proof (induction m arbitrary: len m' len' ks)
  case Nil
  then show ?case by (simp add: m_ok_def fun_eq_iff)
next
  case (Cons e m)
  obtain k c where e: "e = (k, c)" by (cases e)
  obtain c' gone where g: "g k c = (c', gone)" by fastforce
  let ?d = "c_len c - (if gone then 0 else c_len c')"
  obtain n' len1 ls where r: "scan g m (len - ?d) = (n', len1, ls)" by (metis prod_cases3)
  have c: "c_ok c" "c_set c \<noteq> {}" and m: "m_ok m" and k: "k \<notin> fst ` set m" "\<forall>j \<in> fst ` set m. k < j"
    using Cons.prems(1) e by (auto simp: m_ok_def c_empty)
  have c': "c_ok c'" "c_set c' \<subseteq> c_set c" "\<not> gone \<Longrightarrow> c_set c' \<noteq> {}"
    using assms(1) c g unfolding shrinks_def by blast+
  have le: "c_len c' \<le> c_len c" using c c' by (simp add: c_len_card card_mono)
  have st: "stored (e # m) = c_len c + stored m" using e by (simp add: stored_def)
  have bound: "stored m \<le> len - ?d" using Cons.prems(2) st by linarith
  have ih: "map fst n' = map fst m" "set ls \<subseteq> fst ` set m" "m_ok (fold bt_remove ls n')"
      "len1 + stored m = len - ?d + stored (fold bt_remove ls n')"
      "lows (fold bt_remove ls n') = (\<lambda>k. case map_of m k of Some c \<Rightarrow> outcome g k c | None \<Rightarrow> {})"
    using Cons.IH [OF m bound r] by blast+
  have out: "m' = (k, c') # n'" "len' = len1" "ks = (if gone then k # ls else ls)"
    using Cons.prems(3) e g r by (auto simp: Let_def)
  have fn: "fst ` set n' = fst ` set m" using ih(1) by (metis list.set_map)
  have kn: "k \<notin> fst ` set n'" "k \<notin> set ls" using fn ih(2) k(1) by blast+
  have rest: "filter (\<lambda>(j, _). j \<noteq> k \<and> j \<notin> set ls) n' = filter (\<lambda>(j, _). j \<notin> set ls) n'"
    using kn by (intro filter_cong) force+
  have kept: "fold bt_remove ks m' = (if gone then fold bt_remove ls n' else (k, c') # fold bt_remove ls n')"
    using out kn rest by (simp add: fold_bt_remove)
  have above: "\<forall>j \<in> fst ` set (fold bt_remove ls n'). k < j"
    using k(2) unfolding fn [symmetric] by (auto simp: fold_bt_remove)
  have ok: "m_ok (fold bt_remove ks m')"
    using ih(3) kept c' above by (auto simp: m_ok_def c_empty)
  have length: "len' + stored (e # m) = len + stored (fold bt_remove ks m')"
    using ih(4) kept out st Cons.prems(2) le by (cases gone) (auto simp: stored_def)
  have "lows (fold bt_remove ks m') = (\<lambda>j. case map_of (e # m) j of Some c \<Rightarrow> outcome g j c | None \<Rightarrow> {})"
    using ih(5) kept e g k(1) by (auto simp: fun_eq_iff lows_Cons outcome_def map_of_eq_None_iff [symmetric] simp del: map_of_eq_None_iff)
  then show ?case using ok length out ih(1,2) e by auto
qed

definition g_inter :: "(16 word \<times> container) list \<Rightarrow> 16 word \<Rightarrow> container \<Rightarrow> container \<times> bool" where
  "g_inter other k c = (case map_of other k of
      Some d \<Rightarrow> (retain_intersection c d, c_is_empty (retain_intersection c d)) | None \<Rightarrow> (c, True))"

definition g_diff :: "(16 word \<times> container) list \<Rightarrow> 16 word \<Rightarrow> container \<Rightarrow> container \<times> bool" where
  "g_diff other k c = (case map_of other k of
      Some d \<Rightarrow> (subtract c d, c_is_empty (subtract c d)) | None \<Rightarrow> (c, False))"

lemma c_len_empty: "c_ok c \<Longrightarrow> c_is_empty c \<Longrightarrow> c_len c = 0"
  by (simp add: c_len_card c_empty)

lemma intersect_scan: "m_ok other \<Longrightarrow> m_ok m \<Longrightarrow> intersect_loop other m len = scan (g_inter other) m len"
proof (induction m arbitrary: len)
  case (Cons e m)
  obtain k c where e: "e = (k, c)" by (cases e)
  have c: "c_ok c" "m_ok m" using Cons.prems(2) e by (auto simp: m_ok_def)
  show ?case
  proof (cases "map_of other k")
    case None
    then show ?thesis using Cons.IH [OF Cons.prems(1) c(2)] e by (simp add: g_inter_def)
  next
    case (Some d)
    then have "c_len (retain_intersection c d) = 0" if "c_is_empty (retain_intersection c d)"
      using that c_len_empty retain_intersection_set [of c d] c(1) m_ok_find [OF Cons.prems(1) Some] by blast
    then show ?thesis using Cons.IH [OF Cons.prems(1) c(2)] e Some by (simp add: g_inter_def Let_def)
  qed
qed simp

lemma difference_scan: "m_ok other \<Longrightarrow> m_ok m \<Longrightarrow> difference_loop other m len = scan (g_diff other) m len"
proof (induction m arbitrary: len)
  case (Cons e m)
  obtain k c where e: "e = (k, c)" by (cases e)
  have c: "c_ok c" "m_ok m" using Cons.prems(2) e by (auto simp: m_ok_def)
  show ?case
  proof (cases "map_of other k")
    case None
    then show ?thesis using Cons.IH [OF Cons.prems(1) c(2)] e by (simp add: g_diff_def)
  next
    case (Some d)
    then have "c_len (subtract c d) = 0" if "c_is_empty (subtract c d)"
      using that c_len_empty subtract_set [of c d] c(1) m_ok_find [OF Cons.prems(1) Some] by blast
    then show ?thesis using Cons.IH [OF Cons.prems(1) c(2)] e Some by (simp add: g_diff_def Let_def)
  qed
qed simp

lemma shrinks_inter: "m_ok other \<Longrightarrow> shrinks (g_inter other)"
  unfolding shrinks_def g_inter_def
  using m_ok_find [of other] retain_intersection_set by (fastforce simp: c_empty split: option.splits)

lemma shrinks_diff: "m_ok other \<Longrightarrow> shrinks (g_diff other)"
  unfolding shrinks_def g_diff_def
  using m_ok_find [of other] subtract_set by (fastforce simp: c_empty split: option.splits)

lemma outcome_inter: "m_ok other \<Longrightarrow> c_ok c \<Longrightarrow> outcome (g_inter other) k c = c_set c \<inter> lows other k"
  using m_ok_find [of other k] retain_intersection_set [of c]
  by (auto simp: outcome_def g_inter_def lows_def c_empty split: option.splits)

lemma outcome_diff: "m_ok other \<Longrightarrow> c_ok c \<Longrightarrow> outcome (g_diff other) k c = c_set c - lows other k"
  using m_ok_find [of other k] subtract_set [of c]
  by (auto simp: outcome_def g_diff_def lows_def c_empty split: option.splits)

lemma scan_bitmap:
  assumes "shrinks g" "rb_ok rb" "scan g (containers rb) (rb_len rb) = (m, len, ks)"
    and out: "\<And>k c. c_ok c \<Longrightarrow> outcome g k c = h (c_set c) k" "\<And>k. h {} k = {}"
  shows "rb_ok \<lparr>containers = fold bt_remove ks m, rb_len = len\<rparr>
    \<and> rb_set \<lparr>containers = fold bt_remove ks m, rb_len = len\<rparr> = glue (\<lambda>k. h (lows (containers rb) k) k)"
proof -
  have ok: "m_ok (containers rb)" "rb_len rb = stored (containers rb)" using assms(2) by (auto simp: rb_ok_def)
  have "(case map_of (containers rb) k of Some c \<Rightarrow> outcome g k c | None \<Rightarrow> {}) = h (lows (containers rb) k) k" for k
    using m_ok_find [OF ok(1), of k] out by (auto simp: lows_def split: option.splits)
  then show ?thesis
    using scan_spec [OF assms(1) ok(1) _ assms(3)] ok(2) by (simp add: rb_ok_def rb_set_def)
qed

lemma intersect_with_set:
  assumes "rb_ok a" "rb_ok b"
  shows "rb_ok (intersect_with a b) \<and> rb_set (intersect_with a b) = rb_set a \<inter> rb_set b"
proof -
  have m: "m_ok (containers a)" "m_ok (containers b)" using assms by (auto simp: rb_ok_def)
  obtain m' len ks where r: "scan (g_inter (containers b)) (containers a) (rb_len a) = (m', len, ks)"
    by (metis prod_cases3)
  show ?thesis
    using scan_bitmap [OF shrinks_inter [OF m(2)] assms(1) r, of "\<lambda>X k. X \<inter> lows (containers b) k"]
      outcome_inter [OF m(2)] r
    by (auto simp: intersect_with_def intersect_scan m rb_set_def in_glue)
qed

lemma difference_with_set:
  assumes "rb_ok a" "rb_ok b"
  shows "rb_ok (difference_with a b) \<and> rb_set (difference_with a b) = rb_set a - rb_set b"
proof -
  have m: "m_ok (containers a)" "m_ok (containers b)" using assms by (auto simp: rb_ok_def)
  obtain m' len ks where r: "scan (g_diff (containers b)) (containers a) (rb_len a) = (m', len, ks)"
    by (metis prod_cases3)
  show ?thesis
    using scan_bitmap [OF shrinks_diff [OF m(2)] assms(1) r, of "\<lambda>X k. X - lows (containers b) k"]
      outcome_diff [OF m(2)] r
    by (auto simp: difference_with_def difference_scan m rb_set_def in_glue)
qed

section \<open>The interface\<close>

text \<open>
  What a client of a set structure relies on. \<open>add\<close> and \<open>remove\<close> also report whether they changed the set.
\<close>

locale tracked_set =
  fixes empty_set :: 's
    and add :: "'a \<Rightarrow> 's \<Rightarrow> bool \<times> 's"
    and remove :: "'a \<Rightarrow> 's \<Rightarrow> bool \<times> 's"
    and contains :: "'a \<Rightarrow> 's \<Rightarrow> bool"
    and size_of :: "'s \<Rightarrow> nat"
    and abs :: "'s \<Rightarrow> 'a set"
    and invar :: "'s \<Rightarrow> bool"
  assumes empty_law: "invar empty_set \<and> abs empty_set = {}"
    and add_law: "invar s \<Longrightarrow> invar (snd (add x s)) \<and> abs (snd (add x s)) = insert x (abs s) \<and> (fst (add x s) \<longleftrightarrow> x \<notin> abs s)"
    and remove_law: "invar s \<Longrightarrow> invar (snd (remove x s)) \<and> abs (snd (remove x s)) = abs s - {x} \<and> (fst (remove x s) \<longleftrightarrow> x \<in> abs s)"
    and contains_law: "invar s \<Longrightarrow> contains x s \<longleftrightarrow> x \<in> abs s"
    and size_law: "invar s \<Longrightarrow> size_of s = card (abs s)"
begin

text \<open>A sequence of updates, \<open>Inl\<close> for an addition and \<open>Inr\<close> for a removal, and its effect on a set.\<close>

fun update :: "'a + 'a \<Rightarrow> 's \<Rightarrow> 's" where
  "update (Inl x) s = snd (add x s)"
| "update (Inr x) s = snd (remove x s)"

fun spec_update :: "'a + 'a \<Rightarrow> 'a set \<Rightarrow> 'a set" where
  "spec_update (Inl x) S = insert x S"
| "spec_update (Inr x) S = S - {x}"

lemma update_ok: "invar s \<Longrightarrow> invar (update u s) \<and> abs (update u s) = spec_update u (abs s)"
  using add_law remove_law by (cases u) auto

lemma updates_ok: "invar s \<Longrightarrow> invar (fold update us s) \<and> abs (fold update us s) = fold spec_update us (abs s)"
  by (induction us arbitrary: s) (simp_all add: update_ok)

lemma updates_from_empty:
  "contains x (fold update us empty_set) \<longleftrightarrow> x \<in> fold spec_update us {}"
  "size_of (fold update us empty_set) = card (fold spec_update us {})"
  using updates_ok [of empty_set us] empty_law contains_law size_law by auto

lemma add_twice: "invar s \<Longrightarrow> \<not> fst (add x (snd (add x s)))"
  using add_law by auto

end

locale set_algebra = tracked_set +
  fixes join meet minus_set :: "'a \<Rightarrow> 'a \<Rightarrow> 'a"
  assumes join_law: "invar a \<Longrightarrow> invar b \<Longrightarrow> invar (join a b) \<and> abs (join a b) = abs a \<union> abs b"
    and meet_law: "invar a \<Longrightarrow> invar b \<Longrightarrow> invar (meet a b) \<and> abs (meet a b) = abs a \<inter> abs b"
    and minus_law: "invar a \<Longrightarrow> invar b \<Longrightarrow> invar (minus_set a b) \<and> abs (minus_set a b) = abs a - abs b"
begin

lemma inclusion_exclusion:
  assumes "invar a" "invar b" "finite (abs a)" "finite (abs b)"
  shows "size_of (join a b) + size_of (meet a b) = size_of a + size_of b"
  using assms join_law [of a b] meet_law [of a b] card_Un_Int [of "abs a" "abs b"] by (simp add: size_law)

lemma minus_splits:
  assumes "invar a" "invar b" "finite (abs a)"
  shows "size_of (minus_set a b) + size_of (meet a b) = size_of a"
  using assms minus_law [of a b] meet_law [of a b] card_Diff_subset_Int [of "abs a" "abs b"]
    card_mono [of "abs a" "abs a \<inter> abs b"]
  by (simp add: size_law)

end

interpretation roaring: set_algebra rb_new rb_add rb_remove rb_contains rb_len rb_set rb_ok
  union_with intersect_with difference_with
proof unfold_locales
  show "rb_ok rb_new \<and> rb_set rb_new = {}"
    by (simp add: rb_new_def rb_ok_def m_ok_def stored_def rb_set_def glue_def)
qed (simp_all add: rb_add_set rb_remove_set rb_contains_set rb_len_card union_with_set intersect_with_set difference_with_set)

section \<open>Iteration\<close>

lemma unat_join_value: "unat (join_value k l) = unat k * 65536 + unat l"
proof -
  have "join_value k l = push_bit 16 (ucast k) + ucast l"
    unfolding join_value_def by (rule disjunctive_add [symmetric]) (auto simp: bit_simps dest: bit_imp_le_length)
  moreover have "unat k < 65536" "unat l < 65536" using unsigned_less [of k] unsigned_less [of l] by simp_all
  ultimately show ?thesis
    by (simp add: push_bit_eq_mult unat_word_ariths unsigned_ucast_eq unsigned_take_bit_eq take_bit_eq_mod)
qed

lemma join_mono: "l < l' \<Longrightarrow> join_value k l < join_value k l'"
  by (simp add: word_less_nat_alt unat_join_value)

lemma join_key_mono: "k < k' \<Longrightarrow> join_value k l < join_value k' l'"
proof -
  assume "k < k'"
  then have "Suc (unat k) * 65536 \<le> unat k' * 65536" by (intro mult_le_mono1) (simp add: word_less_nat_alt)
  moreover have "unat l < 65536" using unsigned_less [of l] by simp
  ultimately show ?thesis by (simp add: word_less_nat_alt unat_join_value)
qed

lemma to_vec_map:
  assumes "keys_sorted m" "\<forall>(k, c) \<in> set m. c_ok c"
  defines "out \<equiv> concat (map (\<lambda>(key, c). map (join_value key) (c_iter c)) m)"
  shows "sorted_wrt (<) out \<and> set out = glue (lows m)"
  using assms(1,2) unfolding out_def
proof (induction m)
  case Nil
  then show ?case by (simp add: glue_def)
next
  case (Cons e m)
  obtain k c where e: "e = (k, c)" by (cases e)
  let ?rest = "concat (map (\<lambda>(key, c). map (join_value key) (c_iter c)) m)"
  have ih: "sorted_wrt (<) ?rest" "set ?rest = glue (lows m)" using Cons by auto
  have it: "sorted_wrt (<) (c_iter c)" "set (c_iter c) = c_set c" using c_iter_sorted [of c] Cons.prems e by auto
  have k: "k \<notin> fst ` set m" "\<forall>j \<in> fst ` set m. k < j" using Cons.prems(1) e by auto
  have "(lows m)(k := {}) = lows m" using lows_absent [OF k(1)] by (simp add: fun_eq_iff)
  then have st: "glue (lows (e # m)) = glue (lows m) \<union> join_value k ` c_set c"
    using glue_upd [of "lows m" k "c_set c"] by (simp only: e lows_Cons)
  have "k < key_of v" if "v \<in> glue (lows m)" for v
    using that k(2) lows_absent [of "key_of v" m] unfolding in_glue by blast
  then have "join_value k l < v" if "v \<in> glue (lows m)" for l v
    using that join_key_mono [of k "key_of v" l "low_of v"] by simp
  moreover have "sorted_wrt (<) (map (join_value k) (c_iter c))"
    using it(1) by (auto simp: sorted_wrt_map intro: sorted_wrt_mono_rel [rotated] join_mono)
  ultimately show ?case using ih it st e by (auto simp: sorted_wrt_append)
qed

lemma from_sorted_fold:
  assumes "m_ok (containers rb)"
  shows "m_ok (containers (fold from_sorted_step vs rb)) \<and> rb_set (fold from_sorted_step vs rb) = rb_set rb \<union> set vs
    \<and> rb_len (fold from_sorted_step vs rb) = rb_len rb + length vs"
  using assms
proof (induction vs arbitrary: rb)
  case (Cons v vs)
  let ?r = "rb\<lparr>rb_len := stored (containers rb)\<rparr>"
  have "containers (from_sorted_step v rb) = containers (snd (rb_add v ?r))"
    by (simp add: from_sorted_step_def rb_add_def Let_def split: prod.split)
  moreover have "rb_ok (snd (rb_add v ?r)) \<and> rb_set (snd (rb_add v ?r)) = insert v (rb_set ?r)"
    using rb_add_set [of ?r v] Cons.prems by (simp add: rb_ok_def)
  ultimately have "m_ok (containers (from_sorted_step v rb))" "rb_set (from_sorted_step v rb) = insert v (rb_set rb)"
    by (auto simp: rb_ok_def rb_set_def)
  moreover have "rb_len (from_sorted_step v rb) = Suc (rb_len rb)" by (simp add: from_sorted_step_def)
  ultimately show ?case using Cons.IH [of "from_sorted_step v rb"] by auto
qed simp

section \<open>Properties\<close>

lemma rb_to_vec_sorted: "m_ok (containers rb) \<Longrightarrow> rb_to_vec rb = sorted_list_of_set (rb_set rb)"
  using to_vec_map [of "containers rb"] m_okD [of "containers rb"]
  by (metis rb_set_def rb_to_vec_def sorted_list_of_set.idem_if_sorted_distinct strict_sorted_iff)

text \<open>C32. The bitmap implements finite sets of 32-bit values: on bitmaps in good shape (keys ascending, no
  empty container, the length the sum of the container lengths) adding, removing, testing, and the in-place
  union, intersection and difference compute the set operations, the booleans of add and remove say whether the
  set changed, the stored length is the number of elements, and the shape is kept, whatever mix of array and
  bitmap containers the two operands hold.\<close>

theorem roaring_refines_sets:
  assumes "rb_ok a" "rb_ok b"
  shows "rb_ok (snd (rb_add v a)) \<and> rb_set (snd (rb_add v a)) = insert v (rb_set a)
    \<and> (fst (rb_add v a) \<longleftrightarrow> v \<notin> rb_set a)
    \<and> rb_ok (snd (rb_remove v a)) \<and> rb_set (snd (rb_remove v a)) = rb_set a - {v}
    \<and> (fst (rb_remove v a) \<longleftrightarrow> v \<in> rb_set a)
    \<and> (rb_contains v a \<longleftrightarrow> v \<in> rb_set a)
    \<and> rb_ok (union_with a b) \<and> rb_set (union_with a b) = rb_set a \<union> rb_set b
    \<and> rb_ok (intersect_with a b) \<and> rb_set (intersect_with a b) = rb_set a \<inter> rb_set b
    \<and> rb_ok (difference_with a b) \<and> rb_set (difference_with a b) = rb_set a - rb_set b
    \<and> rb_len a = card (rb_set a)"
  using assms by (simp add: roaring.add_law roaring.remove_law roaring.contains_law roaring.join_law
      roaring.meet_law roaring.minus_law roaring.size_law)

theorem roaring_refines_sets_witness:
  "rb_set (union_with (snd (rb_add 70000 rb_new)) (snd (rb_add 7 rb_new))) = {7, 70000}
    \<and> rb_set (intersect_with (snd (rb_add 70000 rb_new)) (snd (rb_add 7 rb_new))) = {}"
  using roaring_refines_sets [of "snd (rb_add 70000 rb_new)" "snd (rb_add 7 rb_new)"]
    roaring.add_law [of rb_new 7] roaring.add_law [of rb_new 70000] roaring.empty_law
  by auto

text \<open>C33. Building a bitmap from a slice and listing it again gives the elements of the slice in ascending
  order without duplicates, so a strictly ascending slice comes back unchanged. The stored length is the length
  of the slice, which counts every duplicate.\<close>

theorem from_sorted_round_trip:
  "rb_to_vec (from_sorted vs) = sorted_list_of_set (set vs) \<and> rb_len (from_sorted vs) = length vs
    \<and> (rb_ok (from_sorted vs) \<longleftrightarrow> distinct vs)"
proof -
  have e: "m_ok (containers rb_new)" "rb_set rb_new = {}" "rb_len rb_new = 0"
    using roaring.empty_law by (auto simp: rb_ok_def) (simp add: rb_new_def)
  have f: "m_ok (containers (from_sorted vs))" "rb_set (from_sorted vs) = set vs" "rb_len (from_sorted vs) = length vs"
    using from_sorted_fold [OF e(1), of vs] e(2,3) by (simp_all add: from_sorted_def)
  have "card (set vs) = stored (containers (from_sorted vs))"
    using card_glue_lows [OF m_okD [OF f(1)]] f(2) by (simp add: rb_set_def)
  then have "rb_ok (from_sorted vs) \<longleftrightarrow> distinct vs"
    using f by (auto simp: rb_ok_def card_distinct distinct_card)
  then show ?thesis using rb_to_vec_sorted [OF f(1)] f by simp
qed

end
