(* ===== verification/Art_Node.thy ===== *)
theory Art_Node
  imports Akar_Prelude
begin

text \<open>
  The nodes of the adaptive radix tree (\<^verbatim>\<open>akar-storage/src/art_node.rs\<close>) in their four sizes. A fixed-size
  array is a list of that length; the invariant \<open>node_ok\<close> records the lengths and shows that every index
  the code uses is in range. Counters are at most 256 and do not reach the end of their 16 bits. A mutable
  reference to a child is a read of the child and a write back of the changed child (\<open>set_child\<close>).
\<close>

section \<open>Nodes\<close>

datatype node_kind = KNode4 | KNode16 | KNode48 | KNode256

definition NODE4_MAX :: nat where
  "NODE4_MAX = 4"

definition NODE16_MAX :: nat where
  "NODE16_MAX = 16"

definition NODE48_MAX :: nat where
  "NODE48_MAX = 48"

definition EMPTY_MARKER :: u8 where
  "EMPTY_MARKER = 255"

datatype art_node =
    Node4 (nd_prefix: bytes) (nd_keys: bytes) (nd_children: "art_node option list")
      (nd_offsets: "u64 list") (nd_overflow: "u64 list") (nd_count: nat)
  | Node16 (nd_prefix: bytes) (nd_keys: bytes) (nd_children: "art_node option list")
      (nd_offsets: "u64 list") (nd_overflow: "u64 list") (nd_count: nat)
  | Node48 (nd_prefix: bytes) (nd_index: bytes) (nd_children: "art_node option list")
      (nd_offsets: "u64 list") (nd_overflow: "u64 list") (nd_count: nat)
  | Node256 (nd_prefix: bytes) (nd_children: "art_node option list")
      (nd_offsets: "u64 list") (nd_overflow: "u64 list") (nd_count: nat)

definition new_node4 :: art_node where
  "new_node4 = Node4 [] (replicate 4 0) (replicate 4 None) [] [] 0"

definition kind :: "art_node \<Rightarrow> node_kind" where
  "kind n = (case n of Node4 _ _ _ _ _ _ \<Rightarrow> KNode4 | Node16 _ _ _ _ _ _ \<Rightarrow> KNode16
    | Node48 _ _ _ _ _ _ \<Rightarrow> KNode48 | Node256 _ _ _ _ _ \<Rightarrow> KNode256)"

fun set_prefix :: "bytes \<Rightarrow> art_node \<Rightarrow> art_node" where
  "set_prefix p (Node4 _ ks cs os ov c) = Node4 p ks cs os ov c"
| "set_prefix p (Node16 _ ks cs os ov c) = Node16 p ks cs os ov c"
| "set_prefix p (Node48 _ ix cs os ov c) = Node48 p ix cs os ov c"
| "set_prefix p (Node256 _ cs os ov c) = Node256 p cs os ov c"

fun set_offsets :: "u64 list \<Rightarrow> u64 list \<Rightarrow> art_node \<Rightarrow> art_node" where
  "set_offsets os ov (Node4 p ks cs _ _ c) = Node4 p ks cs os ov c"
| "set_offsets os ov (Node16 p ks cs _ _ c) = Node16 p ks cs os ov c"
| "set_offsets os ov (Node48 p ix cs _ _ c) = Node48 p ix cs os ov c"
| "set_offsets os ov (Node256 p cs _ _ c) = Node256 p cs os ov c"

definition has_offsets :: "art_node \<Rightarrow> bool" where
  "has_offsets n = (nd_offsets n \<noteq> [] \<or> nd_overflow n \<noteq> [])"

definition all_offsets :: "art_node \<Rightarrow> u64 list" where
  "all_offsets n = nd_offsets n @ nd_overflow n"

text \<open>Growing a full node to the next size.\<close>

definition grow_node4_to_node16 ::
  "bytes \<Rightarrow> u64 list \<Rightarrow> u64 list \<Rightarrow> bytes \<Rightarrow> art_node option list \<Rightarrow> nat \<Rightarrow> art_node" where
  "grow_node4_to_node16 p os ov ks cs c =
     Node16 p (map (\<lambda>i. if i < c then ks ! i else 0) [0..<16]) (map (\<lambda>i. if i < c then cs ! i else None) [0..<16]) os ov c"

definition grow_node16_to_node48 ::
  "bytes \<Rightarrow> u64 list \<Rightarrow> u64 list \<Rightarrow> bytes \<Rightarrow> art_node option list \<Rightarrow> nat \<Rightarrow> art_node" where
  "grow_node16_to_node48 p os ov ks cs c =
     Node48 p (fold (\<lambda>i ix. ix[unat (ks ! i) := word_of_nat i]) [0..<c] (replicate 256 EMPTY_MARKER))
       (map (\<lambda>i. if i < c then cs ! i else None) [0..<48]) os ov c"

definition move_slot :: "bytes \<Rightarrow> nat \<Rightarrow> art_node option list \<times> art_node option list
    \<Rightarrow> art_node option list \<times> art_node option list" where
  "move_slot ix b s =
     (let (new, old) = s; idx = ix ! b
      in if idx \<noteq> EMPTY_MARKER then (new[b := old ! unat idx], old[unat idx := None]) else (new, old))"

definition grow_node48_to_node256 ::
  "bytes \<Rightarrow> u64 list \<Rightarrow> u64 list \<Rightarrow> bytes \<Rightarrow> art_node option list \<Rightarrow> nat \<Rightarrow> art_node" where
  "grow_node48_to_node256 p os ov ix cs c =
     Node256 p (fst (fold (move_slot ix) [0..<256] (replicate 256 None, cs))) os ov c"

fun node_rank :: "art_node \<Rightarrow> nat" where
  "node_rank (Node4 _ _ _ _ _ _) = 3"
| "node_rank (Node16 _ _ _ _ _ _) = 2"
| "node_rank (Node48 _ _ _ _ _ _) = 1"
| "node_rank (Node256 _ _ _ _ _) = 0"

function insert_child :: "u8 \<Rightarrow> art_node \<Rightarrow> art_node \<Rightarrow> art_node" where
  "insert_child byte child (Node4 p ks cs os ov c) =
     (if c < NODE4_MAX then Node4 p (ks[c := byte]) (cs[c := Some child]) os ov (c + 1)
      else insert_child byte child (grow_node4_to_node16 p os ov ks cs c))"
| "insert_child byte child (Node16 p ks cs os ov c) =
     (if c < NODE16_MAX then Node16 p (ks[c := byte]) (cs[c := Some child]) os ov (c + 1)
      else insert_child byte child (grow_node16_to_node48 p os ov ks cs c))"
| "insert_child byte child (Node48 p ix cs os ov c) =
     (if c < NODE48_MAX then Node48 p (ix[unat byte := word_of_nat c]) (cs[c := Some child]) os ov (c + 1)
      else insert_child byte child (grow_node48_to_node256 p os ov ix cs c))"
| "insert_child byte child (Node256 p cs os ov c) =
     (if cs ! unat byte = None then Node256 p (cs[unat byte := Some child]) os ov (c + 1) else Node256 p cs os ov c)"
  by pat_completeness auto
termination
  by (relation "measure (\<lambda>(_, _, n). node_rank n)")
    (simp_all add: grow_node4_to_node16_def grow_node16_to_node48_def grow_node48_to_node256_def)

definition find_slot :: "bytes \<Rightarrow> nat \<Rightarrow> u8 \<Rightarrow> nat option" where
  "find_slot ks c byte = find (\<lambda>i. ks ! i = byte) [0..<c]"

fun get_child :: "art_node \<Rightarrow> u8 \<Rightarrow> art_node option" where
  "get_child (Node4 p ks cs os ov c) byte = (case find_slot ks c byte of Some i \<Rightarrow> cs ! i | None \<Rightarrow> None)"
| "get_child (Node16 p ks cs os ov c) byte = (case find_slot ks c byte of Some i \<Rightarrow> cs ! i | None \<Rightarrow> None)"
| "get_child (Node48 p ix cs os ov c) byte =
     (let idx = ix ! unat byte in if idx = EMPTY_MARKER then None else cs ! unat idx)"
| "get_child (Node256 p cs os ov c) byte = cs ! unat byte"

text \<open>The write through \<^verbatim>\<open>get_child_mut\<close>.\<close>

definition put_at :: "nat \<Rightarrow> 'a \<Rightarrow> 'a option list \<Rightarrow> 'a option list" where
  "put_at i x xs = (case xs ! i of Some _ \<Rightarrow> xs[i := Some x] | None \<Rightarrow> xs)"

fun set_child :: "u8 \<Rightarrow> art_node \<Rightarrow> art_node \<Rightarrow> art_node" where
  "set_child byte child (Node4 p ks cs os ov c) =
     (case find_slot ks c byte of Some i \<Rightarrow> Node4 p ks (put_at i child cs) os ov c | None \<Rightarrow> Node4 p ks cs os ov c)"
| "set_child byte child (Node16 p ks cs os ov c) =
     (case find_slot ks c byte of Some i \<Rightarrow> Node16 p ks (put_at i child cs) os ov c | None \<Rightarrow> Node16 p ks cs os ov c)"
| "set_child byte child (Node48 p ix cs os ov c) =
     (let idx = ix ! unat byte
      in if idx = EMPTY_MARKER then Node48 p ix cs os ov c else Node48 p ix (put_at (unat idx) child cs) os ov c)"
| "set_child byte child (Node256 p cs os ov c) = Node256 p (put_at (unat byte) child cs) os ov c"

text \<open>\<open>None\<close> is the \<^verbatim>\<open>unreachable!\<close> branch.\<close>

definition get_or_insert_child :: "u8 \<Rightarrow> art_node \<Rightarrow> (art_node \<times> art_node) option" where
  "get_or_insert_child byte n =
     (let n' = (if get_child n byte = None then insert_child byte new_node4 n else n)
      in case get_child n' byte of Some c \<Rightarrow> Some (n', c) | None \<Rightarrow> None)"

definition shift_left :: "nat \<Rightarrow> nat \<Rightarrow> 'a list \<Rightarrow> 'a list" where
  "shift_left i c xs = map (\<lambda>j. if i \<le> j \<and> j < c - 1 then xs ! (j + 1) else xs ! j) [0..<length xs]"

fun remove_child :: "u8 \<Rightarrow> art_node \<Rightarrow> art_node" where
  "remove_child byte (Node4 p ks cs os ov c) =
     (case find_slot ks c byte of
        Some i \<Rightarrow> Node4 p (shift_left i c ks) ((shift_left i c cs)[c - 1 := None]) os ov (c - 1)
      | None \<Rightarrow> Node4 p ks cs os ov c)"
| "remove_child byte (Node16 p ks cs os ov c) =
     (case find_slot ks c byte of
        Some i \<Rightarrow> Node16 p (shift_left i c ks) ((shift_left i c cs)[c - 1 := None]) os ov (c - 1)
      | None \<Rightarrow> Node16 p ks cs os ov c)"
| "remove_child byte (Node48 p ix cs os ov c) =
     (let idx = ix ! unat byte
      in if idx \<noteq> EMPTY_MARKER
         then Node48 p (ix[unat byte := EMPTY_MARKER]) (cs[unat idx := None]) os ov (c - 1)
         else Node48 p ix cs os ov c)"
| "remove_child byte (Node256 p cs os ov c) =
     (if cs ! unat byte \<noteq> None then Node256 p (cs[unat byte := None]) os ov (c - 1) else Node256 p cs os ov c)"

definition add_offset :: "u64 \<Rightarrow> art_node \<Rightarrow> art_node" where
  "add_offset off n =
     (if nd_offsets n = [] then set_offsets [off] (nd_overflow n) n
      else set_offsets (nd_offsets n) (nd_overflow n @ [off]) n)"

definition remove_offset :: "u64 \<Rightarrow> art_node \<Rightarrow> bool \<times> art_node" where
  "remove_offset off n =
     (if off \<in> set (nd_offsets n) then
        (let os = remove1 off (nd_offsets n)
         in case nd_overflow n of
              [] \<Rightarrow> (True, set_offsets os [] n)
            | o1 # ov \<Rightarrow> (True, set_offsets (os @ [o1]) ov n))
      else if off \<in> set (nd_overflow n) then (True, set_offsets (nd_offsets n) (remove1 off (nd_overflow n)) n)
      else (False, n))"

definition clear_offsets :: "art_node \<Rightarrow> art_node" where
  "clear_offsets n = set_offsets [] [] n"

definition node_is_empty :: "art_node \<Rightarrow> bool" where
  "node_is_empty n = (\<not> has_offsets n \<and> nd_count n = 0 \<and> nd_prefix n = [])"

section \<open>Arena blocks\<close>

definition NODE_BLOCK_CAPACITY :: nat where
  "NODE_BLOCK_CAPACITY = 16 * 1024"

record node_block =
  nb_nodes :: "art_node list"
  nb_used :: nat

definition nb_new :: node_block where
  "nb_new = \<lparr>nb_nodes = [], nb_used = 0\<rparr>"

definition nb_allocate :: "art_node \<Rightarrow> node_block \<Rightarrow> (nat \<times> node_block) option" where
  "nb_allocate n nb =
     (if nb_used nb < NODE_BLOCK_CAPACITY
      then Some (nb_used nb, nb\<lparr>nb_nodes := nb_nodes nb @ [n], nb_used := nb_used nb + 1\<rparr>)
      else None)"

definition nb_get :: "nat \<Rightarrow> node_block \<Rightarrow> art_node option" where
  "nb_get i nb = (if i < length (nb_nodes nb) then Some (nb_nodes nb ! i) else None)"

definition nb_remaining :: "node_block \<Rightarrow> nat" where
  "nb_remaining nb = NODE_BLOCK_CAPACITY - nb_used nb"

definition nb_clear :: "node_block \<Rightarrow> node_block" where
  "nb_clear nb = nb\<lparr>nb_nodes := [], nb_used := 0\<rparr>"

section \<open>The invariant of a node\<close>

definition offs_ok :: "u64 list \<Rightarrow> u64 list \<Rightarrow> bool" where
  "offs_ok os ov \<longleftrightarrow> length os \<le> 1 \<and> (os = [] \<longrightarrow> ov = [])"

text \<open>Nodes of size 4 and 16: the first \<open>c\<close> keys are distinct and have a child each.\<close>

definition arr_ok :: "nat \<Rightarrow> bytes \<Rightarrow> 'a option list \<Rightarrow> nat \<Rightarrow> bool" where
  "arr_ok cap ks cs c \<longleftrightarrow> length ks = cap \<and> length cs = cap \<and> c \<le> cap \<and> distinct (take c ks)
    \<and> (\<forall>i < cap. cs ! i \<noteq> None \<longleftrightarrow> i < c)"

text \<open>Size 48: the index maps the used bytes injectively onto the first \<open>c\<close> slots.\<close>

definition used_bytes :: "bytes \<Rightarrow> nat set" where
  "used_bytes ix = {b. b < 256 \<and> ix ! b \<noteq> EMPTY_MARKER}"

definition index_ok :: "bytes \<Rightarrow> 'a option list \<Rightarrow> nat \<Rightarrow> bool" where
  "index_ok ix cs c \<longleftrightarrow> length ix = 256 \<and> length cs = 48 \<and> c \<le> 48
    \<and> (\<forall>b \<in> used_bytes ix. unat (ix ! b) < c) \<and> inj_on ((!) ix) (used_bytes ix) \<and> card (used_bytes ix) = c
    \<and> (\<forall>i < 48. cs ! i \<noteq> None \<longleftrightarrow> i < c)"

definition direct_ok :: "'a option list \<Rightarrow> nat \<Rightarrow> bool" where
  "direct_ok cs c \<longleftrightarrow> length cs = 256 \<and> c = card {b. b < 256 \<and> cs ! b \<noteq> None}"

fun slots_ok :: "art_node \<Rightarrow> bool" where
  "slots_ok (Node4 p ks cs os ov c) = arr_ok 4 ks cs c"
| "slots_ok (Node16 p ks cs os ov c) = arr_ok 16 ks cs c"
| "slots_ok (Node48 p ix cs os ov c) = index_ok ix cs c"
| "slots_ok (Node256 p cs os ov c) = direct_ok cs c"

definition node_ok :: "art_node \<Rightarrow> bool" where
  "node_ok n \<longleftrightarrow> slots_ok n \<and> offs_ok (nd_offsets n) (nd_overflow n)"

lemma unat_byte [simp]: "unat (b :: u8) < 256"
  using unsigned_less [of b] by simp

lemma unat_byte_nth: "n < 256 \<Longrightarrow> unat (word_of_nat n :: u8) = n"
  by (simp add: unsigned_of_nat take_bit_eq_mod)

lemma byte_of_unat [simp]: "(word_of_nat (unat b) :: u8) = b"
  by simp

subsection \<open>Slots of the array nodes\<close>

lemma find_slot_Some:
  assumes "c \<le> length ks" "distinct (take c ks)"
  shows "find_slot ks c b = Some i \<longleftrightarrow> i < c \<and> ks ! i = b"
proof
  assume "find_slot ks c b = Some i"
  then show "i < c \<and> ks ! i = b" unfolding find_slot_def by (auto simp: find_Some_iff)
next
  assume i: "i < c \<and> ks ! i = b"
  have "ks ! j \<noteq> b" if "j < i" for j
    using assms i that nth_eq_iff_index_eq [of "take c ks" i j] by auto
  then show "find_slot ks c b = Some i" unfolding find_slot_def using i by (auto simp: find_Some_iff)
qed

lemma find_slot_None: "c \<le> length ks \<Longrightarrow> find_slot ks c b = None \<longleftrightarrow> b \<notin> set (take c ks)"
  by (auto simp: find_slot_def find_None_iff in_set_conv_nth)

definition arr_get :: "bytes \<Rightarrow> 'a option list \<Rightarrow> nat \<Rightarrow> u8 \<Rightarrow> 'a option" where
  "arr_get ks cs c b = (case find_slot ks c b of Some i \<Rightarrow> cs ! i | None \<Rightarrow> None)"

lemma arr_get_iff:
  assumes "arr_ok cap ks cs c"
  shows "arr_get ks cs c b = Some x \<longleftrightarrow> (\<exists>i < c. ks ! i = b \<and> cs ! i = Some x)"
  using assms find_slot_Some [of c ks b]
  by (auto simp: arr_ok_def arr_get_def split: option.splits) (metis option.sel)+

lemma arr_get_None:
  assumes "arr_ok cap ks cs c"
  shows "arr_get ks cs c b = None \<longleftrightarrow> b \<notin> set (take c ks)"
proof (cases "find_slot ks c b")
  case None
  then show ?thesis using assms find_slot_None [of c ks b] by (simp add: arr_ok_def arr_get_def)
next
  case (Some i)
  then show ?thesis
    using assms find_slot_Some [of c ks b i] find_slot_None [of c ks b] by (simp add: arr_ok_def arr_get_def)
qed

lemma ex_less_Suc: "(\<exists>i < c + 1. P i) \<longleftrightarrow> (\<exists>i < c. P i) \<or> P (c :: nat)"
  by (metis Suc_eq_plus1 less_Suc_eq)

lemma map_eqI: "(\<And>b x. f b = Some x \<longleftrightarrow> g b = Some x) \<Longrightarrow> f = g"
  by (rule ext) (metis not_Some_eq)

lemma arr_insert:
  assumes "arr_ok cap ks cs c" "c < cap" "arr_get ks cs c b = None"
  shows "arr_ok cap (ks[c := b]) (cs[c := Some x]) (c + 1)
    \<and> arr_get (ks[c := b]) (cs[c := Some x]) (c + 1) = (arr_get ks cs c)(b \<mapsto> x)"
proof -
  have b: "b \<notin> set (take c ks)" using arr_get_None [OF assms(1)] assms(3) by blast
  have t: "take (Suc c) (ks[c := b]) = take c ks @ [b]"
    using assms(1,2) by (simp add: arr_ok_def take_Suc_conv_app_nth)
  have ok: "arr_ok cap (ks[c := b]) (cs[c := Some x]) (c + 1)"
    using assms b t by (auto simp: arr_ok_def nth_list_update less_Suc_eq)
  have "arr_get (ks[c := b]) (cs[c := Some x]) (c + 1) d = Some y \<longleftrightarrow> ((arr_get ks cs c)(b \<mapsto> x)) d = Some y" for d y
  proof -
    have "ks ! i \<noteq> b" if "i < c" for i
      using b that assms(1,2) by (auto simp: arr_ok_def in_set_conv_nth)
    moreover have "(\<exists>i < c + 1. ks[c := b] ! i = d \<and> cs[c := Some x] ! i = Some y)
        \<longleftrightarrow> (\<exists>i < c. ks ! i = d \<and> cs ! i = Some y) \<or> b = d \<and> x = y"
      unfolding ex_less_Suc using assms(1,2) by (auto simp: arr_ok_def)
    ultimately show ?thesis
      unfolding arr_get_iff [OF ok] fun_upd_apply using arr_get_iff [OF assms(1), of d y] by auto
  qed
  then show ?thesis using ok by (intro conjI map_eqI)
qed

lemma arr_update:
  assumes "arr_ok cap ks cs c" "find_slot ks c b = Some i"
  shows "arr_ok cap ks (put_at i x cs) c \<and> arr_get ks (put_at i x cs) c = (arr_get ks cs c)(b \<mapsto> x)"
proof -
  have ks: "c \<le> length ks" "distinct (take c ks)" using assms(1) by (simp_all add: arr_ok_def)
  have i: "i < c" "ks ! i = b" using assms(2) find_slot_Some [OF ks, of b i] by blast+
  then have "cs ! i \<noteq> None" using assms(1) by (simp add: arr_ok_def)
  then have p: "put_at i x cs = cs[i := Some x]" by (auto simp: put_at_def)
  have ok: "arr_ok cap ks (cs[i := Some x]) c"
    using assms(1) i by (simp add: arr_ok_def nth_list_update)
  have len: "i < length cs" using i(1) assms(1) by (simp add: arr_ok_def)
  have "arr_get ks (cs[i := Some x]) c d = ((arr_get ks cs c)(b \<mapsto> x)) d" for d
  proof (cases "d = b")
    case True
    then show ?thesis using assms(2) len by (simp add: arr_get_def)
  next
    case False
    then have "j \<noteq> i" if "find_slot ks c d = Some j" for j using that find_slot_Some [OF ks, of d j] i(2) by blast
    then show ?thesis using False by (cases "find_slot ks c d") (simp_all add: arr_get_def nth_list_update_neq [OF not_sym])
  qed
  then show ?thesis using ok unfolding p by blast
qed

subsection \<open>Slots of the indexed and of the direct nodes\<close>

definition idx_get :: "bytes \<Rightarrow> 'a option list \<Rightarrow> u8 \<Rightarrow> 'a option" where
  "idx_get ix cs b = (let idx = ix ! unat b in if idx = EMPTY_MARKER then None else cs ! unat idx)"

lemma used_unat: "unat (b :: u8) \<in> used_bytes ix \<longleftrightarrow> ix ! unat b \<noteq> EMPTY_MARKER"
  by (simp add: used_bytes_def)

lemma slot_byte: "c < 48 \<Longrightarrow> unat (word_of_nat c :: u8) = c \<and> (word_of_nat c :: u8) \<noteq> EMPTY_MARKER"
proof -
  assume "c < 48"
  then have c: "unat (word_of_nat c :: u8) = c" by (intro unat_byte_nth) simp
  moreover have "unat EMPTY_MARKER = 255" by (simp add: EMPTY_MARKER_def)
  ultimately show ?thesis using \<open>c < 48\<close> by auto
qed

lemma idx_get_None:
  assumes "index_ok ix cs c"
  shows "idx_get ix cs b = None \<longleftrightarrow> ix ! unat b = EMPTY_MARKER"
  using assms used_unat [of b ix] by (auto simp: index_ok_def idx_get_def Let_def)

lemma idx_insert:
  assumes "index_ok ix cs c" "c < 48" "idx_get ix cs b = None"
  shows "index_ok (ix[unat b := word_of_nat c]) (cs[c := Some x]) (c + 1)
    \<and> idx_get (ix[unat b := word_of_nat c]) (cs[c := Some x]) = (idx_get ix cs)(b \<mapsto> x)"
proof -
  let ?ix = "ix[unat b := word_of_nat c]"
  have e: "unat b \<notin> used_bytes ix" using idx_get_None [OF assms(1), of b] assms(3) by (simp add: used_unat)
  have c: "unat (word_of_nat c :: u8) = c" "(word_of_nat c :: u8) \<noteq> EMPTY_MARKER"
    using assms(2) slot_byte [of c] by simp_all
  have u: "used_bytes ?ix = insert (unat b) (used_bytes ix)"
    using assms(1) c by (auto simp: used_bytes_def index_ok_def nth_list_update)
  have low: "unat (ix ! d) < c" if "d \<in> used_bytes ix" for d using assms(1) that by (auto simp: index_ok_def)
  have n: "?ix ! d = ix ! d" if "d \<in> used_bytes ix" for d using that e by (metis nth_list_update_neq)
  have inj: "inj_on ((!) ?ix) (used_bytes ?ix)"
    unfolding u
  proof (rule inj_on_insert [THEN iffD2], intro conjI)
    show "inj_on ((!) ?ix) (used_bytes ix)" using assms(1) n by (auto simp: index_ok_def inj_on_def)
    show "?ix ! unat b \<notin> (!) ?ix ` (used_bytes ix - {unat b})"
      using low n c(1) assms(1) by (fastforce simp: index_ok_def)
  qed
  have fin: "finite (used_bytes ix)" by (simp add: used_bytes_def)
  have "card (used_bytes ?ix) = c + 1" using u e fin assms(1) by (simp add: index_ok_def)
  moreover have "unat (?ix ! d) < c + 1" if "d \<in> used_bytes ?ix" for d
  proof (cases "d = unat b")
    case True then show ?thesis using c(1) assms(1) by (simp add: index_ok_def)
  next
    case False
    then have "d \<in> used_bytes ix" using that u by blast
    then show ?thesis using low [of d] n [of d] by simp
  qed
  ultimately have ok: "index_ok ?ix (cs[c := Some x]) (c + 1)"
    using assms(1,2) inj by (auto simp: index_ok_def nth_list_update less_Suc_eq)
  have "idx_get ?ix (cs[c := Some x]) d = ((idx_get ix cs)(b \<mapsto> x)) d" for d
  proof (cases "d = b")
    case True
    then show ?thesis using assms(1,2) c by (simp add: idx_get_def index_ok_def)
  next
    case False
    then have "unat d \<noteq> unat b" by (metis byte_of_unat)
    then have eq: "?ix ! unat d = ix ! unat d" by simp
    show ?thesis
      using False eq low [of "unat d"] used_unat [of d ix] by (auto simp: idx_get_def Let_def)
  qed
  then show ?thesis using ok by blast
qed

lemma idx_update:
  assumes "index_ok ix cs c" "ix ! unat b \<noteq> EMPTY_MARKER"
  shows "index_ok ix (put_at (unat (ix ! unat b)) x cs) c
    \<and> idx_get ix (put_at (unat (ix ! unat b)) x cs) = (idx_get ix cs)(b \<mapsto> x)"
proof -
  let ?i = "unat (ix ! unat b)"
  have u: "unat b \<in> used_bytes ix" using assms(2) by (simp add: used_unat)
  have inj: "inj_on ((!) ix) (used_bytes ix)" and "\<forall>b \<in> used_bytes ix. unat (ix ! b) < c" "c \<le> 48"
    using assms(1) by (simp_all add: index_ok_def)
  then have i: "?i < c" "?i < 48" using u by fastforce+
  then have "cs ! ?i \<noteq> None" using assms(1) by (simp add: index_ok_def)
  then have p: "put_at ?i x cs = cs[?i := Some x]" by (auto simp: put_at_def)
  have ok: "index_ok ix (cs[?i := Some x]) c"
    using assms(1) i by (simp add: index_ok_def nth_list_update)
  have "idx_get ix (cs[?i := Some x]) d = ((idx_get ix cs)(b \<mapsto> x)) d" for d
  proof (cases "d = b")
    case True
    then show ?thesis using assms i by (simp add: idx_get_def index_ok_def)
  next
    case False
    then have ne: "unat d \<noteq> unat b" by (metis byte_of_unat)
    have "unat (ix ! unat d) \<noteq> ?i" if "ix ! unat d \<noteq> EMPTY_MARKER"
    proof
      assume "unat (ix ! unat d) = ?i"
      then have "ix ! unat d = ix ! unat b" by (metis byte_of_unat)
      moreover have "unat d \<in> used_bytes ix" using that by (simp add: used_unat)
      ultimately show False using inj_onD [OF inj] u ne by blast
    qed
    then show ?thesis using False by (cases "ix ! unat d = EMPTY_MARKER") (simp_all add: idx_get_def)
  qed
  then show ?thesis using ok unfolding p by blast
qed

lemma card_insert_slot:
  assumes "unat b < length cs" "cs ! unat (b :: u8) = None" "length cs = 256"
  shows "card {d. d < 256 \<and> cs[unat b := Some x] ! d \<noteq> None} = card {d. d < 256 \<and> cs ! d \<noteq> None} + 1"
proof -
  have "{d. d < 256 \<and> cs[unat b := Some x] ! d \<noteq> None} = insert (unat b) {d. d < 256 \<and> cs ! d \<noteq> None}"
    using assms by (auto simp: nth_list_update)
  then show ?thesis using assms by simp
qed

lemma direct_insert:
  assumes "direct_ok cs c" "cs ! unat (b :: u8) = None"
  shows "direct_ok (cs[unat b := Some x]) (c + 1) \<and> (\<lambda>d. cs[unat b := Some x] ! unat d) = (\<lambda>d. cs ! unat d)(b \<mapsto> x)"
proof -
  have l: "unat b < length cs" using assms(1) by (simp add: direct_ok_def)
  have "cs[unat b := Some x] ! unat d = ((\<lambda>d. cs ! unat d)(b \<mapsto> x)) d" for d
    using l by (metis byte_of_unat fun_upd_apply nth_list_update)
  then show ?thesis using assms card_insert_slot [OF l assms(2)] by (auto simp: direct_ok_def)
qed

lemma direct_update:
  assumes "direct_ok cs c" "cs ! unat (b :: u8) \<noteq> None"
  shows "direct_ok (put_at (unat b) x cs) c \<and> (\<lambda>d. put_at (unat b) x cs ! unat d) = (\<lambda>d. cs ! unat d)(b \<mapsto> x)"
proof -
  have p: "put_at (unat b) x cs = cs[unat b := Some x]" using assms(2) by (auto simp: put_at_def)
  have l: "unat b < length cs" using assms(1) by (simp add: direct_ok_def)
  have "cs[unat b := Some x] ! unat d = ((\<lambda>d. cs ! unat d)(b \<mapsto> x)) d" for d
    using l by (metis byte_of_unat fun_upd_apply nth_list_update)
  moreover have "{d. d < 256 \<and> cs[unat b := Some x] ! d \<noteq> None} = {d. d < 256 \<and> cs ! d \<noteq> None}"
    using assms l by (auto simp: nth_list_update direct_ok_def split: if_splits)
  ultimately show ?thesis unfolding p using assms(1) by (auto simp: direct_ok_def)
qed

subsection \<open>Growth keeps the children\<close>

lemma grow16:
  assumes "arr_ok cap ks cs c" "cap \<le> 16"
  defines "ks' \<equiv> map (\<lambda>i. if i < c then ks ! i else 0) [0..<16]"
    and "cs' \<equiv> map (\<lambda>i. if i < c then cs ! i else None) [0..<16]"
  shows "arr_ok 16 ks' cs' c \<and> arr_get ks' cs' c = arr_get ks cs c"
proof -
  have c: "c \<le> 16" "c \<le> cap" using assms(1,2) by (simp_all add: arr_ok_def)
  have "take c ks' = take c ks"
    using assms(1) c by (intro nth_equalityI) (simp_all add: ks'_def arr_ok_def)
  then have ok: "arr_ok 16 ks' cs' c"
    using assms(1) c by (auto simp: arr_ok_def ks'_def cs'_def)
  have "arr_get ks' cs' c b = Some x \<longleftrightarrow> arr_get ks cs c b = Some x" for b x
    unfolding arr_get_iff [OF ok] arr_get_iff [OF assms(1)] using c by (auto simp: ks'_def cs'_def)
  then show ?thesis using ok by (intro conjI map_eqI)
qed

lemma find_append: "find P (xs @ ys) = (case find P xs of Some x \<Rightarrow> Some x | None \<Rightarrow> find P ys)"
  by (induction xs) auto

lemma arr_get_Suc:
  assumes "arr_ok cap ks cs c" "n < c"
  shows "arr_get ks cs n (ks ! n) = None \<and> arr_get ks cs (Suc n) = (arr_get ks cs n)(ks ! n \<mapsto> the (cs ! n))"
proof -
  have d: "ks ! i \<noteq> ks ! n" if "i < n" for i
    using assms that nth_eq_iff_index_eq [of "take c ks" i n] by (auto simp: arr_ok_def)
  then have none: "find_slot ks n (ks ! n) = None" by (auto simp: find_slot_def find_None_iff)
  have "find_slot ks (Suc n) b = (case find_slot ks n b of Some i \<Rightarrow> Some i | None \<Rightarrow> if ks ! n = b then Some n else None)" for b
    by (simp add: find_slot_def find_append split: option.splits)
  moreover have "cs ! n \<noteq> None" using assms by (simp add: arr_ok_def)
  then obtain x where "cs ! n = Some x" by blast
  ultimately show ?thesis
    using none by (auto simp: arr_get_def fun_eq_iff split: option.splits)
qed

lemma grow48:
  assumes "arr_ok cap ks cs c" "cap \<le> 48" "n \<le> c"
  shows "index_ok (fold (\<lambda>i ix. ix[unat (ks ! i) := word_of_nat i]) [0..<n] (replicate 256 EMPTY_MARKER))
      (map (\<lambda>i. if i < n then cs ! i else None) [0..<48]) n
    \<and> idx_get (fold (\<lambda>i ix. ix[unat (ks ! i) := word_of_nat i]) [0..<n] (replicate 256 EMPTY_MARKER))
      (map (\<lambda>i. if i < n then cs ! i else None) [0..<48]) = arr_get ks cs n"
  using assms(3)
proof (induction n)
  case 0
  have "used_bytes (replicate 256 EMPTY_MARKER) = {}" by (simp add: used_bytes_def)
  moreover have "idx_get (replicate 256 EMPTY_MARKER) xs b = None" for xs :: "'a option list" and b
    using unat_byte [of b] by (simp add: idx_get_def)
  ultimately show ?case by (simp add: index_ok_def arr_get_def find_slot_def fun_eq_iff)
next
  case (Suc n)
  let ?ix = "fold (\<lambda>i ix. ix[unat (ks ! i) := word_of_nat i]) [0..<n] (replicate 256 EMPTY_MARKER)"
  let ?cs = "\<lambda>n. map (\<lambda>i. if i < n then cs ! i else None) [0..<48]"
  have ih: "index_ok ?ix (?cs n) n" "idx_get ?ix (?cs n) = arr_get ks cs n" using Suc by auto
  have n: "n < c" "n < 48" using Suc.prems assms(1,2) by (auto simp: arr_ok_def)
  note s = arr_get_Suc [OF assms(1) n(1)]
  have "cs ! n \<noteq> None" using assms(1) n(1) by (auto simp: arr_ok_def)
  then have cs: "?cs (Suc n) = (?cs n)[n := Some (the (cs ! n))]"
    by (intro nth_equalityI) (auto simp: nth_list_update less_Suc_eq)
  have "idx_get ?ix (?cs n) (ks ! n) = None" using ih(2) s by simp
  from idx_insert [OF ih(1) n(2) this, of "the (cs ! n)"] show ?case
    using ih(2) s unfolding cs by simp
qed

lemma move_slots:
  assumes "index_ok ix cs c" "n \<le> 256"
  shows "length (fst (fold (move_slot ix) [0..<n] (replicate 256 None, cs))) = 256
    \<and> (\<forall>b < 256. fst (fold (move_slot ix) [0..<n] (replicate 256 None, cs)) ! b
         = (if b < n \<and> b \<in> used_bytes ix then cs ! unat (ix ! b) else None))
    \<and> (\<forall>b \<in> used_bytes ix. n \<le> b \<longrightarrow>
         snd (fold (move_slot ix) [0..<n] (replicate 256 None, cs)) ! unat (ix ! b) = cs ! unat (ix ! b))"
  using assms(2)
proof (induction n)
  case (Suc n)
  obtain new old where r: "fold (move_slot ix) [0..<n] (replicate 256 None, cs) = (new, old)" by fastforce
  have ih: "length new = 256" "\<And>b. b < 256 \<Longrightarrow> new ! b = (if b < n \<and> b \<in> used_bytes ix then cs ! unat (ix ! b) else None)"
      "\<And>b. b \<in> used_bytes ix \<Longrightarrow> n \<le> b \<Longrightarrow> old ! unat (ix ! b) = cs ! unat (ix ! b)"
    using Suc r by auto
  have inj: "unat (ix ! b) \<noteq> unat (ix ! n)" if "b \<in> used_bytes ix" "n \<in> used_bytes ix" "b \<noteq> n" for b
    using assms(1) that inj_onD [of "(!) ix" "used_bytes ix" b n] by (metis byte_of_unat index_ok_def)
  have n: "n < 256" using Suc.prems by simp
  have u: "ix ! n = EMPTY_MARKER \<longleftrightarrow> n \<notin> used_bytes ix" using n by (simp add: used_bytes_def)
  show ?case
  proof (cases "n \<in> used_bytes ix")
    case True
    then have "fold (move_slot ix) [0..<Suc n] (replicate 256 None, cs) = (new[n := old ! unat (ix ! n)], old[unat (ix ! n) := None])"
      using r u by (simp add: move_slot_def Let_def)
    moreover have "old[unat (ix ! n) := None] ! unat (ix ! b) = cs ! unat (ix ! b)" if "b \<in> used_bytes ix" "Suc n \<le> b" for b
      using inj [of b] ih(3) [of b] True that by (metis Suc_leD not_less_eq_eq nth_list_update_neq order_refl)
    ultimately show ?thesis using ih True n by (auto simp: nth_list_update less_Suc_eq)
  next
    case False
    then have "fold (move_slot ix) [0..<Suc n] (replicate 256 None, cs) = (new, old)"
      using r u by (simp add: move_slot_def)
    then show ?thesis using ih False by (auto simp: less_Suc_eq)
  qed
qed simp

lemma grow256:
  assumes "index_ok ix cs c"
  defines "new \<equiv> fst (fold (move_slot ix) [0..<256] (replicate 256 None, cs))"
  shows "direct_ok new c \<and> (\<lambda>b. new ! unat b) = idx_get ix cs"
proof -
  have new: "length new = 256" "\<And>b. b < 256 \<Longrightarrow> new ! b = (if b \<in> used_bytes ix then cs ! unat (ix ! b) else None)"
    using move_slots [OF assms(1), of 256] unfolding new_def by auto
  have u: "cs ! unat (ix ! b) \<noteq> None" if "b \<in> used_bytes ix" for b
    using that assms(1) unfolding index_ok_def by (metis order_less_le_trans)
  then have "{b. b < 256 \<and> new ! b \<noteq> None} = used_bytes ix"
    using new(2) by (auto simp: used_bytes_def)
  moreover have "new ! unat b = idx_get ix cs b" for b
    using new(2) [of "unat b"] used_unat [of b ix] by (simp add: idx_get_def)
  ultimately show ?thesis using new(1) assms(1) by (auto simp: direct_ok_def index_ok_def)
qed

section \<open>The children of a node as a map\<close>

lemma get_child_eqs:
  "get_child (Node4 p ks cs os ov c) = arr_get ks cs c"
  "get_child (Node16 p ks cs os ov c) = arr_get ks cs c"
  "get_child (Node48 p ix cs os ov c) = idx_get ix cs"
  "get_child (Node256 p cs os ov c) = (\<lambda>b. cs ! unat b)"
  by (auto simp: fun_eq_iff arr_get_def idx_get_def)

lemma insert_child_fields:
  "nd_prefix (insert_child b x n) = nd_prefix n \<and> nd_offsets (insert_child b x n) = nd_offsets n
    \<and> nd_overflow (insert_child b x n) = nd_overflow n"
  by (induction b x n rule: insert_child.induct)
    (simp_all add: grow_node4_to_node16_def grow_node16_to_node48_def grow_node48_to_node256_def)

lemma insert_child_slots:
  "slots_ok n \<Longrightarrow> get_child n b = None \<Longrightarrow>
    slots_ok (insert_child b x n) \<and> get_child (insert_child b x n) = (get_child n)(b \<mapsto> x)"
proof (induction b x n rule: insert_child.induct)
  case (1 b x p ks cs os ov c)
  show ?case
  proof (cases "c < NODE4_MAX")
    case True
    then show ?thesis using arr_insert [of 4 ks cs c b x] 1 by (simp add: get_child_eqs NODE4_MAX_def)
  next
    case False
    have "arr_ok 4 ks cs c" using 1 by simp
    from grow16 [OF this] show ?thesis
      using 1 False by (simp add: get_child_eqs grow_node4_to_node16_def)
  qed
next
  case (2 b x p ks cs os ov c)
  show ?case
  proof (cases "c < NODE16_MAX")
    case True
    then show ?thesis using arr_insert [of 16 ks cs c b x] 2 by (simp add: get_child_eqs NODE16_MAX_def)
  next
    case False
    have "arr_ok 16 ks cs c" using 2 by simp
    from grow48 [OF this _ order_refl] show ?thesis
      using 2 False by (simp add: get_child_eqs grow_node16_to_node48_def)
  qed
next
  case (3 b x p ix cs os ov c)
  show ?case
  proof (cases "c < NODE48_MAX")
    case True
    then show ?thesis using idx_insert [of ix cs c b x] 3 by (simp add: get_child_eqs NODE48_MAX_def)
  next
    case False
    have "index_ok ix cs c" using 3 by simp
    from grow256 [OF this] show ?thesis
      using 3 False by (simp add: get_child_eqs grow_node48_to_node256_def)
  qed
next
  case (4 b x p cs os ov c)
  then show ?case using direct_insert [of cs c b x] by (simp add: get_child_eqs)
qed

lemma set_child_fields:
  "nd_prefix (set_child b x n) = nd_prefix n \<and> nd_offsets (set_child b x n) = nd_offsets n
    \<and> nd_overflow (set_child b x n) = nd_overflow n \<and> nd_count (set_child b x n) = nd_count n"
  by (cases n) (auto simp: Let_def split: option.split)

lemma set_child_slots:
  assumes "slots_ok n" "get_child n b \<noteq> None"
  shows "slots_ok (set_child b x n) \<and> get_child (set_child b x n) = (get_child n)(b \<mapsto> x)"
proof (cases n)
  case (Node4 p ks cs os ov c)
  then obtain i where "find_slot ks c b = Some i" using assms(2) by (auto split: option.splits)
  then show ?thesis using arr_update [of 4 ks cs c b i x] assms(1) Node4 by (simp add: get_child_eqs)
next
  case (Node16 p ks cs os ov c)
  then obtain i where "find_slot ks c b = Some i" using assms(2) by (auto split: option.splits)
  then show ?thesis using arr_update [of 16 ks cs c b i x] assms(1) Node16 by (simp add: get_child_eqs)
next
  case (Node48 p ix cs os ov c)
  then have "ix ! unat b \<noteq> EMPTY_MARKER" using assms(2) by (auto simp: Let_def)
  then show ?thesis using idx_update [of ix cs c b x] assms(1) Node48 by (simp add: get_child_eqs)
next
  case (Node256 p cs os ov c)
  then show ?thesis using direct_update [of cs c b x] assms by (simp add: get_child_eqs)
qed

text \<open>
  The table of children as an interface: whatever the size of the node, its children are a finite map, and
  inserting and overwriting a child are the updates of that map.
\<close>

locale child_table =
  fixes get :: "'n \<Rightarrow> 'k \<Rightarrow> 'n option"
    and put :: "'k \<Rightarrow> 'n \<Rightarrow> 'n \<Rightarrow> 'n"
    and upd :: "'k \<Rightarrow> 'n \<Rightarrow> 'n \<Rightarrow> 'n"
    and ok :: "'n \<Rightarrow> bool"
  assumes put_law: "ok n \<Longrightarrow> get n k = None \<Longrightarrow> ok (put k c n) \<and> get (put k c n) = (get n)(k \<mapsto> c)"
    and upd_law: "ok n \<Longrightarrow> get n k \<noteq> None \<Longrightarrow> ok (upd k c n) \<and> get (upd k c n) = (get n)(k \<mapsto> c)"
begin

lemma put_all:
  "ok n \<Longrightarrow> distinct (map fst ps) \<Longrightarrow> (\<forall>k \<in> fst ` set ps. get n k = None) \<Longrightarrow>
    ok (fold (\<lambda>(k, c). put k c) ps n) \<and> get (fold (\<lambda>(k, c). put k c) ps n) = get n ++ map_of ps"
proof (induction ps arbitrary: n)
  case (Cons e ps)
  obtain k c where e: "e = (k, c)" by (cases e)
  have p: "ok (put k c n)" "get (put k c n) = (get n)(k \<mapsto> c)" using put_law [of n k c] Cons.prems e by auto
  have "\<forall>j \<in> fst ` set ps. get (put k c n) j = None" using p Cons.prems e by auto
  then have "ok (fold (\<lambda>(k, c). put k c) ps (put k c n))
      \<and> get (fold (\<lambda>(k, c). put k c) ps (put k c n)) = get (put k c n) ++ map_of ps"
    using Cons.IH p Cons.prems e by simp
  moreover have "(get n)(k \<mapsto> c) ++ map_of ps = get n ++ (map_of ps)(k \<mapsto> c)"
    using Cons.prems e by (auto simp: fun_eq_iff map_add_def map_of_eq_None_iff [THEN iffD2] split: option.split)
  moreover have "map_of (e # ps) = (map_of ps)(k \<mapsto> c)" using e by (simp add: fun_upd_def)
  ultimately show ?case using p e by (simp only: fold_simps prod.case)
qed simp

end

interpretation kids: child_table get_child insert_child set_child slots_ok
  by unfold_locales (fact insert_child_slots set_child_slots)+

end
