(* ===== verification/Art_Index.thy ===== *)
theory Art_Index
  imports Art_Node
begin

text \<open>
  The radix-tree index (\<^verbatim>\<open>akar-storage/src/art_index.rs\<close>). A panic is \<open>None\<close>: the only index that can be out
  of range is the byte of the key that \<^verbatim>\<open>split_node\<close> reads. The key buffer of \<^verbatim>\<open>collect_range\<close> is restored
  before every return, so it is an argument.
\<close>

section \<open>Walking the children\<close>

definition slot :: "'a option list \<Rightarrow> nat \<Rightarrow> 'a option" where
  "slot cs i = (if i < length cs then cs ! i else None)"

definition arr_pair :: "bytes \<Rightarrow> art_node option list \<Rightarrow> nat \<Rightarrow> (u8 \<times> art_node) option" where
  "arr_pair ks cs i = (case slot cs i of Some c \<Rightarrow> Some (ks ! i, c) | None \<Rightarrow> None)"

definition idx_pair :: "bytes \<Rightarrow> art_node option list \<Rightarrow> nat \<Rightarrow> (u8 \<times> art_node) option" where
  "idx_pair ix cs b =
     (let idx = ix ! b
      in if idx \<noteq> EMPTY_MARKER
         then (case slot cs (unat idx) of Some c \<Rightarrow> Some (word_of_nat b, c) | None \<Rightarrow> None)
         else None)"

definition direct_pair :: "art_node option list \<Rightarrow> nat \<Rightarrow> (u8 \<times> art_node) option" where
  "direct_pair cs b = (case slot cs b of Some c \<Rightarrow> Some (word_of_nat b, c) | None \<Rightarrow> None)"

text \<open>The pairs in the order in which serialization writes them.\<close>

fun child_pairs :: "art_node \<Rightarrow> (u8 \<times> art_node) list" where
  "child_pairs (Node4 p ks cs os ov c) = List.map_filter (arr_pair ks cs) [0..<c]"
| "child_pairs (Node16 p ks cs os ov c) = List.map_filter (arr_pair ks cs) [0..<c]"
| "child_pairs (Node48 p ix cs os ov c) = List.map_filter (idx_pair ix cs) [0..<256]"
| "child_pairs (Node256 p cs os ov c) = List.map_filter (direct_pair cs) [0..<256]"

text \<open>The pairs in byte order, as the range scan visits them.\<close>

fun ordered_pairs :: "art_node \<Rightarrow> (u8 \<times> art_node) list" where
  "ordered_pairs (Node4 p ks cs os ov c) = List.map_filter (arr_pair ks cs) (sort_key (\<lambda>i. ks ! i) [0..<c])"
| "ordered_pairs (Node16 p ks cs os ov c) = List.map_filter (arr_pair ks cs) (sort_key (\<lambda>i. ks ! i) [0..<c])"
| "ordered_pairs (Node48 p ix cs os ov c) = List.map_filter (idx_pair ix cs) [0..<256]"
| "ordered_pairs (Node256 p cs os ov c) = List.map_filter (direct_pair cs) [0..<256]"

text \<open>Collecting takes each child out of its slot.\<close>

fun take_pairs :: "bytes \<Rightarrow> nat list \<Rightarrow> art_node option list \<Rightarrow> (u8 \<times> art_node) list" where
  "take_pairs ix [] cs = []"
| "take_pairs ix (b # bs) cs =
     (case idx_pair ix cs b of
        Some p \<Rightarrow> p # take_pairs ix bs (cs[unat (ix ! b) := None])
      | None \<Rightarrow> take_pairs ix bs cs)"

fun collect_all_children :: "art_node \<Rightarrow> (u8 \<times> art_node) list" where
  "collect_all_children (Node4 p ks cs os ov c) = List.map_filter (arr_pair ks cs) [0..<c]"
| "collect_all_children (Node16 p ks cs os ov c) = List.map_filter (arr_pair ks cs) [0..<c]"
| "collect_all_children (Node48 p ix cs os ov c) = take_pairs ix [0..<256] cs"
| "collect_all_children (Node256 p cs os ov c) = List.map_filter (direct_pair cs) [0..<256]"

fun clear_all_children :: "art_node \<Rightarrow> art_node" where
  "clear_all_children (Node4 p ks cs os ov c) = Node4 p ks (map (\<lambda>_. None) cs) os ov 0"
| "clear_all_children (Node16 p ks cs os ov c) = Node16 p ks (map (\<lambda>_. None) cs) os ov 0"
| "clear_all_children (Node48 p ix cs os ov c) = Node48 p (replicate 256 EMPTY_MARKER) (map (\<lambda>_. None) cs) os ov 0"
| "clear_all_children (Node256 p cs os ov c) = Node256 p (map (\<lambda>_. None) cs) os ov 0"

definition clear_children_offsets :: "art_node \<Rightarrow> art_node" where
  "clear_children_offsets n = set_offsets [] [] n"

definition transfer_children_into :: "art_node \<Rightarrow> art_node \<Rightarrow> art_node \<times> art_node" where
  "transfer_children_into src dst =
     (let pairs = collect_all_children src; src' = clear_all_children src
      in (src', fold (\<lambda>(byte, child). insert_child byte child) pairs dst))"

section \<open>Insertion, deletion, lookup\<close>

definition common_prefix_len :: "bytes \<Rightarrow> bytes \<Rightarrow> nat \<Rightarrow> nat" where
  "common_prefix_len node_prefix key_bytes key_offset =
     length (takeWhile (\<lambda>(a, b). a = b) (zip node_prefix (drop key_offset key_bytes)))"

definition split_node :: "art_node \<Rightarrow> nat \<Rightarrow> nat \<Rightarrow> bytes \<Rightarrow> u64 \<Rightarrow> u64 \<Rightarrow> (art_node \<times> u64) option" where
  "split_node node common depth key_bytes row_offset num_entries =
     (let prefix = nd_prefix node;
          existing_byte = prefix ! common;
          existing_suffix = drop (common + 1) prefix;
          existing_child = set_prefix existing_suffix new_node4;
          (node, existing_child) = transfer_children_into node existing_child;
          old_offsets = all_offsets node;
          existing_child = fold add_offset old_offsets existing_child;
          node = clear_children_offsets node;
          new_leaf = add_offset row_offset new_node4;
          new_leaf = (if depth + common + 1 < length key_bytes
                      then set_prefix (drop (depth + common + 1) key_bytes) new_leaf else new_leaf);
          node = set_prefix (take common prefix) node;
          node = clear_all_children node
      in if depth + common < length key_bytes
         then (let new_byte = key_bytes ! (depth + common);
                   node = insert_child existing_byte existing_child node;
                   node = insert_child new_byte new_leaf node
               in Some (node, num_entries + 1))
         else None)"

function insert_internal :: "art_node \<Rightarrow> bytes \<Rightarrow> nat \<Rightarrow> u64 \<Rightarrow> u64 \<Rightarrow> (art_node \<times> u64) option" where
  "insert_internal node key depth row_offset num_entries =
     (let prefix = nd_prefix node; common = common_prefix_len prefix key depth in
      if common < length prefix then split_node node common depth key row_offset num_entries
      else let new_depth = depth + length prefix in
           if new_depth \<ge> length key then Some (add_offset row_offset node, num_entries + 1)
           else let byte = key ! new_depth in
                case get_child node byte of
                  None \<Rightarrow>
                    (let leaf = set_prefix (drop (new_depth + 1) key) (add_offset row_offset new_node4)
                     in Some (insert_child byte leaf node, num_entries + 1))
                | Some child \<Rightarrow>
                    (case insert_internal child key (new_depth + 1) row_offset num_entries of
                       None \<Rightarrow> None
                     | Some (child', n) \<Rightarrow> Some (set_child byte child' node, n)))"
  by pat_completeness auto
termination
  by (relation "measure (\<lambda>(_, key, depth, _). length key - depth)") auto

function erase_internal :: "art_node \<Rightarrow> bytes \<Rightarrow> nat \<Rightarrow> u64 \<Rightarrow> bool \<times> art_node" where
  "erase_internal node key depth row_offset =
     (let prefix = nd_prefix node in
      if depth + length prefix > length key \<or> slice depth (depth + length prefix) key \<noteq> prefix then (False, node)
      else let new_depth = depth + length prefix in
           if new_depth \<ge> length key then remove_offset row_offset node
           else let byte = key ! new_depth in
                case get_child node byte of
                  Some child \<Rightarrow>
                    (let (found, child') = erase_internal child key (new_depth + 1) row_offset
                     in (found, set_child byte child' node))
                | None \<Rightarrow> (False, node))"
  by pat_completeness auto
termination
  by (relation "measure (\<lambda>(_, key, depth, _). length key - depth)") auto

function lookup_loop :: "art_node \<Rightarrow> bytes \<Rightarrow> nat \<Rightarrow> u64 option" where
  "lookup_loop current key_bytes depth =
     (let prefix = nd_prefix current in
      if depth + length prefix > length key_bytes \<or> slice depth (depth + length prefix) key_bytes \<noteq> prefix then None
      else let depth = depth + length prefix in
           if depth \<ge> length key_bytes
           then (case all_offsets current of [] \<Rightarrow> None | off # _ \<Rightarrow> Some off)
           else case get_child current (key_bytes ! depth) of
                  None \<Rightarrow> None
                | Some child \<Rightarrow> lookup_loop child key_bytes (depth + 1))"
  by pat_completeness auto
termination
  by (relation "measure (\<lambda>(_, key, depth). length key - depth)") auto

section \<open>Range scans\<close>

fun sat_lower :: "bytes \<Rightarrow> bytes \<Rightarrow> bool \<Rightarrow> bool" where
  "sat_lower (x # xs) (y # ys) inclusive = (if x < y then False else if x > y then True else sat_lower xs ys inclusive)"
| "sat_lower [] (y # ys) inclusive = False"
| "sat_lower (x # xs) [] inclusive = True"
| "sat_lower [] [] inclusive = inclusive"

definition satisfies_lower_bound :: "bytes \<Rightarrow> bytes option \<Rightarrow> bool \<Rightarrow> bool" where
  "satisfies_lower_bound key lower inclusive =
     (case lower of None \<Rightarrow> True | Some lower_bytes \<Rightarrow> sat_lower key lower_bytes inclusive)"

fun sat_upper :: "bytes \<Rightarrow> bytes \<Rightarrow> bool \<Rightarrow> bool" where
  "sat_upper (x # xs) (y # ys) inclusive = (if x > y then False else if x < y then True else sat_upper xs ys inclusive)"
| "sat_upper (x # xs) [] inclusive = False"
| "sat_upper [] (y # ys) inclusive = True"
| "sat_upper [] [] inclusive = inclusive"

definition satisfies_upper_bound :: "bytes \<Rightarrow> bytes option \<Rightarrow> bool \<Rightarrow> bool" where
  "satisfies_upper_bound key upper inclusive =
     (case upper of None \<Rightarrow> True | Some upper_bytes \<Rightarrow> sat_upper key upper_bytes inclusive)"

fun push_offsets :: "nat \<Rightarrow> u64 list \<Rightarrow> u64 list \<Rightarrow> u64 list" where
  "push_offsets max_results [] results = results"
| "push_offsets max_results (off # offs) results =
     (if length results \<ge> max_results then results else push_offsets max_results offs (results @ [off]))"

text \<open>The loop over the children, with the recursive call as an argument.\<close>

fun visit_children :: "(art_node \<Rightarrow> bytes \<Rightarrow> u64 list \<Rightarrow> u64 list) \<Rightarrow> bytes \<Rightarrow> bytes option \<Rightarrow> bool \<Rightarrow> nat
    \<Rightarrow> (u8 \<times> art_node) list \<Rightarrow> u64 list \<Rightarrow> u64 list" where
  "visit_children rec key upper upper_inclusive max_results [] results = results"
| "visit_children rec key upper upper_inclusive max_results ((byte, child) # ps) results =
     (let key' = key @ [byte];
          results = (if satisfies_upper_bound key' upper upper_inclusive then rec child key' results else results)
      in if length results \<ge> max_results then results
         else visit_children rec key upper upper_inclusive max_results ps results)"

lemma visit_children_cong [fundef_cong]:
  assumes "ps = qs" "\<And>b c k r. (b, c) \<in> set qs \<Longrightarrow> f c k r = g c k r"
  shows "visit_children f key u ui mx ps results = visit_children g key u ui mx qs results"
  unfolding assms(1) using assms(2)
proof (induction qs arbitrary: results)
  case (Cons p qs)
  obtain b c where p: "p = (b, c)" by (cases p)
  have "f c k r = g c k r" for k r using Cons.prems [of b c] p by simp
  moreover have "visit_children f key u ui mx qs r = visit_children g key u ui mx qs r" for r
    by (rule Cons.IH, rule Cons.prems) (rule list.set_intros(2))
  ultimately show ?case using p by (simp add: Let_def)
qed simp

lemma child_size: "Some c \<in> set (nd_children n) \<Longrightarrow> size c < size n"
  by (cases n) (auto dest: size_list_estimation' [where f = "size_option size", OF _ order_refl] simp: less_Suc_eq_le)

lemma slot_mem: "slot cs i = Some c \<Longrightarrow> Some c \<in> set cs"
  by (auto simp: slot_def split: if_splits) (metis nth_mem)

lemma child_pairs_mem: "(b, c) \<in> set (child_pairs n) \<Longrightarrow> Some c \<in> set (nd_children n)"
  by (cases n) (auto simp: List.map_filter_def arr_pair_def idx_pair_def direct_pair_def Let_def
      split: option.splits if_splits dest: slot_mem)

lemma ordered_pairs_mem: "(b, c) \<in> set (ordered_pairs n) \<Longrightarrow> Some c \<in> set (nd_children n)"
  by (cases n) (auto simp: List.map_filter_def arr_pair_def idx_pair_def direct_pair_def Let_def
      split: option.splits if_splits dest: slot_mem)

lemma pairs_size [termination_simp]:
  "(b, c) \<in> set (child_pairs n) \<Longrightarrow> size c < size n"
  "(b, c) \<in> set (ordered_pairs n) \<Longrightarrow> size c < size n"
  by (auto dest: child_pairs_mem ordered_pairs_mem child_size)

fun collect_range :: "art_node \<Rightarrow> bytes \<Rightarrow> bytes option \<Rightarrow> bool \<Rightarrow> bytes option \<Rightarrow> bool \<Rightarrow> nat \<Rightarrow> u64 list \<Rightarrow> u64 list" where
  "collect_range node key lower li upper ui max_results results =
     (let key = key @ nd_prefix node in
      if length results \<ge> max_results then results
      else let results = (if has_offsets node \<and> satisfies_lower_bound key lower li \<and> satisfies_upper_bound key upper ui
                          then push_offsets max_results (all_offsets node) results else results)
           in if length results \<ge> max_results then results
              else visit_children (\<lambda>child key results. collect_range child key lower li upper ui max_results results)
                     key upper ui max_results (ordered_pairs node) results)"

section \<open>The index\<close>

record art_index =
  root :: art_node
  node_blocks :: "node_block list"
  num_allocated_nodes :: u64
  num_nodes_by_kind :: "u64 list"
  file_name :: string
  page_count :: u64
  dirty :: bool
  num_entries :: u64

definition INITIAL_PAGE_COUNT :: u64 where
  "INITIAL_PAGE_COUNT = 4"

definition art_new :: "string \<Rightarrow> art_index" where
  "art_new name = \<lparr>root = new_node4, node_blocks = [], num_allocated_nodes = 1, num_nodes_by_kind = [1, 0, 0, 0],
     file_name = name, page_count = INITIAL_PAGE_COUNT, dirty = False, num_entries = 0\<rparr>"

definition art_is_empty :: "art_index \<Rightarrow> bool" where
  "art_is_empty idx = (num_entries idx = 0)"

definition mark_dirty :: "art_index \<Rightarrow> art_index" where
  "mark_dirty idx = idx\<lparr>dirty := True\<rparr>"

definition art_insert :: "bytes \<Rightarrow> u64 \<Rightarrow> art_index \<Rightarrow> art_index option" where
  "art_insert key row_offset idx =
     (if key = [] then Some idx
      else case insert_internal (root idx) key 0 row_offset (num_entries idx) of
             None \<Rightarrow> None
           | Some (r, n) \<Rightarrow> Some (idx\<lparr>root := r, num_entries := n, dirty := True\<rparr>))"

definition art_lookup :: "bytes \<Rightarrow> art_index \<Rightarrow> u64 option" where
  "art_lookup key idx = (if key = [] then None else lookup_loop (root idx) key 0)"

definition saturating_sub :: "u64 \<Rightarrow> u64 \<Rightarrow> u64" where
  "saturating_sub a b = (if b \<le> a then a - b else 0)"

definition art_delete :: "bytes \<Rightarrow> u64 \<Rightarrow> art_index \<Rightarrow> art_index" where
  "art_delete key row_offset idx =
     (if key = [] then idx
      else let (removed, r) = erase_internal (root idx) key 0 row_offset;
               n = (if removed then saturating_sub (num_entries idx) 1 else num_entries idx)
           in idx\<lparr>root := r, num_entries := n, dirty := True\<rparr>)"

definition range_scan :: "bytes option \<Rightarrow> bool \<Rightarrow> bytes option \<Rightarrow> bool \<Rightarrow> u64 \<Rightarrow> art_index \<Rightarrow> u64 list" where
  "range_scan lower li upper ui max_results idx = collect_range (root idx) [] lower li upper ui (unat max_results) []"

definition art_clear :: "art_index \<Rightarrow> art_index" where
  "art_clear idx = idx\<lparr>node_blocks := [], root := new_node4, num_allocated_nodes := 1,
     num_nodes_by_kind := [1, 0, 0, 0], num_entries := 0, dirty := True\<rparr>"

declare insert_internal.simps [simp del] erase_internal.simps [simp del] lookup_loop.simps [simp del]
  collect_range.simps [simp del]

end
