(* ===== verification/Art_Refine.thy ===== *)
theory Art_Refine
  imports Art_Index
begin

text \<open>
  The radix tree refines a map from keys to lists of offsets: \<open>find_all\<close> reads the list under a key and
  \<open>node_at\<close> says at which paths a node ends. Lookup, insertion (with the splitting of compressed paths) and
  deletion are related to updates of that map, under the invariant \<open>art_ok\<close>.
\<close>

section \<open>The pairs of a node are its children\<close>

lemma map_filter_all: "(\<And>x. x \<in> set xs \<Longrightarrow> f x = Some (g x)) \<Longrightarrow> List.map_filter f xs = map g xs"
  by (induction xs) (auto simp: List.map_filter_simps)

lemma arr_pairs:
  assumes ok: "arr_ok cap ks cs c" and "distinct is" "set is = {0..<c}"
  defines "ps \<equiv> List.map_filter (arr_pair ks cs) is"
  shows "map fst ps = map ((!) ks) is \<and> distinct (map fst ps) \<and> map_of ps = arr_get ks cs c"
proof -
  have "arr_pair ks cs i = Some (ks ! i, the (cs ! i))" if "i \<in> set is" for i
  proof -
    have "i < c" "c \<le> length cs" using that assms(3) ok by (auto simp: arr_ok_def)
    moreover have "cs ! i \<noteq> None" using calculation ok by (simp add: arr_ok_def)
    ultimately show ?thesis by (auto simp: arr_pair_def slot_def)
  qed
  then have ps: "ps = map (\<lambda>i. (ks ! i, the (cs ! i))) is"
    unfolding ps_def by (rule map_filter_all)
  then have fst: "map fst ps = map ((!) ks) is" by simp
  have "inj_on ((!) ks) {0..<c}"
    using ok by (auto simp: arr_ok_def inj_on_def) (metis length_take min.absorb2 nth_eq_iff_index_eq nth_take)
  then have d: "distinct (map fst ps)" using assms(2,3) fst by (simp add: distinct_map)
  have "map_of ps b = Some x \<longleftrightarrow> arr_get ks cs c b = Some x" for b x
  proof -
    have "cs ! i = Some (the (cs ! i))" if "i < c" for i using that ok by (auto simp: arr_ok_def)
    then show ?thesis
      unfolding map_of_eq_Some_iff [OF d] arr_get_iff [OF ok] using assms(3) by (auto simp: ps)
  qed
  then show ?thesis using fst d by (intro conjI map_eqI)
qed

lemma byte_pairs:
  fixes f :: "u8 \<Rightarrow> 'a option"
  defines "ps \<equiv> List.map_filter (\<lambda>n. map_option (Pair (word_of_nat n)) (f (word_of_nat n))) [0..<256]"
  shows "sorted_wrt (<) (map fst ps) \<and> map_of ps = f"
proof -
  have fst: "map fst ps = filter (\<lambda>b. f b \<noteq> None) (map word_of_nat [0..<256])"
    unfolding ps_def List.map_filter_def by (simp add: filter_map o_def) (auto intro!: map_cong filter_cong)
  have "sorted_wrt (<) (map (word_of_nat :: nat \<Rightarrow> u8) [0..<256])"
    unfolding sorted_wrt_map
    by (rule sorted_wrt_mono_rel [OF _ sorted_wrt_upt]) (auto simp: word_less_nat_alt unat_byte_nth)
  then have s: "sorted_wrt (<) (map fst ps)" unfolding fst by (rule sorted_wrt_filter)
  then have d: "distinct (map fst ps)" by (simp add: strict_sorted_iff)
  have "(b, x) \<in> set ps \<longleftrightarrow> f b = Some x" for b x
  proof
    assume "f b = Some x"
    then have "map_option (Pair (word_of_nat (unat b))) (f (word_of_nat (unat b))) = Some (b, x)" by simp
    then show "(b, x) \<in> set ps"
      unfolding ps_def List.map_filter_def by (auto intro!: image_eqI [of _ _ "unat b"] simp: unat_byte)
  qed (auto simp: ps_def List.map_filter_def)
  then have "map_of ps b = Some x \<longleftrightarrow> f b = Some x" for b x unfolding map_of_eq_Some_iff [OF d] .
  then show ?thesis using s by (intro conjI map_eqI)
qed

lemma idx_pair_get:
  "index_ok ix cs c \<Longrightarrow> n < 256 \<Longrightarrow> idx_pair ix cs n = map_option (Pair (word_of_nat n)) (idx_get ix cs (word_of_nat n))"
  by (auto simp: idx_pair_def idx_get_def Let_def unat_byte_nth slot_def index_ok_def used_bytes_def split: option.splits)

lemma direct_pair_get:
  "direct_ok cs c \<Longrightarrow> n < 256 \<Longrightarrow> direct_pair cs n = map_option (Pair (word_of_nat n)) (cs ! unat (word_of_nat n :: u8))"
  by (auto simp: direct_pair_def slot_def direct_ok_def unat_byte_nth split: option.splits)

lemma map_filter_cong': "(\<And>x. x \<in> set xs \<Longrightarrow> f x = g x) \<Longrightarrow> List.map_filter f xs = List.map_filter g xs"
  by (induction xs) (auto simp: List.map_filter_simps split: option.split)

lemma idx_pairs:
  assumes "index_ok ix cs c"
  shows "sorted_wrt (<) (map fst (List.map_filter (idx_pair ix cs) [0..<256]))
    \<and> map_of (List.map_filter (idx_pair ix cs) [0..<256]) = idx_get ix cs"
  using byte_pairs [of "idx_get ix cs"] map_filter_cong' [OF idx_pair_get [OF assms], of "[0..<256]"] by simp

lemma direct_pairs:
  assumes "direct_ok cs c"
  shows "sorted_wrt (<) (map fst (List.map_filter (direct_pair cs) [0..<256]))
    \<and> map_of (List.map_filter (direct_pair cs) [0..<256]) = (\<lambda>b. cs ! unat b)"
  using byte_pairs [of "\<lambda>b. cs ! unat b"] map_filter_cong' [OF direct_pair_get [OF assms], of "[0..<256]"] by simp

lemma child_pairs_ok:
  assumes "slots_ok n"
  shows "distinct (map fst (child_pairs n)) \<and> map_of (child_pairs n) = get_child n"
proof (cases n)
  case (Node4 p ks cs os ov c)
  then show ?thesis using arr_pairs [of 4 ks cs c "[0..<c]"] assms by (auto simp: get_child_eqs)
next
  case (Node16 p ks cs os ov c)
  then show ?thesis using arr_pairs [of 16 ks cs c "[0..<c]"] assms by (auto simp: get_child_eqs)
next
  case (Node48 p ix cs os ov c)
  then show ?thesis using idx_pairs [of ix cs c] assms by (simp add: get_child_eqs strict_sorted_iff)
next
  case (Node256 p cs os ov c)
  then show ?thesis using direct_pairs [of cs c] assms by (simp add: get_child_eqs strict_sorted_iff)
qed

lemma sorted_keys:
  "arr_ok cap ks cs c \<Longrightarrow> sorted_wrt (<) (map fst (List.map_filter (arr_pair ks cs) (sort_key (\<lambda>i. ks ! i) [0..<c])))
    \<and> map_of (List.map_filter (arr_pair ks cs) (sort_key (\<lambda>i. ks ! i) [0..<c])) = arr_get ks cs c"
  using arr_pairs [of cap ks cs c "sort_key (\<lambda>i. ks ! i) [0..<c]"] sorted_sort_key [of "\<lambda>i. ks ! i" "[0..<c]"]
  by (auto simp: strict_sorted_iff)

lemma ordered_pairs_ok:
  assumes "slots_ok n"
  shows "sorted_wrt (<) (map fst (ordered_pairs n)) \<and> map_of (ordered_pairs n) = get_child n"
proof (cases n)
  case (Node4 p ks cs os ov c)
  then show ?thesis using sorted_keys [of 4 ks cs c] assms by (simp add: get_child_eqs)
next
  case (Node16 p ks cs os ov c)
  then show ?thesis using sorted_keys [of 16 ks cs c] assms by (simp add: get_child_eqs)
next
  case (Node48 p ix cs os ov c)
  then show ?thesis using idx_pairs [of ix cs c] assms by (simp add: get_child_eqs)
next
  case (Node256 p cs os ov c)
  then show ?thesis using direct_pairs [of cs c] assms by (simp add: get_child_eqs)
qed

lemma take_pairs_eq:
  assumes "index_ok ix cs c" "distinct bs" "set bs \<subseteq> {0..<256}"
    and "\<forall>b \<in> set bs \<inter> used_bytes ix. slot cs' (unat (ix ! b)) = slot cs (unat (ix ! b))"
  shows "take_pairs ix bs cs' = List.map_filter (idx_pair ix cs) bs"
  using assms(2-4)
proof (induction bs arbitrary: cs')
  case (Cons b bs)
  have same: "idx_pair ix cs' b = idx_pair ix cs b" using Cons.prems by (auto simp: idx_pair_def used_bytes_def Let_def)
  have "take_pairs ix bs (cs'[unat (ix ! b) := None]) = List.map_filter (idx_pair ix cs) bs" if u: "b \<in> used_bytes ix"
  proof (rule Cons.IH)
    show "\<forall>a \<in> set bs \<inter> used_bytes ix. slot (cs'[unat (ix ! b) := None]) (unat (ix ! a)) = slot cs (unat (ix ! a))"
    proof
      fix a assume a: "a \<in> set bs \<inter> used_bytes ix"
      then have "a \<noteq> b" using Cons.prems by auto
      then have "ix ! a \<noteq> ix ! b" using assms(1) a u by (auto simp: index_ok_def dest: inj_onD)
      then have "unat (ix ! a) \<noteq> unat (ix ! b)" by (metis byte_of_unat)
      then show "slot (cs'[unat (ix ! b) := None]) (unat (ix ! a)) = slot cs (unat (ix ! a))"
        using bspec [OF Cons.prems(3), of a] a by (simp add: slot_def split: if_splits)
    qed
  qed (use Cons.prems in auto)
  moreover have "b \<in> used_bytes ix" if "idx_pair ix cs b \<noteq> None"
    using that Cons.prems by (auto simp: idx_pair_def used_bytes_def Let_def split: if_splits)
  ultimately show ?case
    using same Cons by (auto simp: List.map_filter_simps split: option.splits)
qed (simp add: List.map_filter_simps)

lemma collect_pairs: "slots_ok n \<Longrightarrow> collect_all_children n = child_pairs n"
proof (cases n)
  case (Node48 p ix cs os ov c)
  moreover assume "slots_ok n"
  ultimately show ?thesis using take_pairs_eq [of ix cs c "[0..<256]" cs] by auto
qed simp_all

lemma used_empty [simp]: "used_bytes (replicate 256 EMPTY_MARKER) = {}"
  by (simp add: used_bytes_def)

lemma clear_children: "slots_ok n \<Longrightarrow> slots_ok (clear_all_children n) \<and> get_child (clear_all_children n) = (\<lambda>_. None)"
  by (cases n)
    (auto simp: arr_ok_def index_ok_def direct_ok_def used_empty find_slot_def fun_eq_iff unat_byte)

lemma node_fields [simp]:
  "nd_prefix (set_prefix p n) = p" "nd_offsets (set_prefix p n) = nd_offsets n" "nd_overflow (set_prefix p n) = nd_overflow n"
  "nd_prefix (set_offsets os ov n) = nd_prefix n" "nd_offsets (set_offsets os ov n) = os" "nd_overflow (set_offsets os ov n) = ov"
  "get_child (set_prefix p n) = get_child n" "get_child (set_offsets os ov n) = get_child n"
  "slots_ok (set_prefix p n) = slots_ok n" "slots_ok (set_offsets os ov n) = slots_ok n"
  "nd_prefix (clear_all_children n) = nd_prefix n" "nd_offsets (clear_all_children n) = nd_offsets n"
  "nd_overflow (clear_all_children n) = nd_overflow n"
  by (cases n; simp add: fun_eq_iff)+

lemma new_node4_ok [simp]:
  "slots_ok new_node4" "get_child new_node4 = (\<lambda>_. None)" "nd_prefix new_node4 = []" "nd_offsets new_node4 = []"
  "nd_overflow new_node4 = []"
  by (auto simp: new_node4_def arr_ok_def find_slot_def fun_eq_iff nth_Cons' numeral_eq_Suc)

lemma unat_image: "unat ` {b :: u8. P (unat b)} = {n. n < 256 \<and> P n}"
proof
  show "{n. n < 256 \<and> P n} \<subseteq> unat ` {b :: u8. P (unat b)}"
  proof
    fix n assume "n \<in> {n. n < 256 \<and> P n}"
    then have "unat (word_of_nat n :: u8) = n" "P n" by (simp_all add: unat_byte_nth)
    then show "n \<in> unat ` {b :: u8. P (unat b)}" by (intro image_eqI [of _ _ "word_of_nat n"]) simp_all
  qed
qed (auto simp: unat_byte)

lemma card_bytes: "card {b :: u8. P (unat b)} = card {n. n < 256 \<and> P n}"
  unfolding unat_image [symmetric] by (rule card_image [symmetric], rule inj_onI) (metis byte_of_unat)

lemma count_card:
  assumes "slots_ok n"
  shows "nd_count n = card (dom (get_child n))"
proof (cases n)
  case (Node4 p ks cs os ov c)
  then have "dom (get_child n) = set (take c ks)"
    using arr_get_None [of 4 ks cs c] assms by (simp add: get_child_eqs dom_def)
  then show ?thesis using assms Node4 by (simp add: arr_ok_def distinct_card)
next
  case (Node16 p ks cs os ov c)
  then have "dom (get_child n) = set (take c ks)"
    using arr_get_None [of 16 ks cs c] assms by (simp add: get_child_eqs dom_def)
  then show ?thesis using assms Node16 by (simp add: arr_ok_def distinct_card)
next
  case (Node48 p ix cs os ov c)
  then have "dom (get_child n) = {b. ix ! unat b \<noteq> EMPTY_MARKER}"
    using idx_get_None [of ix cs c] assms by (simp add: get_child_eqs dom_def)
  then show ?thesis using assms Node48 card_bytes [of "\<lambda>b. ix ! b \<noteq> EMPTY_MARKER"] by (simp add: index_ok_def used_bytes_def)
next
  case (Node256 p cs os ov c)
  then have "dom (get_child n) = {b. cs ! unat b \<noteq> None}" by (simp add: get_child_eqs dom_def)
  then show ?thesis using assms Node256 card_bytes [of "\<lambda>b. cs ! b \<noteq> None"] by (simp add: direct_ok_def)
qed

section \<open>The tree as a map from keys to offsets\<close>

definition strip :: "bytes \<Rightarrow> bytes \<Rightarrow> bytes option" where
  "strip p k = (if take (length p) k = p then Some (drop (length p) k) else None)"

lemma strip_Some: "strip p k = Some r \<longleftrightarrow> k = p @ r"
  by (auto simp: strip_def) (metis append_take_drop_id)

lemma strip_append [simp]: "strip p (p @ r) = Some r"
  by (simp add: strip_def)

lemma strip_self [simp]: "strip p p = Some []"
  by (simp add: strip_def)

lemma strip_None: "strip p k = None \<longleftrightarrow> (\<forall>r. k \<noteq> p @ r)"
  by (metis not_Some_eq strip_Some)

text \<open>The offsets stored under a key, and whether a node ends exactly at a path.\<close>

function find_all :: "art_node \<Rightarrow> bytes \<Rightarrow> u64 list" where
  "find_all n k =
     (case strip (nd_prefix n) k of
        None \<Rightarrow> []
      | Some [] \<Rightarrow> all_offsets n
      | Some (b # r) \<Rightarrow> (case get_child n b of None \<Rightarrow> [] | Some c \<Rightarrow> find_all c r))"
  by pat_completeness auto
termination
  by (relation "measure (\<lambda>(_, k). length k)") (auto simp: strip_Some)

function node_at :: "art_node \<Rightarrow> bytes \<Rightarrow> bool" where
  "node_at n k =
     (case strip (nd_prefix n) k of
        None \<Rightarrow> False
      | Some [] \<Rightarrow> True
      | Some (b # r) \<Rightarrow> (case get_child n b of None \<Rightarrow> False | Some c \<Rightarrow> node_at c r))"
  by pat_completeness auto
termination
  by (relation "measure (\<lambda>(_, k). length k)") (auto simp: strip_Some)

declare find_all.simps [simp del] node_at.simps [simp del]

lemma find_all_prefix:
  "find_all n (nd_prefix n) = all_offsets n"
  "find_all n (nd_prefix n @ b # r) = (case get_child n b of None \<Rightarrow> [] | Some c \<Rightarrow> find_all c r)"
  using strip_append [of "nd_prefix n" "[]"] by (simp_all add: find_all.simps)

lemma node_at_prefix:
  "node_at n (nd_prefix n)"
  "node_at n (nd_prefix n @ b # r) = (case get_child n b of None \<Rightarrow> False | Some c \<Rightarrow> node_at c r)"
  using strip_append [of "nd_prefix n" "[]"] by (simp_all add: node_at.simps)

lemma node_at_eqI: "nd_prefix n' = nd_prefix n \<Longrightarrow> get_child n' = get_child n \<Longrightarrow> node_at n' = node_at n"
  by (rule ext) (simp add: node_at.simps [of n'] node_at.simps [of n] split: option.split list.split)

text \<open>The invariant of a tree: every node is in order.\<close>

inductive art_ok :: "art_node \<Rightarrow> bool" where
  art_okI: "node_ok n \<Longrightarrow> (\<And>b c. get_child n b = Some c \<Longrightarrow> art_ok c) \<Longrightarrow> art_ok n"

inductive_cases art_okE: "art_ok n"

lemma art_ok_iff: "art_ok n \<longleftrightarrow> node_ok n \<and> (\<forall>b c. get_child n b = Some c \<longrightarrow> art_ok c)"
  by (blast intro: art_okI elim: art_okE)

text \<open>A path that ends inside a compressed path.\<close>

definition inside :: "art_node \<Rightarrow> bytes \<Rightarrow> bool" where
  "inside n k \<longleftrightarrow> \<not> node_at n k \<and> (\<exists>s. node_at n (k @ s))"

lemma inside_child:
  assumes "get_child n b = Some c"
  shows "inside n (nd_prefix n @ b # r) \<longleftrightarrow> inside c r"
  using assms by (simp add: inside_def node_at_prefix)

lemma inside_no_child: "get_child n b = None \<Longrightarrow> \<not> inside n (nd_prefix n @ b # r)"
  by (simp add: inside_def node_at_prefix)

subsection \<open>Offsets\<close>

lemma add_offset_fields [simp]:
  "nd_prefix (add_offset off n) = nd_prefix n" "get_child (add_offset off n) = get_child n"
  "slots_ok (add_offset off n) = slots_ok n"
  by (simp_all add: add_offset_def)

lemma add_offset_all: "node_ok n \<Longrightarrow> node_ok (add_offset off n) \<and> all_offsets (add_offset off n) = all_offsets n @ [off]"
  by (auto simp: add_offset_def node_ok_def offs_ok_def all_offsets_def)

lemma add_offsets:
  "node_ok n \<Longrightarrow> node_ok (fold add_offset os n) \<and> all_offsets (fold add_offset os n) = all_offsets n @ os
    \<and> nd_prefix (fold add_offset os n) = nd_prefix n \<and> get_child (fold add_offset os n) = get_child n"
  by (induction os arbitrary: n) (simp_all add: add_offset_all)

lemma remove_offset_all:
  assumes "node_ok n" "remove_offset off n = (found, n')"
  shows "node_ok n' \<and> all_offsets n' = remove1 off (all_offsets n) \<and> (found \<longleftrightarrow> off \<in> set (all_offsets n))
    \<and> nd_prefix n' = nd_prefix n \<and> get_child n' = get_child n"
proof -
  consider "nd_offsets n = []" "nd_overflow n = []" | o1 where "nd_offsets n = [o1]"
    using assms(1) by (cases "nd_offsets n") (auto simp: node_ok_def offs_ok_def)
  then show ?thesis
    using assms by cases (auto simp: remove_offset_def node_ok_def offs_ok_def all_offsets_def Let_def
      remove1_append remove1_idem split: if_splits list.splits)
qed

lemma new_leaf:
  "art_ok (set_prefix r (add_offset off new_node4))"
  "find_all (set_prefix r (add_offset off new_node4)) k = (if k = r then [off] else [])"
  "node_at (set_prefix r (add_offset off new_node4)) k \<longleftrightarrow> k = r"
proof -
  let ?l = "set_prefix r (add_offset off new_node4)"
  have n4: "node_ok new_node4" by (simp add: node_ok_def offs_ok_def)
  have l: "node_ok ?l" "all_offsets ?l = [off]"
    using add_offset_all [OF n4, of off] by (auto simp: node_ok_def all_offsets_def)
  then show "art_ok ?l" by (auto intro: art_okI)
  show "find_all ?l k = (if k = r then [off] else [])"
    using l by (auto simp: find_all.simps strip_Some strip_None split: option.split list.split)
  show "node_at ?l k \<longleftrightarrow> k = r"
    by (auto simp: node_at.simps strip_Some strip_None split: option.split list.split)
qed

subsection \<open>Updating one child\<close>

text \<open>Replacing or adding the child for a byte changes the map below that byte only.\<close>

definition below :: "art_node \<Rightarrow> u8 \<Rightarrow> bytes \<Rightarrow> u64 list" where
  "below n b r = (case get_child n b of None \<Rightarrow> [] | Some c \<Rightarrow> find_all c r)"

lemma find_all_below: "find_all n (nd_prefix n @ b # r) = below n b r"
  by (simp add: find_all_prefix below_def)

lemma find_all_eqI:
  assumes "nd_prefix n' = nd_prefix n" "all_offsets n' = all_offsets n" "\<And>b r. below n' b r = below n b r"
  shows "find_all n' = find_all n"
proof
  fix k
  show "find_all n' k = find_all n k"
    using assms by (auto simp: find_all.simps [of n' k] find_all.simps [of n k] below_def split: option.split list.split)
qed

lemma find_all_upd:
  assumes "nd_prefix n' = nd_prefix n" "all_offsets n' = all_offsets n" "get_child n' = (get_child n)(b \<mapsto> c')"
    and "find_all c' = (below n b)(r := X)"
  shows "find_all n' = (find_all n)(nd_prefix n @ b # r := X)"
proof
  fix k
  show "find_all n' k = ((find_all n)(nd_prefix n @ b # r := X)) k"
  proof (cases "strip (nd_prefix n) k")
    case None
    then show ?thesis using assms(1) by (auto simp: find_all.simps)
  next
    case (Some q)
    then have k: "k = nd_prefix n @ q" by (simp add: strip_Some)
    show ?thesis
    proof (cases q)
      case Nil
      then show ?thesis using k assms(1,2) find_all_prefix(1) [of n] find_all_prefix(1) [of n'] by simp
    next
      case (Cons b' r')
      have "find_all n' k = below n' b' r'" using k Cons assms(1) find_all_below [of n'] by simp
      moreover have "find_all n k = below n b' r'" using k Cons find_all_below [of n] by simp
      ultimately show ?thesis using k Cons assms(3,4) by (auto simp: below_def)
    qed
  qed
qed

lemma node_at_upd:
  assumes "nd_prefix n' = nd_prefix n" "get_child n' = (get_child n)(b \<mapsto> c')" "node_at n' q"
  shows "node_at n q \<or> (\<exists>r. q = nd_prefix n @ b # r \<and> node_at c' r)"
proof (cases "strip (nd_prefix n) q")
  case None
  then show ?thesis using assms(1,3) by (simp add: node_at.simps)
next
  case (Some s)
  then have q: "q = nd_prefix n @ s" by (simp add: strip_Some)
  show ?thesis
  proof (cases s)
    case Nil
    then show ?thesis using q node_at_prefix(1) by simp
  next
    case (Cons b' r')
    then show ?thesis
      using q assms node_at_prefix(2) [of n' b' r'] node_at_prefix(2) [of n b' r'] by (auto split: if_splits)
  qed
qed

lemma art_ok_upd:
  assumes "art_ok n" "art_ok c'" "get_child n' = (get_child n)(b \<mapsto> c')" "node_ok n'"
  shows "art_ok n'"
  using assms by (auto simp: art_ok_iff [of n] art_ok_iff [of n'])

subsection \<open>Splitting a compressed path\<close>

lemma common_split:
  fixes p :: bytes
  assumes "depth \<le> length key"
  defines "k \<equiv> drop depth key" and "c \<equiv> common_prefix_len p key depth"
  shows "c \<le> length p \<and> c \<le> length k \<and> take c p = take c k \<and> (c < length p \<and> c < length k \<longrightarrow> p ! c \<noteq> k ! c)"
proof -
  let ?z = "zip p k" and ?P = "\<lambda>(a, b). a = b"
  have c: "c = length (takeWhile ?P ?z)" by (simp add: c_def k_def common_prefix_len_def)
  have le: "c \<le> length ?z" unfolding c by (rule length_takeWhile_le)
  have "p ! i = k ! i" if "i < c" for i
  proof -
    have "takeWhile ?P ?z ! i = ?z ! i" using that c by (simp add: takeWhile_nth)
    moreover have "takeWhile ?P ?z ! i \<in> set (takeWhile ?P ?z)" using that c by simp
    ultimately have "?P (?z ! i)" by (metis set_takeWhileD)
    then show ?thesis using that le by simp
  qed
  then have "take c p = take c k" using le by (intro nth_equalityI) auto
  moreover have "p ! c \<noteq> k ! c" if "c < length p" "c < length k"
    using nth_length_takeWhile [of ?P ?z] that c by simp
  ultimately show ?thesis using le by simp
qed

text \<open>What stays below a split: the old node with the rest of its path.\<close>

definition moved :: "art_node \<Rightarrow> nat \<Rightarrow> art_node" where
  "moved n common = fold add_offset (all_offsets n) (snd (transfer_children_into n (set_prefix (drop (common + 1) (nd_prefix n)) new_node4)))"

lemma transfer_ok:
  fixes q :: bytes
  assumes "slots_ok n"
  defines "dst \<equiv> set_prefix q new_node4"
  shows "slots_ok (snd (transfer_children_into n dst)) \<and> get_child (snd (transfer_children_into n dst)) = get_child n"
  using kids.put_all [of dst "child_pairs n"] child_pairs_ok [OF assms(1)] collect_pairs [OF assms(1)]
  by (simp add: transfer_children_into_def dst_def Let_def map_add_def split: option.splits)

lemma transfer_fields:
  "nd_prefix (snd (transfer_children_into n dst)) = nd_prefix dst \<and> nd_offsets (snd (transfer_children_into n dst)) = nd_offsets dst
    \<and> nd_overflow (snd (transfer_children_into n dst)) = nd_overflow dst"
proof -
  have "nd_prefix (fold (\<lambda>(b, c). insert_child b c) ps dst) = nd_prefix dst
    \<and> nd_offsets (fold (\<lambda>(b, c). insert_child b c) ps dst) = nd_offsets dst
    \<and> nd_overflow (fold (\<lambda>(b, c). insert_child b c) ps dst) = nd_overflow dst" for ps
    by (induction ps arbitrary: dst) (auto simp: insert_child_fields)
  then show ?thesis by (simp add: transfer_children_into_def Let_def)
qed

lemma moved_ok:
  assumes "art_ok n"
  shows "art_ok (moved n common) \<and> nd_prefix (moved n common) = drop (common + 1) (nd_prefix n)
    \<and> all_offsets (moved n common) = all_offsets n \<and> get_child (moved n common) = get_child n"
proof -
  have n: "node_ok n" using assms by (simp add: art_ok_iff [of n])
  let ?q = "drop (common + 1) (nd_prefix n)"
  let ?d = "snd (transfer_children_into n (set_prefix ?q new_node4))"
  have s: "slots_ok ?d" "get_child ?d = get_child n" using transfer_ok [of n ?q] n by (auto simp: node_ok_def)
  have f: "nd_prefix ?d = ?q" "nd_offsets ?d = []" "nd_overflow ?d = []" using transfer_fields [of n "set_prefix ?q new_node4"] by auto
  have "node_ok ?d" using s f by (simp add: node_ok_def offs_ok_def)
  from add_offsets [OF this, of "all_offsets n"]
  have m: "node_ok (moved n common)" "all_offsets (moved n common) = all_offsets n" "nd_prefix (moved n common) = ?q"
      "get_child (moved n common) = get_child n"
    using s f by (simp_all add: moved_def all_offsets_def)
  then have "art_ok (moved n common)" using assms by (auto simp: art_ok_iff [of n] intro: art_okI)
  then show ?thesis using m by blast
qed

text \<open>The node above a split, before its two children are inserted.\<close>

definition stem :: "art_node \<Rightarrow> nat \<Rightarrow> art_node" where
  "stem n common = clear_all_children (set_prefix (take common (nd_prefix n))
     (clear_children_offsets (fst (transfer_children_into n (set_prefix (drop (common + 1) (nd_prefix n)) new_node4)))))"

lemma stem_ok:
  assumes "slots_ok n"
  shows "node_ok (stem n common) \<and> get_child (stem n common) = (\<lambda>_. None)
    \<and> nd_prefix (stem n common) = take common (nd_prefix n) \<and> all_offsets (stem n common) = []"
  using clear_children [OF assms]
    clear_children [of "set_prefix (take common (nd_prefix n)) (clear_children_offsets (clear_all_children n))"]
  by (simp add: stem_def node_ok_def offs_ok_def all_offsets_def transfer_children_into_def clear_children_offsets_def)

lemma split_node_eq:
  assumes "depth + common < length key"
  shows "split_node n common depth key off e =
    Some (insert_child (key ! (depth + common)) (set_prefix (drop (depth + common + 1) key) (add_offset off new_node4))
            (insert_child (nd_prefix n ! common) (moved n common) (stem n common)), e + 1)"
proof -
  have all: "all_offsets (fst (transfer_children_into n d)) = all_offsets n" for d
    by (simp add: transfer_children_into_def all_offsets_def)
  have "set_prefix [] (add_offset off new_node4) = add_offset off new_node4"
    by (simp add: add_offset_def new_node4_def)
  then have "(if depth + common + 1 < length key then set_prefix (drop (depth + common + 1) key) (add_offset off new_node4)
      else add_offset off new_node4) = set_prefix (drop (depth + common + 1) key) (add_offset off new_node4)"
    by simp
  moreover obtain x y where t: "transfer_children_into n (set_prefix (drop (common + 1) (nd_prefix n)) new_node4) = (x, y)"
    by fastforce
  moreover have "all_offsets x = all_offsets n" using all t by (metis fst_conv)
  ultimately show ?thesis using assms by (simp add: split_node_def moved_def stem_def Let_def)
qed

lemma node_ok_insert:
  "node_ok n \<Longrightarrow> get_child n b = None \<Longrightarrow> node_ok (insert_child b c n)"
  by (simp add: node_ok_def insert_child_slots insert_child_fields)

lemma node_ok_set:
  "node_ok n \<Longrightarrow> get_child n b \<noteq> None \<Longrightarrow> node_ok (set_child b c n)"
  by (simp add: node_ok_def set_child_slots set_child_fields)

lemma all_offsets_child [simp]:
  "all_offsets (insert_child b c n) = all_offsets n" "nd_prefix (insert_child b c n) = nd_prefix n"
  "all_offsets (set_child b c n) = all_offsets n" "nd_prefix (set_child b c n) = nd_prefix n"
  by (simp_all add: all_offsets_def insert_child_fields set_child_fields)

text \<open>The facts about an insertion that the recursion carries.\<close>

definition inserted :: "art_node \<Rightarrow> bytes \<Rightarrow> u64 \<Rightarrow> art_node \<Rightarrow> bool" where
  "inserted n k off n' \<longleftrightarrow> art_ok n' \<and> find_all n' = (find_all n)(k := find_all n k @ [off])
    \<and> (\<forall>q. node_at n' q \<longrightarrow> (\<exists>s. node_at n (q @ s)) \<or> (\<exists>s. k = q @ s))"

lemma insert_leaf:
  assumes "art_ok n" "get_child n b = None"
  shows "inserted n (nd_prefix n @ b # r) off (insert_child b (set_prefix r (add_offset off new_node4)) n)"
proof -
  let ?l = "set_prefix r (add_offset off new_node4)"
  have n: "node_ok n" using assms(1) by (simp add: art_ok_iff [of n])
  have g: "get_child (insert_child b ?l n) = (get_child n)(b \<mapsto> ?l)"
    using insert_child_slots [of n b ?l] n assms(2) by (simp add: node_ok_def)
  have ok: "art_ok (insert_child b ?l n)"
    using art_ok_upd [OF assms(1) new_leaf(1) g] node_ok_insert [OF n assms(2)] by blast
  have "find_all ?l = (below n b)(r := [off])" by (auto simp: new_leaf(2) below_def assms(2) fun_eq_iff)
  from find_all_upd [OF _ _ g this] have "find_all (insert_child b ?l n) = (find_all n)(nd_prefix n @ b # r := [off])" by simp
  moreover have "find_all n (nd_prefix n @ b # r) = []" by (simp add: find_all_below below_def assms(2))
  moreover have "(\<exists>s. node_at n (q @ s)) \<or> (\<exists>s. nd_prefix n @ b # r = q @ s)" if "node_at (insert_child b ?l n) q" for q
    using node_at_upd [OF _ g that] new_leaf(3) by (metis all_offsets_child(2) append_Nil2)
  ultimately show ?thesis using ok by (simp add: inserted_def)
qed

lemma split_inserted:
  fixes nr :: bytes and off :: u64
  assumes n: "art_ok n" and p: "nd_prefix n = cp @ eb # es" and ne: "eb \<noteq> nb"
  defines "leaf \<equiv> set_prefix nr (add_offset off new_node4)"
  shows "inserted n (cp @ nb # nr) off (insert_child nb leaf (insert_child eb (moved n (length cp)) (stem n (length cp))))"
proof -
  let ?c = "length cp"
  have ns: "slots_ok n" using n by (simp add: art_ok_iff [of n] node_ok_def)
  let ?s = "stem n ?c" and ?m = "moved n ?c"
  let ?u = "insert_child eb ?m ?s"
  have s: "node_ok ?s" "get_child ?s = (\<lambda>_. None)" "nd_prefix ?s = cp" "all_offsets ?s = []"
    using stem_ok [OF ns, of ?c] p by auto
  have m: "art_ok ?m" "nd_prefix ?m = es" "all_offsets ?m = all_offsets n" "get_child ?m = get_child n"
    using moved_ok [OF n, of ?c] p by auto
  have so: "art_ok ?s" using s by (auto intro: art_okI)
  have g: "get_child ?u = (get_child ?s)(eb \<mapsto> ?m)" using insert_child_slots [of ?s eb ?m] s by (simp add: node_ok_def)
  have uo: "art_ok ?u" using art_ok_upd [OF so m(1) g] node_ok_insert [OF s(1)] s(2) by simp
  have up: "nd_prefix ?u = cp" "all_offsets ?u = []" using s by simp_all
  have fm: "find_all ?m r = find_all n (cp @ eb # r)" for r
    unfolding find_all.simps [of ?m r] find_all.simps [of n "cp @ eb # r"]
    using m p by (simp add: strip_def split: option.split list.split)
  have nm: "node_at ?m r = node_at n (cp @ eb # r)" for r
    unfolding node_at.simps [of ?m r] node_at.simps [of n "cp @ eb # r"]
    using m p by (simp add: strip_def split: option.split list.split)
  have out: "find_all n q = []" "\<not> node_at n q" if "\<forall>r. q \<noteq> cp @ eb # r" for q
    using that p by (auto simp: find_all.simps [of n q] node_at.simps [of n q] strip_Some split: option.split)
  have fu: "find_all ?u q = find_all n q" for q
  proof (cases "\<exists>r. q = cp @ eb # r")
    case True
    then show ?thesis using fm find_all_below [of ?u eb] g up by (auto simp: below_def)
  next
    case False
    then have "find_all n q = []" using out by blast
    moreover have "find_all ?u q = []"
      using False up g s(2) by (auto simp: find_all.simps [of ?u q] strip_Some split: option.split list.split)
    ultimately show ?thesis by simp
  qed
  have nu: "node_at ?u q \<Longrightarrow> q = cp \<or> node_at n q" for q
    using up g s(2) nm by (auto simp: node_at.simps [of ?u q] strip_Some split: option.splits list.splits if_splits)
  have "get_child ?u nb = None" using g s(2) ne by simp
  from insert_leaf [OF uo this, of nr off]
  have "inserted ?u (cp @ nb # nr) off (insert_child nb leaf ?u)" using up by (simp add: leaf_def)
  then show ?thesis
    unfolding inserted_def using fu nu p node_at_prefix(1) [of n] by (metis ext append.assoc append_Nil2)
qed

lemma child_inserted:
  assumes n: "art_ok n" and c: "get_child n b = Some c" and i: "inserted c r off c'"
  shows "inserted n (nd_prefix n @ b # r) off (set_child b c' n)"
proof -
  have no: "node_ok n" using n by (simp add: art_ok_iff [of n])
  have g: "get_child (set_child b c' n) = (get_child n)(b \<mapsto> c')"
    using set_child_slots [of n b c'] no c by (simp add: node_ok_def)
  have ok: "art_ok (set_child b c' n)"
    using art_ok_upd [OF n _ g] node_ok_set [OF no] c i by (simp add: inserted_def)
  have "find_all c' = (below n b)(r := find_all n (nd_prefix n @ b # r) @ [off])"
    using i c by (auto simp: inserted_def below_def find_all_below fun_eq_iff)
  from find_all_upd [OF _ _ g this]
  have "find_all (set_child b c' n) = (find_all n)(nd_prefix n @ b # r := find_all n (nd_prefix n @ b # r) @ [off])" by simp
  moreover have "(\<exists>s. node_at n (q @ s)) \<or> (\<exists>s. nd_prefix n @ b # r = q @ s)" if at: "node_at (set_child b c' n) q" for q
  proof -
    consider "node_at n q" | r' where "q = nd_prefix n @ b # r'" "node_at c' r'"
      using node_at_upd [OF _ g at] by auto
    then show ?thesis
    proof cases
      case 1
      then show ?thesis by (metis append_Nil2)
    next
      case 2
      then have "(\<exists>s. node_at c (r' @ s)) \<or> (\<exists>s. r = r' @ s)" using i by (simp add: inserted_def)
      then show ?thesis using 2(1) c node_at_prefix(2) [of n b] by auto
    qed
  qed
  ultimately show ?thesis using ok by (simp add: inserted_def)
qed

lemma insert_internal_ok:
  "art_ok n \<Longrightarrow> d \<le> length key \<Longrightarrow>
    (case insert_internal n key d off e of
       None \<Rightarrow> inside n (drop d key)
     | Some (n', e') \<Rightarrow> \<not> inside n (drop d key) \<and> e' = e + 1 \<and> inserted n (drop d key) off n')"
proof (induction n key d off e rule: insert_internal.induct)
  case (1 n key d off e)
  let ?p = "nd_prefix n" and ?k = "drop d key"
  define c where "c = common_prefix_len ?p key d"
  have cs: "c \<le> length ?p" "c \<le> length ?k" "take c ?p = take c ?k" "c < length ?p \<and> c < length ?k \<longrightarrow> ?p ! c \<noteq> ?k ! c"
    using common_split [OF 1(3), of ?p] unfolding c_def by blast+
  show ?case
  proof (cases "c < length ?p")
    case True
    then have eq: "insert_internal n key d off e = split_node n c d key off e"
      by (simp add: insert_internal.simps [of n key] c_def Let_def)
    have p: "?p = take c ?p @ ?p ! c # drop (Suc c) ?p" using True by (simp add: id_take_nth_drop [symmetric])
    show ?thesis
    proof (cases "c < length ?k")
      case short: True
      then have k: "?k = take c ?p @ ?k ! c # drop (Suc c) ?k"
        using cs(3) by (metis id_take_nth_drop)
      have ne: "?p ! c \<noteq> ?k ! c" using cs(4) True short by blast
      have len: "length (take c ?p) = c" using True by simp
      have ins: "inserted n ?k off (insert_child (?k ! c) (set_prefix (drop (Suc c) ?k) (add_offset off new_node4))
          (insert_child (?p ! c) (moved n c) (stem n c)))"
        using split_inserted [OF 1(2) p ne, of "drop (Suc c) ?k" off] k len by simp
      have "take (length ?p) (?k @ s) \<noteq> ?p" for s
        using ne True short by (metis nth_append nth_take)
      then have "strip ?p (?k @ s) = None" for s unfolding strip_def by simp
      then have "\<not> node_at n (?k @ s)" for s by (simp add: node_at.simps [of n "?k @ s"])
      then have "\<not> inside n ?k" by (simp add: inside_def)
      moreover have "split_node n c d key off e = Some (insert_child (?k ! c) (set_prefix (drop (Suc c) ?k) (add_offset off new_node4))
          (insert_child (?p ! c) (moved n c) (stem n c)), e + 1)"
        using split_node_eq [of d c key n off e] short by (simp add: add.commute)
      ultimately show ?thesis using eq ins by simp
    next
      case False
      then have c: "c = length ?k" using cs(2) by linarith
      then have k: "?k = take c ?p" using cs(3) by simp
      have "split_node n c d key off e = None" using c 1(3) by (simp add: split_node_def Let_def split: prod.split)
      moreover have "strip ?p ?k = None"
        using True c by (metis append_eq_conv_conj length_append linorder_not_less not_add_less1 not_Some_eq strip_Some)
      then have "\<not> node_at n ?k" by (simp add: node_at.simps [of n ?k])
      moreover have "node_at n (?k @ drop c ?p)" using k node_at_prefix(1) [of n] by simp
      ultimately show ?thesis using eq by (auto simp: inside_def)
    qed
  next
    case False
    then have c: "c = length ?p" using cs(1) by linarith
    then have k: "?k = ?p @ drop (length ?p) ?k" using cs(3) by (metis append_take_drop_id take_all_iff order_refl)
    let ?nd = "d + length ?p"
    show ?thesis
    proof (cases "?nd \<ge> length key")
      case True
      then have kp: "?k = ?p" using k by simp
      have eq: "insert_internal n key d off e = Some (add_offset off n, e + 1)"
        using False True by (simp add: insert_internal.simps [of n key] c_def Let_def)
      have n: "node_ok n" using 1(2) by (simp add: art_ok_iff [of n])
      note ao = add_offset_all [OF n, of off]
      have "find_all (add_offset off n) q = ((find_all n)(?p := find_all n ?p @ [off])) q" for q
        using ao find_all_prefix(1) [of n]
        by (auto simp: find_all.simps [of _ q] strip_Some split: option.split list.split)
      moreover have "art_ok (add_offset off n)" using ao 1(2) by (auto simp: art_ok_iff [of n] intro: art_okI)
      moreover have "node_at (add_offset off n) = node_at n" by (rule node_at_eqI) simp_all
      ultimately have "inserted n ?p off (add_offset off n)"
        unfolding inserted_def by (metis append_Nil2 ext)
      then show ?thesis using eq kp node_at_prefix(1) [of n] by (simp add: inside_def)
    next
      case more: False
      let ?b = "key ! ?nd" and ?r = "drop (?nd + 1) key"
      have kb: "?k = ?p @ ?b # ?r"
        using k more by (metis Cons_nth_drop_Suc Suc_eq_plus1 add.commute drop_drop linorder_not_le)
      show ?thesis
      proof (cases "get_child n ?b")
        case None
        have eq: "insert_internal n key d off e = Some (insert_child ?b (set_prefix ?r (add_offset off new_node4)) n, e + 1)"
          using False more None by (simp add: insert_internal.simps [of n key] c_def Let_def)
        then show ?thesis
          using insert_leaf [OF 1(2) None, of ?r off] inside_no_child [OF None, of ?r] kb by simp
      next
        case (Some child)
        have co: "art_ok child" using 1(2) Some by (auto simp: art_ok_iff [of n])
        have eq: "insert_internal n key d off e = (case insert_internal child key (?nd + 1) off e of
            None \<Rightarrow> None | Some (child', e') \<Rightarrow> Some (set_child ?b child' n, e'))"
          using False more Some by (simp add: insert_internal.simps [of n key] c_def Let_def)
        have ih: "case insert_internal child key (?nd + 1) off e of None \<Rightarrow> inside child ?r
            | Some (n', e') \<Rightarrow> \<not> inside child ?r \<and> e' = e + 1 \<and> inserted child ?r off n'"
          using 1(1) [OF refl c_def _ refl _ refl Some co] False more by (simp add: c_def)
        show ?thesis
        proof (cases "insert_internal child key (?nd + 1) off e")
          case None
          then show ?thesis using eq ih inside_child [OF Some, of ?r] kb by simp
        next
          case res: (Some ce)
          obtain child' e' where ce: "ce = (child', e')" by (cases ce)
          have i: "inserted child ?r off child'" "e' = e + 1" "\<not> inside child ?r" using ih res ce by auto
          have "inserted n ?k off (set_child ?b child' n)"
            using child_inserted [OF 1(2) Some i(1)] kb by simp
          then show ?thesis using eq res ce i inside_child [OF Some, of ?r] kb by simp
        qed
      qed
    qed
  qed
qed

subsection \<open>Lookup and deletion\<close>

lemma slice_strip:
  assumes "d \<le> length key"
  shows "(d + length p > length key \<or> slice d (d + length p) key \<noteq> p) \<longleftrightarrow> strip p (drop d key) = None"
  using assms by (auto simp: slice_def strip_def)

lemma strip_drop:
  assumes "strip p (drop d key) = Some r" "d \<le> length key"
  shows "r = drop (d + length p) key" "d + length p \<le> length key"
  using assms by (auto simp: strip_def add.commute split: if_splits) (metis length_drop length_take linorder_linear min.absorb2 nle_le le_diff_conv2 add.commute min_def)

lemma lookup_loop_first:
  "d \<le> length key \<Longrightarrow> lookup_loop n key d = (case find_all n (drop d key) of [] \<Rightarrow> None | off # _ \<Rightarrow> Some off)"
proof (induction n key d rule: lookup_loop.induct)
  case (1 n key d)
  let ?p = "nd_prefix n"
  show ?case
  proof (cases "strip ?p (drop d key)")
    case None
    then show ?thesis using slice_strip [OF 1(2), of ?p] by (simp add: lookup_loop.simps [of n key] find_all.simps [of n] Let_def)
  next
    case (Some r)
    note r = strip_drop [OF Some 1(2)]
    have no: "\<not> (d + length ?p > length key \<or> slice d (d + length ?p) key \<noteq> ?p)"
      using slice_strip [OF 1(2), of ?p] Some by simp
    show ?thesis
    proof (cases "d + length ?p \<ge> length key")
      case True
      then show ?thesis using Some r no by (simp add: lookup_loop.simps [of n key] find_all.simps [of n] Let_def)
    next
      case False
      then have rb: "r = key ! (d + length ?p) # drop (d + length ?p + 1) key" using r by (simp add: Cons_nth_drop_Suc)
      show ?thesis
        using 1(1) [OF refl no refl False] Some rb False no
        by (auto simp: lookup_loop.simps [of n key] find_all.simps [of n "drop d key"] Let_def split: option.split)
    qed
  qed
qed

text \<open>The facts about a deletion.\<close>

definition erased :: "art_node \<Rightarrow> bytes \<Rightarrow> u64 \<Rightarrow> art_node \<Rightarrow> bool" where
  "erased n k off n' \<longleftrightarrow> art_ok n' \<and> find_all n' = (find_all n)(k := remove1 off (find_all n k)) \<and> node_at n' = node_at n"

lemma erased_same: "art_ok n \<Longrightarrow> off \<notin> set (find_all n k) \<Longrightarrow> erased n k off n"
  by (simp add: erased_def remove1_idem)

lemma erase_here:
  assumes "art_ok n" "remove_offset off n = (found, n')"
  shows "erased n (nd_prefix n) off n' \<and> (found \<longleftrightarrow> off \<in> set (find_all n (nd_prefix n)))"
proof -
  have n: "node_ok n" using assms(1) by (simp add: art_ok_iff [of n])
  note r = remove_offset_all [OF n assms(2)]
  have "find_all n' q = ((find_all n)(nd_prefix n := remove1 off (find_all n (nd_prefix n)))) q" for q
    using r find_all_prefix(1) [of n] by (auto simp: find_all.simps [of _ q] strip_Some split: option.split list.split)
  moreover have "node_at n' = node_at n" using r by (intro node_at_eqI) simp_all
  moreover have "art_ok n'" using r assms(1) by (auto simp: art_ok_iff [of n] intro: art_okI)
  ultimately show ?thesis using r find_all_prefix(1) [of n] by (auto simp: erased_def fun_eq_iff)
qed

lemma erase_child:
  assumes n: "art_ok n" and c: "get_child n b = Some c" and i: "erased c r off c'"
  shows "erased n (nd_prefix n @ b # r) off (set_child b c' n)"
proof -
  have no: "node_ok n" using n by (simp add: art_ok_iff [of n])
  have g: "get_child (set_child b c' n) = (get_child n)(b \<mapsto> c')"
    using set_child_slots [of n b c'] no c by (simp add: node_ok_def)
  have ok: "art_ok (set_child b c' n)"
    using art_ok_upd [OF n _ g] node_ok_set [OF no] c i by (simp add: erased_def)
  have "find_all c' = (below n b)(r := remove1 off (find_all n (nd_prefix n @ b # r)))"
    using i c by (auto simp: erased_def below_def find_all_below fun_eq_iff)
  from find_all_upd [OF _ _ g this]
  have "find_all (set_child b c' n) = (find_all n)(nd_prefix n @ b # r := remove1 off (find_all n (nd_prefix n @ b # r)))" by simp
  moreover have "node_at (set_child b c' n) q = node_at n q" for q
    using i c g by (auto simp: node_at.simps [of _ q] erased_def split: option.split list.split)
  ultimately show ?thesis using ok by (auto simp: erased_def fun_eq_iff)
qed

lemma erase_internal_ok:
  "art_ok n \<Longrightarrow> d \<le> length key \<Longrightarrow> erase_internal n key d off = (found, n') \<Longrightarrow>
    erased n (drop d key) off n' \<and> (found \<longleftrightarrow> off \<in> set (find_all n (drop d key)))"
proof (induction n key d off arbitrary: found n' rule: erase_internal.induct)
  case (1 n key d off)
  let ?p = "nd_prefix n"
  show ?case
  proof (cases "strip ?p (drop d key)")
    case None
    then have "find_all n (drop d key) = []" by (simp add: find_all.simps [of n])
    then show ?thesis
      using None slice_strip [OF 1(3), of ?p] 1(2,4) erased_same [OF 1(2)]
      by (simp add: erase_internal.simps [of n key] Let_def)
  next
    case (Some r)
    note r = strip_drop [OF Some 1(3)]
    have no: "\<not> (d + length ?p > length key \<or> slice d (d + length ?p) key \<noteq> ?p)"
      using slice_strip [OF 1(3), of ?p] Some by simp
    have k: "drop d key = ?p @ r" using Some by (simp add: strip_Some)
    show ?thesis
    proof (cases "d + length ?p \<ge> length key")
      case True
      then have "remove_offset off n = (found, n')" using 1(4) no by (simp add: erase_internal.simps [of n key] Let_def)
      then show ?thesis using erase_here [OF 1(2)] k r True by simp
    next
      case False
      let ?b = "key ! (d + length ?p)" and ?r = "drop (d + length ?p + 1) key"
      have rb: "r = ?b # ?r" using r False by (simp add: Cons_nth_drop_Suc)
      show ?thesis
      proof (cases "get_child n ?b")
        case None
        then have "find_all n (drop d key) = []" using k rb find_all_prefix(2) [of n ?b ?r] by simp
        moreover have "found = False \<and> n' = n" using 1(4) no False None by (simp add: erase_internal.simps [of n key] Let_def)
        ultimately show ?thesis using erased_same [OF 1(2)] by simp
      next
        case c: (Some child)
        obtain f c' where e: "erase_internal child key (d + length ?p + 1) off = (f, c')" by fastforce
        have co: "art_ok child" using 1(2) c by (auto simp: art_ok_iff [of n])
        have out: "found = f \<and> n' = set_child ?b c' n"
          using 1(4) no False c e by (simp add: erase_internal.simps [of n key] Let_def)
        have "erased child ?r off c' \<and> (f \<longleftrightarrow> off \<in> set (find_all child ?r))"
          using 1(1) [OF refl no refl False refl c co _ e] False by simp
        then show ?thesis using out erase_child [OF 1(2) c] k rb find_all_prefix(2) [of n ?b ?r] c by simp
      qed
    qed
  qed
qed

end
