(* ===== verification/Art_Correct.thy ===== *)
theory Art_Correct
  imports Art_Refine "HOL-Library.List_Lexorder"
begin

text \<open>
  The index as an ordered multimap: range scans against the sorted list of keys, the locale \<open>keyed_store\<close> of
  stores under sequences of insertions and deletions, its interpretation on the index, and the properties.
\<close>

section \<open>Range scans visit the keys in order\<close>

text \<open>The stored keys with their offsets, in the order of the traversal.\<close>

function entries :: "art_node \<Rightarrow> (bytes \<times> u64 list) list" where
  "entries n = map (\<lambda>(k, v). (nd_prefix n @ k, v))
     ((if has_offsets n then [([], all_offsets n)] else [])
      @ concat (map (\<lambda>(b, c). map (\<lambda>(k, v). (b # k, v)) (entries c)) (ordered_pairs n)))"
  by pat_completeness auto
termination
  by (relation "measure size") (auto simp: pairs_size)

declare entries.simps [simp del]

lemma append_less: "p @ x < p @ y \<longleftrightarrow> x < (y :: 'a::linorder list)"
  by (induction p) simp_all

lemma ordered_get: "slots_ok n \<Longrightarrow> (b, c) \<in> set (ordered_pairs n) \<longleftrightarrow> get_child n b = Some c"
  using ordered_pairs_ok [of n] by (metis map_of_eq_Some_iff strict_sorted_iff)

lemma sorted_keys_map:
  assumes "\<And>x y. x < y \<Longrightarrow> g x < g y" "sorted_wrt (<) (map fst es)"
  shows "sorted_wrt (<) (map fst (map (\<lambda>(k, v). (g k, v)) es))"
  using assms(2) by (induction es) (force intro!: assms(1))+

lemma sorted_blocks:
  assumes "sorted_wrt (<) (map fst ps)" "\<forall>(b, c) \<in> set ps. sorted_wrt (<) (map fst (f c))"
  shows "sorted_wrt (<) (map fst (concat (map (\<lambda>(b, c). map (\<lambda>(k, v). (b # k, v)) (f c)) ps)))"
  using assms
proof (induction ps)
  case (Cons e ps)
  obtain b c where e: "e = (b, c)" by (cases e)
  have "sorted_wrt (<) (map fst (map (\<lambda>(k, v). (b # k, v)) (f c)))"
    using Cons.prems(2) e by (intro sorted_keys_map) auto
  moreover have "\<forall>b' \<in> set (map fst ps). b < b'" using Cons.prems(1) e by simp
  ultimately show ?case using Cons e by (fastforce simp: sorted_wrt_append)
qed simp

lemma entries_ok:
  "art_ok n \<Longrightarrow> sorted_wrt (<) (map fst (entries n)) \<and> (\<forall>k v. (k, v) \<in> set (entries n) \<longleftrightarrow> v = find_all n k \<and> v \<noteq> [])"
proof (induction rule: art_ok.induct)
  case (art_okI n)
  have s: "slots_ok n" using art_okI.hyps(1) by (simp add: node_ok_def)
  let ?own = "if has_offsets n then [([], all_offsets n)] else []"
  let ?sub = "concat (map (\<lambda>(b, c). map (\<lambda>(k, v). (b # k, v)) (entries c)) (ordered_pairs n))"
  have kids: "\<forall>(b, c) \<in> set (ordered_pairs n). sorted_wrt (<) (map fst (entries c))"
    using art_okI.IH ordered_get [OF s] by blast
  have "sorted_wrt (<) (map fst ?sub)"
    using sorted_blocks [OF _ kids] ordered_pairs_ok [OF s] by blast
  then have "sorted_wrt (<) (map fst (?own @ ?sub))"
    by (auto simp: sorted_wrt_append)
  then have "sorted_wrt (<) (map fst (entries n))"
    unfolding entries.simps [of n] by (intro sorted_keys_map) (auto simp: append_less)
  moreover have "(k, v) \<in> set (entries n) \<longleftrightarrow> v = find_all n k \<and> v \<noteq> []" for k v
  proof (cases "strip (nd_prefix n) k")
    case None
    then have "find_all n k = []" by (simp add: find_all.simps [of n k])
    moreover have "(k, v) \<notin> set (entries n)" using None unfolding entries.simps [of n] by (auto simp: strip_None)
    ultimately show ?thesis by simp
  next
    case (Some r)
    then have k: "k = nd_prefix n @ r" by (simp add: strip_Some)
    have e: "(k, v) \<in> set (entries n) \<longleftrightarrow> (r, v) \<in> set (?own @ ?sub)"
      unfolding entries.simps [of n] k by force
    show ?thesis
    proof (cases r)
      case Nil
      then show ?thesis using e k find_all_prefix(1) [of n] by (auto simp: has_offsets_def all_offsets_def)
    next
      case (Cons b r')
      have "(r, v) \<in> set (?own @ ?sub) \<longleftrightarrow> (\<exists>c. (b, c) \<in> set (ordered_pairs n) \<and> (r', v) \<in> set (entries c))"
        using Cons by (auto; force)
      also have "\<dots> \<longleftrightarrow> (\<exists>c. get_child n b = Some c \<and> v = find_all c r' \<and> v \<noteq> [])"
        using ordered_get [OF s] art_okI.IH by blast
      finally show ?thesis using e k Cons find_all_below [of n b r'] by (auto simp: below_def split: option.split)
    qed
  qed
  ultimately show ?case by blast
qed

lemma sat_lower_iff: "sat_lower k lo inc \<longleftrightarrow> (if inc then lo \<le> k else lo < k)"
  by (induction k lo inc rule: sat_lower.induct) auto

lemma sat_upper_iff: "sat_upper k up inc \<longleftrightarrow> (if inc then k \<le> up else k < up)"
  by (induction k up inc rule: sat_upper.induct) auto

lemma sat_upper_prefix: "sat_upper (k @ s) up inc \<Longrightarrow> sat_upper k up inc \<or> s = []"
  by (induction k up inc rule: sat_upper.induct) (auto split: if_splits, cases s, auto)

lemma upper_prefix: "satisfies_upper_bound (k @ s) up inc \<Longrightarrow> satisfies_upper_bound k up inc \<or> s = []"
  using sat_upper_prefix by (auto simp: satisfies_upper_bound_def split: option.splits)

definition key_in_range :: "bytes option \<Rightarrow> bool \<Rightarrow> bytes option \<Rightarrow> bool \<Rightarrow> bytes \<Rightarrow> bool" where
  "key_in_range lower li upper ui k \<longleftrightarrow> satisfies_lower_bound k lower li \<and> satisfies_upper_bound k upper ui"

definition hits :: "(bytes \<Rightarrow> bool) \<Rightarrow> (bytes \<times> u64 list) list \<Rightarrow> u64 list" where
  "hits P es = concat (map snd (filter (P \<circ> fst) es))"

lemma hits_append [simp]: "hits P (xs @ ys) = hits P xs @ hits P ys"
  by (simp add: hits_def)

lemma hits_map: "hits P (map (\<lambda>(k, v). (f k, v)) es) = hits (P \<circ> f) es"
  by (induction es) (auto simp: hits_def)

lemma hits_concat: "hits P (concat (map (\<lambda>(b, c). map (\<lambda>(k, v). (b # k, v)) (f c)) ps))
    = concat (map (\<lambda>(b, c). hits (\<lambda>k. P (b # k)) (f c)) ps)"
  by (induction ps) (auto simp: hits_map comp_def, simp add: hits_def)

lemma push_offsets_take: "length r \<le> mx \<Longrightarrow> push_offsets mx offs r = take mx (r @ offs)"
  by (induction mx offs r rule: push_offsets.induct) (auto simp: not_less_eq_eq)

lemma take_more: "take mx (take mx xs @ ys) = take mx (xs @ ys)"
  by (cases "mx \<le> length xs") simp_all

lemma take_full: "mx \<le> length (take mx xs) \<Longrightarrow> take mx (xs @ ys) = take mx xs"
  by simp

lemma visit_children_take:
  assumes "\<And>b c r. (b, c) \<in> set ps \<Longrightarrow> length r \<le> mx \<Longrightarrow> f c (key @ [b]) r = take mx (r @ X b c)"
    and "\<And>b c. (b, c) \<in> set ps \<Longrightarrow> \<not> satisfies_upper_bound (key @ [b]) up ui \<Longrightarrow> X b c = []"
    and "length r \<le> mx"
  shows "visit_children f key up ui mx ps r = take mx (r @ concat (map (\<lambda>(b, c). X b c) ps))"
  using assms
proof (induction ps arbitrary: r)
  case (Cons e ps)
  obtain b c where e: "e = (b, c)" by (cases e)
  have fc: "f c (key @ [b]) r = take mx (r @ X b c)" using Cons.prems(1) [of b c] Cons.prems(3) e by simp
  have r': "(if satisfies_upper_bound (key @ [b]) up ui then f c (key @ [b]) r else r) = take mx (r @ X b c)"
    using fc Cons.prems(2) [of b c] Cons.prems(3) e by simp
  have ih: "visit_children f key up ui mx ps (take mx (r @ X b c))
      = take mx (take mx (r @ X b c) @ concat (map (\<lambda>(b, c). X b c) ps))"
    using Cons.prems(1,2) by (intro Cons.IH) auto
  show ?case
  proof (cases "mx \<le> length (take mx (r @ X b c))")
    case True
    then have "visit_children f key up ui mx (e # ps) r = take mx (r @ X b c)"
      using e r' by (simp add: Let_def del: take_append length_take)
    also have "\<dots> = take mx ((r @ X b c) @ concat (map (\<lambda>(b, c). X b c) ps))" by (rule take_full [OF True, symmetric])
    finally show ?thesis using e by simp
  next
    case False
    then have "visit_children f key up ui mx (e # ps) r = take mx (take mx (r @ X b c) @ concat (map (\<lambda>(b, c). X b c) ps))"
      using e r' ih by (simp add: Let_def del: take_append length_take)
    then show ?thesis unfolding take_more using e by simp
  qed
qed simp

lemma collect_range_take:
  "length r \<le> mx \<Longrightarrow> collect_range n key lower li upper ui mx r
    = take mx (r @ hits (\<lambda>k. key_in_range lower li upper ui (key @ k)) (entries n))"
proof (induction n key lower li upper ui mx r rule: collect_range.induct)
  case (1 n key lower li upper ui mx r)
  let ?k = "key @ nd_prefix n" and ?P = "key_in_range lower li upper ui"
  let ?own = "if has_offsets n \<and> ?P ?k then all_offsets n else []"
  let ?X = "\<lambda>b c. hits (\<lambda>k. ?P ((?k @ [b]) @ k)) (entries c)"
  have split: "hits (\<lambda>k. ?P (key @ k)) (entries n) = ?own @ concat (map (\<lambda>(b, c). ?X b c) (ordered_pairs n))"
    unfolding entries.simps [of n] hits_map by (auto simp: hits_concat comp_def) (simp_all add: hits_def)
  show ?case
  proof (cases "mx \<le> length r")
    case True
    then show ?thesis using 1(2) by (simp add: collect_range.simps [of n])
  next
    case False
    define r1 where "r1 = (if has_offsets n \<and> satisfies_lower_bound ?k lower li \<and> satisfies_upper_bound ?k upper ui
        then push_offsets mx (all_offsets n) r else r)"
    have r1: "r1 = take mx (r @ ?own)" using 1(2) by (auto simp: r1_def push_offsets_take key_in_range_def)
    have body: "collect_range n key lower li upper ui mx r = (if mx \<le> length r1 then r1
        else visit_children (\<lambda>c k r. collect_range c k lower li upper ui mx r) ?k upper ui mx (ordered_pairs n) r1)"
      using False by (simp add: collect_range.simps [of n] r1_def Let_def)
    show ?thesis
    proof (cases "mx \<le> length r1")
      case True
      then have "collect_range n key lower li upper ui mx r = take mx (r @ ?own)" using body r1 by presburger
      then show ?thesis unfolding split using take_full [of mx "r @ ?own"] True r1 by (metis append.assoc)
    next
      case small: False
      have "visit_children (\<lambda>c k r. collect_range c k lower li upper ui mx r) ?k upper ui mx (ordered_pairs n) r1
          = take mx (r1 @ concat (map (\<lambda>(b, c). ?X b c) (ordered_pairs n)))"
      proof (rule visit_children_take)
        fix b c and r' :: "u64 list"
        assume "(b, c) \<in> set (ordered_pairs n)" "length r' \<le> mx"
        then show "collect_range c (?k @ [b]) lower li upper ui mx r' = take mx (r' @ ?X b c)"
          using 1(1) [OF refl False r1_def small, of b c] by simp
      next
        fix b c
        assume "\<not> satisfies_upper_bound (?k @ [b]) upper ui"
        then have "\<not> ?P ((?k @ [b]) @ k)" for k
          using upper_prefix [of "?k @ [b]" k upper ui] by (auto simp: key_in_range_def)
        then show "?X b c = []" by (simp add: hits_def)
      qed (use small in simp)
      then have "collect_range n key lower li upper ui mx r
          = take mx (take mx (r @ ?own) @ concat (map (\<lambda>(b, c). ?X b c) (ordered_pairs n)))"
        using body small by (simp only: if_False r1)
      then show ?thesis unfolding split take_more by simp
    qed
  qed
qed

section \<open>The index as a multimap\<close>

datatype ('k, 'v) store_op = Ins (op_key: 'k) 'v | Del (op_key: 'k) 'v

fun spec_op :: "('k, 'v) store_op \<Rightarrow> ('k \<Rightarrow> 'v list) \<Rightarrow> 'k \<Rightarrow> 'v list" where
  "spec_op (Ins k v) m = m(k := m k @ [v])"
| "spec_op (Del k v) m = m(k := remove1 v (m k))"

fun store_run :: "('k \<Rightarrow> 'v \<Rightarrow> 's \<Rightarrow> 's option) \<Rightarrow> ('k \<Rightarrow> 'v \<Rightarrow> 's \<Rightarrow> 's) \<Rightarrow> ('k, 'v) store_op list \<Rightarrow> 's \<Rightarrow> 's option" where
  "store_run ins del [] s = Some s"
| "store_run ins del (Ins k v # ops) s = (case ins k v s of None \<Rightarrow> None | Some s' \<Rightarrow> store_run ins del ops s')"
| "store_run ins del (Del k v # ops) s = store_run ins del ops (del k v s)"

text \<open>
  A store of values under keys, for the keys of a set \<open>K\<close> and a number of insertions that still fit.
\<close>

locale keyed_store =
  fixes ok :: "'k set \<Rightarrow> nat \<Rightarrow> 's \<Rightarrow> bool"
    and contents :: "'s \<Rightarrow> 'k \<Rightarrow> 'v list"
    and ins :: "'k \<Rightarrow> 'v \<Rightarrow> 's \<Rightarrow> 's option"
    and del :: "'k \<Rightarrow> 'v \<Rightarrow> 's \<Rightarrow> 's"
  assumes ins_law: "ok K (Suc n) s \<Longrightarrow> k \<in> K \<Longrightarrow>
      \<exists>s'. ins k v s = Some s' \<and> ok K n s' \<and> contents s' = (contents s)(k := contents s k @ [v])"
    and del_law: "ok K (Suc n) s \<Longrightarrow> k \<in> K \<Longrightarrow>
      ok K n (del k v s) \<and> contents (del k v s) = (contents s)(k := remove1 v (contents s k))"
begin

lemma run_refines:
  "ok K (length ops + n) s \<Longrightarrow> \<forall>op \<in> set ops. op_key op \<in> K \<Longrightarrow>
    \<exists>s'. store_run ins del ops s = Some s' \<and> ok K n s' \<and> contents s' = fold spec_op ops (contents s)"
proof (induction ops arbitrary: s)
  case (Cons op ops)
  show ?case
  proof (cases op)
    case (Ins k v)
    then obtain s1 where "ins k v s = Some s1" "ok K (length ops + n) s1" "contents s1 = (contents s)(k := contents s k @ [v])"
      using ins_law [of K "length ops + n" s k v] Cons.prems by auto
    then show ?thesis using Cons.IH [of s1] Cons.prems Ins by (auto simp: fun_upd_def)
  next
    case (Del k v)
    then have "ok K (length ops + n) (del k v s)" "contents (del k v s) = (contents s)(k := remove1 v (contents s k))"
      using del_law [of K "length ops + n" s k v] Cons.prems by auto
    then show ?thesis using Cons.IH [of "del k v s"] Cons.prems Del by (auto simp: fun_upd_def)
  qed
qed simp

end

definition prefix_free :: "bytes set \<Rightarrow> bool" where
  "prefix_free K \<longleftrightarrow> (\<forall>k \<in> K. \<forall>s. k @ s \<in> K \<longrightarrow> s = [])"

definition tally :: "(bytes \<Rightarrow> u64 list) \<Rightarrow> nat" where
  "tally m = (\<Sum>k | m k \<noteq> []. length (m k))"

definition art_store_ok :: "bytes set \<Rightarrow> nat \<Rightarrow> art_index \<Rightarrow> bool" where
  "art_store_ok K n idx \<longleftrightarrow> art_ok (root idx) \<and> prefix_free K \<and> [] \<notin> K
    \<and> (\<forall>q. node_at (root idx) q \<longrightarrow> q = [] \<or> (\<exists>s. q @ s \<in> K))
    \<and> unat (num_entries idx) = tally (find_all (root idx)) \<and> tally (find_all (root idx)) + n < 2 ^ 64"

lemma finite_keys: "art_ok n \<Longrightarrow> finite {k. find_all n k \<noteq> []}"
proof -
  assume "art_ok n"
  then have "{k. find_all n k \<noteq> []} = fst ` set (entries n)" using entries_ok [of n] by force
  then show ?thesis by simp
qed

lemma tally_superset:
  assumes "finite A" "{k. m k \<noteq> []} \<subseteq> A"
  shows "tally m = (\<Sum>k \<in> A. length (m k))"
  unfolding tally_def using assms by (intro sum.mono_neutral_left) auto

lemma tally_upd:
  assumes "finite {k. m k \<noteq> []}"
  shows "tally (m(k := xs)) + length (m k) = tally m + length xs"
proof -
  let ?A = "insert k {k. m k \<noteq> []}"
  have "tally m = length (m k) + (\<Sum>j \<in> ?A - {k}. length (m j))"
    using tally_superset [of ?A m, OF _ subset_insertI] assms by (simp add: sum.remove [of ?A k])
  moreover have "tally (m(k := xs)) = length xs + (\<Sum>j \<in> ?A - {k}. length (m j))"
  proof -
    have "tally (m(k := xs)) = (\<Sum>j \<in> ?A. length ((m(k := xs)) j))" using assms by (intro tally_superset) auto
    also have "\<dots> = length xs + (\<Sum>j \<in> ?A - {k}. length ((m(k := xs)) j))" using assms by (simp add: sum.remove [of ?A k])
    also have "(\<Sum>j \<in> ?A - {k}. length ((m(k := xs)) j)) = (\<Sum>j \<in> ?A - {k}. length (m j))" by (intro sum.cong) auto
    finally show ?thesis .
  qed
  ultimately show ?thesis by simp
qed

lemma prefix_free_not_inside:
  assumes "art_store_ok K n idx" "k \<in> K"
  shows "\<not> inside (root idx) k"
proof
  assume "inside (root idx) k"
  then obtain s where s: "\<not> node_at (root idx) k" "node_at (root idx) (k @ s)" by (auto simp: inside_def)
  have "k \<noteq> []" using assms by (auto simp: art_store_ok_def)
  then obtain t where "(k @ s) @ t \<in> K" using assms(1) s(2) by (auto simp: art_store_ok_def)
  then have "s @ t = []" using assms by (auto simp: art_store_ok_def prefix_free_def)
  then show False using s by simp
qed

lemma art_insert_law:
  assumes ok: "art_store_ok K (Suc n) idx" and k: "k \<in> K"
  shows "\<exists>idx'. art_insert k off idx = Some idx' \<and> art_store_ok K n idx'
    \<and> find_all (root idx') = (find_all (root idx))(k := find_all (root idx) k @ [off])"
proof -
  have r: "art_ok (root idx)" and ne: "k \<noteq> []" using ok k by (auto simp: art_store_ok_def)
  have "case insert_internal (root idx) k 0 off (num_entries idx) of None \<Rightarrow> inside (root idx) k
      | Some (n', e') \<Rightarrow> \<not> inside (root idx) k \<and> e' = num_entries idx + 1 \<and> inserted (root idx) k off n'"
    using insert_internal_ok [OF r le0, where key = k and off = off and e = "num_entries idx", unfolded drop0] .
  then obtain n' where i: "insert_internal (root idx) k 0 off (num_entries idx) = Some (n', num_entries idx + 1)"
      "inserted (root idx) k off n'"
    using prefix_free_not_inside [OF ok k] by (auto split: option.splits)
  let ?m = "find_all (root idx)"
  have m': "find_all n' = ?m(k := ?m k @ [off])" using i(2) by (simp add: inserted_def)
  have t: "tally (find_all n') = tally ?m + 1" using tally_upd [OF finite_keys [OF r], of k "?m k @ [off]"] m' by simp
  have "unat (num_entries idx) < 2 ^ 64 - 1" using ok by (simp add: art_store_ok_def)
  then have "num_entries idx \<noteq> u64_max" by (auto simp: unsigned_minus_1_eq_mask mask_eq_exp_minus_1)
  then have u: "unat (num_entries idx + 1) = tally (find_all n')"
    using ok t unat_Suc_word [of "num_entries idx"] by (simp add: art_store_ok_def)
  have "q = [] \<or> (\<exists>s. q @ s \<in> K)" if "node_at n' q" for q
  proof -
    have "(\<exists>s. node_at (root idx) (q @ s)) \<or> (\<exists>s. k = q @ s)" using i(2) that by (simp add: inserted_def)
    then show ?thesis using ok k by (auto simp: art_store_ok_def)
  qed
  then have "art_store_ok K n (idx\<lparr>root := n', num_entries := num_entries idx + 1, dirty := True\<rparr>)"
    using ok i(2) u t by (auto simp: art_store_ok_def inserted_def)
  then show ?thesis using i ne m' by (simp add: art_insert_def)
qed

lemma art_delete_law:
  assumes ok: "art_store_ok K (Suc n) idx" and k: "k \<in> K"
  shows "art_store_ok K n (art_delete k off idx)
    \<and> find_all (root (art_delete k off idx)) = (find_all (root idx))(k := remove1 off (find_all (root idx) k))"
proof -
  have r: "art_ok (root idx)" and ne: "k \<noteq> []" using ok k by (auto simp: art_store_ok_def)
  obtain found n' where e: "erase_internal (root idx) k 0 off = (found, n')" by fastforce
  let ?m = "find_all (root idx)"
  have i: "erased (root idx) k off n'" "found \<longleftrightarrow> off \<in> set (?m k)" using erase_internal_ok [OF r _ e] by auto
  have m': "find_all n' = ?m(k := remove1 off (?m k))" using i(1) by (simp add: erased_def)
  have t: "tally (find_all n') + length (?m k) = tally ?m + length (remove1 off (?m k))"
    using tally_upd [OF finite_keys [OF r]] m' by simp
  have u: "unat (num_entries idx) = tally ?m" "tally ?m + Suc n < 2 ^ 64" using ok by (auto simp: art_store_ok_def)
  let ?n = "if found then saturating_sub (num_entries idx) 1 else num_entries idx"
  have un: "unat ?n = tally (find_all n')"
  proof (cases found)
    case True
    then have "0 < length (?m k)" "off \<in> set (?m k)" using i(2) by auto
    then have "length (remove1 off (?m k)) + 1 = length (?m k)" by (simp add: length_remove1)
    then have "tally (find_all n') + 1 = tally ?m" using t by simp
    then show ?thesis using True u unat_pred_word [of "num_entries idx"]
      by (auto simp: saturating_sub_def word_le_nat_alt)
  next
    case False
    then show ?thesis using t u(1) i(2) by (simp add: remove1_idem)
  qed
  moreover have "length (remove1 off (?m k)) \<le> length (?m k)" by (simp add: length_remove1)
  then have "tally (find_all n') \<le> tally ?m" using t by linarith
  ultimately have "art_store_ok K n (idx\<lparr>root := n', num_entries := ?n, dirty := True\<rparr>)"
    using ok i(1) by (auto simp: art_store_ok_def erased_def)
  then show ?thesis using e ne m' by (simp add: art_delete_def)
qed

interpretation art: keyed_store art_store_ok "\<lambda>idx. find_all (root idx)" art_insert art_delete
  by unfold_locales (rule art_insert_law art_delete_law; assumption)+

lemma new_node4_tree: "art_ok new_node4" "find_all new_node4 = (\<lambda>_. [])" "node_at new_node4 q \<longleftrightarrow> q = []"
proof -
  have n4: "node_ok new_node4" by (simp add: node_ok_def offs_ok_def)
  show "art_ok new_node4" using n4 by (auto intro: art_okI)
  show "find_all new_node4 = (\<lambda>_. [])"
    by (auto simp: fun_eq_iff find_all.simps [of new_node4] all_offsets_def split: option.split list.split)
  show "node_at new_node4 q \<longleftrightarrow> q = []"
    by (auto simp: node_at.simps [of new_node4] strip_def split: list.split)
qed

lemma new_store_ok: "prefix_free K \<Longrightarrow> [] \<notin> K \<Longrightarrow> n < 2 ^ 64 \<Longrightarrow> art_store_ok K n (art_new name)"
  by (simp add: art_store_ok_def art_new_def new_node4_tree tally_def)

lemma art_lookup_first: "k \<noteq> [] \<Longrightarrow> art_lookup k idx = (case find_all (root idx) k of [] \<Rightarrow> None | off # _ \<Rightarrow> Some off)"
  by (simp add: art_lookup_def lookup_loop_first)

text \<open>The scan of the specification: all offsets of the keys between the bounds, in key order.\<close>

definition between :: "bytes option \<Rightarrow> bool \<Rightarrow> bytes option \<Rightarrow> bool \<Rightarrow> bytes \<Rightarrow> bool" where
  "between lower li upper ui k \<longleftrightarrow>
     (case lower of None \<Rightarrow> True | Some l \<Rightarrow> if li then l \<le> k else l < k)
     \<and> (case upper of None \<Rightarrow> True | Some u \<Rightarrow> if ui then k \<le> u else k < u)"

definition spec_scan :: "bytes option \<Rightarrow> bool \<Rightarrow> bytes option \<Rightarrow> bool \<Rightarrow> (bytes \<Rightarrow> u64 list) \<Rightarrow> u64 list" where
  "spec_scan lower li upper ui m =
     concat (map m (filter (between lower li upper ui) (sorted_list_of_set {k. m k \<noteq> []})))"

lemma key_in_range_between: "key_in_range lower li upper ui = between lower li upper ui"
  by (auto simp: fun_eq_iff key_in_range_def between_def satisfies_lower_bound_def satisfies_upper_bound_def
      sat_lower_iff sat_upper_iff split: option.split)

lemma range_scan_spec:
  assumes "art_ok (root idx)"
  shows "range_scan lower li upper ui mx idx = take (unat mx) (spec_scan lower li upper ui (find_all (root idx)))"
proof -
  let ?es = "entries (root idx)" and ?m = "find_all (root idx)"
  note e = entries_ok [OF assms]
  have "set (map fst ?es) = {k. ?m k \<noteq> []}" using e by force
  then have keys: "sorted_list_of_set {k. ?m k \<noteq> []} = map fst ?es"
    using e by (metis sorted_list_of_set.idem_if_sorted_distinct strict_sorted_iff)
  have "hits P ?es = concat (map ?m (filter P (map fst ?es)))" for P
  proof -
    have "\<forall>(k, v) \<in> set ?es. v = ?m k" using e by blast
    then show ?thesis by (induction ?es) (auto simp: hits_def filter_map o_def intro!: arg_cong [where f = concat] map_cong)
  qed
  then show ?thesis
    using collect_range_take [of "[]" "unat mx" "root idx" "[]" lower li upper ui]
    by (simp add: range_scan_def spec_scan_def keys key_in_range_between)
qed

section \<open>Properties\<close>

text \<open>C34. The index is a multimap from keys to row offsets. For a prefix-free set of non-empty keys and any
  sequence of insertions and deletions over it (fewer than 2^64), no operation panics, a lookup returns the
  oldest offset still stored under the key, the entry counter is the number of stored offsets, and a range scan
  returns the offsets of the keys between the bounds in key order, cut off at the limit.\<close>

theorem art_refines_multimap:
  assumes "prefix_free K" "[] \<notin> K" "\<forall>op \<in> set ops. op_key op \<in> K" "length ops < 2 ^ 64"
  defines "m \<equiv> fold spec_op ops (\<lambda>_. [])"
  shows "\<exists>idx. store_run art_insert art_delete ops (art_new name) = Some idx
    \<and> (\<forall>k \<in> K. art_lookup k idx = (case m k of [] \<Rightarrow> None | off # _ \<Rightarrow> Some off))
    \<and> unat (num_entries idx) = (\<Sum>k | m k \<noteq> []. length (m k))
    \<and> (\<forall>lower li upper ui mx. range_scan lower li upper ui mx idx = take (unat mx) (spec_scan lower li upper ui m))"
proof -
  have "art_store_ok K (length ops + 0) (art_new name)" using new_store_ok [OF assms(1,2)] assms(4) by simp
  from art.run_refines [OF this assms(3)] obtain idx where
    idx: "store_run art_insert art_delete ops (art_new name) = Some idx" "art_store_ok K 0 idx"
      "find_all (root idx) = fold spec_op ops (find_all (root (art_new name)))" by blast
  then have m: "find_all (root idx) = m" by (simp add: m_def art_new_def new_node4_tree)
  have "art_lookup k idx = (case m k of [] \<Rightarrow> None | off # _ \<Rightarrow> Some off)" if "k \<in> K" for k
    using that assms(2) m art_lookup_first [of k idx] by auto
  moreover have "unat (num_entries idx) = tally m" using idx(2) m by (simp add: art_store_ok_def)
  moreover have "range_scan lower li upper ui mx idx = take (unat mx) (spec_scan lower li upper ui m)" for lower li upper ui mx
    using range_scan_spec [of idx] idx(2) m by (simp add: art_store_ok_def)
  ultimately show ?thesis using idx(1) by (auto simp: tally_def)
qed

theorem art_refines_multimap_witness:
  "\<exists>idx. store_run art_insert art_delete [Ins [1, 2] 7, Ins [1, 3] 8, Ins [1, 2] 9, Del [1, 3] 8] (art_new ''i'') = Some idx
    \<and> art_lookup [1, 2] idx = Some 7 \<and> art_lookup [1, 3] idx = None"
proof -
  have "prefix_free {[1, 2], [1, 3]}" by (auto simp: prefix_free_def)
  from art_refines_multimap [OF this, of "[Ins [1, 2] 7, Ins [1, 3] 8, Ins [1, 2] 9, Del [1, 3] 8]" "''i''"]
  show ?thesis by auto
qed

text \<open>C35. Insertion panics exactly when the key ends strictly inside a compressed path of the tree: no node
  ends at the key, but some node lies below it. Otherwise it returns with the counter incremented. So a key that
  is a proper prefix of a stored key can make the insertion panic.\<close>

theorem art_insert_panics:
  assumes "art_ok (root idx)" "key \<noteq> []"
  shows "case art_insert key off idx of
      None \<Rightarrow> inside (root idx) key
    | Some idx' \<Rightarrow> \<not> inside (root idx) key \<and> num_entries idx' = num_entries idx + 1"
  using insert_internal_ok [OF assms(1) le0, where key = key and off = off and e = "num_entries idx", unfolded drop0] assms(2)
  by (auto simp: art_insert_def split: option.splits)

definition one_key :: art_node where
  "one_key = insert_child 1 (set_prefix [2] (add_offset 5 new_node4)) new_node4"

lemma one_key_facts: "art_ok one_key" "inside one_key [1]"
proof -
  have i: "inserted new_node4 [1, 2] 5 one_key"
    using insert_leaf [OF new_node4_tree(1), of 1 "[2]" 5] by (simp add: one_key_def)
  then show "art_ok one_key" by (simp add: inserted_def)
  have g: "get_child one_key 1 = Some (set_prefix [2] (add_offset 5 new_node4))"
    using insert_child_slots [of new_node4 1] by (simp add: one_key_def)
  have p: "nd_prefix one_key = []" by (simp add: one_key_def)
  show "inside one_key [1]"
    using node_at_prefix(2) [of one_key 1] g p new_leaf(3) by (auto simp: inside_def)
qed

theorem art_insert_panics_witness:
  "art_insert [1, 2] 5 (art_new ''i'') = Some ((art_new ''i'')\<lparr>root := one_key, num_entries := 1, dirty := True\<rparr>)
    \<and> art_insert [1] 6 ((art_new ''i'')\<lparr>root := one_key, num_entries := 1, dirty := True\<rparr>) = None"
proof
  show "art_insert [1, 2] 5 (art_new ''i'') = Some ((art_new ''i'')\<lparr>root := one_key, num_entries := 1, dirty := True\<rparr>)"
    by (simp add: art_insert_def art_new_def insert_internal.simps [of new_node4] common_prefix_len_def one_key_def)
  show "art_insert [1] 6 ((art_new ''i'')\<lparr>root := one_key, num_entries := 1, dirty := True\<rparr>) = None"
    using art_insert_panics [of "(art_new ''i'')\<lparr>root := one_key, num_entries := 1, dirty := True\<rparr>" "[1]" 6] one_key_facts
    by (simp split: option.splits)
qed

end
