(* ===== verification/Art_Codec.thy ===== *)
theory Art_Codec
  imports Art_Correct
begin

unbundle bit_operations_syntax

text \<open>
  The file format of the radix tree (\<^verbatim>\<open>akar-storage/src/art_index.rs\<close>, persistence): variable-length
  integers, serialization, and the recursive reader with its errors. The reader works on the bytes that are
  left; \<open>dl\<close> is the length of the whole buffer. Its recursion consumes at least one byte per level, which
  the fuel argument makes explicit: \<open>None\<close> is running out of fuel.
\<close>

section \<open>Variable-length integers\<close>

lemma unat_drop7: "unat (drop_bit 7 (v :: u64)) = unat v div 128"
  by (simp add: drop_bit_eq_div unat_div)

function write_art_varint :: "u64 \<Rightarrow> bytes" where
  "write_art_varint v =
     (let byte = ucast (v AND 0x7F) :: u8; v' = drop_bit 7 v
      in if v' = 0 then [byte] else (byte OR 0x80) # write_art_varint v')"
  by pat_completeness auto
termination
proof (relation "measure unat")
  fix v v' :: u64
  assume v: "v' = drop_bit 7 v" "v' \<noteq> 0"
  have "unat v' = unat v div 128" unfolding v(1) by (rule unat_drop7)
  moreover have "unat v' \<noteq> 0" using v(2) by (metis unat_eq_zero)
  ultimately show "(v', v) \<in> measure unat" by simp
qed simp

datatype art_error = VarintTooLong | VarintTruncated | PrefixTooLong | ChildKeyTruncated | UnknownKind u8

fun read_varint_loop :: "bytes \<Rightarrow> u64 \<Rightarrow> nat \<Rightarrow> art_error + u64 \<times> bytes" where
  "read_varint_loop rest result shift =
     (if shift > 63 then Inl VarintTooLong
      else case rest of
             [] \<Rightarrow> Inl VarintTruncated
           | byte # rest' \<Rightarrow>
               (let result = result OR push_bit shift (ucast (byte AND 0x7F))
                in if byte AND 0x80 = 0 then Inr (result, rest') else read_varint_loop rest' result (shift + 7)))"

definition read_art_varint :: "bytes \<Rightarrow> art_error + u64 \<times> bytes" where
  "read_art_varint rest = read_varint_loop rest 0 0"

function varint_len :: "u64 \<Rightarrow> nat" where
  "varint_len v = (if v \<ge> 0x80 then varint_len (drop_bit 7 v) + 1 else 1)"
  by pat_completeness auto
termination
proof (relation "measure unat")
  fix v :: u64
  assume "v \<ge> 0x80"
  then have "unat (drop_bit 7 v) = unat v div 128" "unat v \<ge> 128"
    by (simp_all only: unat_drop7 word_le_nat_alt) simp
  then show "(drop_bit 7 v, v) \<in> measure unat" by simp
qed simp

declare write_art_varint.simps [simp del] read_varint_loop.simps [simp del] varint_len.simps [simp del]

section \<open>Trees\<close>

definition kind_code :: "node_kind \<Rightarrow> u64" where
  "kind_code k = (case k of KNode4 \<Rightarrow> 0 | KNode16 \<Rightarrow> 1 | KNode48 \<Rightarrow> 2 | KNode256 \<Rightarrow> 3)"

fun serialize_node :: "art_node \<Rightarrow> bytes" where
  "serialize_node n =
     write_art_varint (kind_code (kind n))
     @ write_art_varint (word_of_nat (length (nd_prefix n))) @ nd_prefix n
     @ write_art_varint (word_of_nat (length (all_offsets n))) @ concat (map write_art_varint (all_offsets n))
     @ write_art_varint (word_of_nat (nd_count n))
     @ concat (map (\<lambda>(b, c). b # serialize_node c) (child_pairs n))"

fun serialized_node_size :: "art_node \<Rightarrow> nat" where
  "serialized_node_size n =
     varint_len (kind_code (kind n))
     + (varint_len (word_of_nat (length (nd_prefix n))) + length (nd_prefix n))
     + varint_len (word_of_nat (length (all_offsets n))) + sum_list (map varint_len (all_offsets n))
     + varint_len (word_of_nat (nd_count n))
     + sum_list (map (\<lambda>(b, c). 1 + serialized_node_size c) (child_pairs n))"

declare serialize_node.simps [simp del] serialized_node_size.simps [simp del]

definition serialize_tree :: "art_index \<Rightarrow> bytes" where
  "serialize_tree idx = serialize_node (root idx)"

definition serialized_tree_size :: "art_index \<Rightarrow> u64" where
  "serialized_tree_size idx = word_of_nat (serialized_node_size (root idx))"

fun read_offsets :: "nat \<Rightarrow> bytes \<Rightarrow> art_error + u64 list \<times> bytes" where
  "read_offsets 0 rest = Inr ([], rest)"
| "read_offsets (Suc k) rest =
     (case read_art_varint rest of
        Inl e \<Rightarrow> Inl e
      | Inr (off, rest1) \<Rightarrow>
          (case read_offsets k rest1 of Inl e \<Rightarrow> Inl e | Inr (offs, rest2) \<Rightarrow> Inr (off # offs, rest2)))"

text \<open>The arrays of a node from the children that were read.\<close>

definition pad :: "nat \<Rightarrow> 'a \<Rightarrow> 'a list \<Rightarrow> 'a list" where
  "pad n x xs = xs @ replicate (n - length xs) x"

definition build_index :: "bytes \<Rightarrow> bytes" where
  "build_index ks = fold (\<lambda>i ix. ix[unat (ks ! i) := word_of_nat i]) [0..<length ks] (replicate 256 EMPTY_MARKER)"

definition build_direct :: "(u8 \<times> art_node) list \<Rightarrow> art_node option list" where
  "build_direct ps = fold (\<lambda>(b, c) cs. cs[unat b := Some c]) ps (replicate 256 None)"

definition max_children :: "u8 \<Rightarrow> nat" where
  "max_children k = (if k = 0 then 4 else if k = 1 then 16 else if k = 2 then 48 else 256)"

definition build_node :: "u8 \<Rightarrow> bytes \<Rightarrow> u64 list \<Rightarrow> (u8 \<times> art_node) list \<Rightarrow> art_node" where
  "build_node k prefix offs ps =
     (let os = take 1 offs; ov = drop 1 offs; ks = map fst ps; cs = map (Some \<circ> snd) ps; c = length ps in
      if k = 0 then Node4 prefix (pad 4 0 ks) (pad 4 None cs) os ov c
      else if k = 1 then Node16 prefix (pad 16 0 ks) (pad 16 None cs) os ov c
      else if k = 2 then Node48 prefix (build_index ks) (pad 48 None cs) os ov c
      else Node256 prefix (build_direct ps) os ov c)"

text \<open>Kind, prefix, offsets and number of children.\<close>

definition read_header :: "nat \<Rightarrow> bytes \<Rightarrow> art_error + (u8 \<times> bytes \<times> u64 list \<times> nat) \<times> bytes" where
  "read_header dl rest =
     (case read_art_varint rest of Inl e \<Rightarrow> Inl e
      | Inr (k, rest) \<Rightarrow> (case read_art_varint rest of Inl e \<Rightarrow> Inl e
      | Inr (plen, rest) \<Rightarrow>
          if unat plen > length rest then Inl PrefixTooLong
          else let prefix = take (unat plen) rest; rest = drop (unat plen) rest in
      (case read_art_varint rest of Inl e \<Rightarrow> Inl e
      | Inr (n, rest) \<Rightarrow> (case read_offsets (min (unat n) dl) rest of Inl e \<Rightarrow> Inl e
      | Inr (offs, rest) \<Rightarrow> (case read_art_varint rest of Inl e \<Rightarrow> Inl e
      | Inr (nc, rest) \<Rightarrow> Inr ((ucast k, prefix, offs, unat nc), rest))))))"

text \<open>The loop over the children, with the recursive call as an argument.\<close>

fun read_children :: "(bytes \<Rightarrow> (art_error + art_node \<times> bytes) option) \<Rightarrow> nat \<Rightarrow> bytes
    \<Rightarrow> (art_error + (u8 \<times> art_node) list \<times> bytes) option" where
  "read_children rec 0 rest = Some (Inr ([], rest))"
| "read_children rec (Suc n) [] = Some (Inl ChildKeyTruncated)"
| "read_children rec (Suc n) (b # rest) =
     (case rec rest of
        None \<Rightarrow> None
      | Some (Inl e) \<Rightarrow> Some (Inl e)
      | Some (Inr (c, rest1)) \<Rightarrow>
          (case read_children rec n rest1 of
             None \<Rightarrow> None
           | Some (Inl e) \<Rightarrow> Some (Inl e)
           | Some (Inr (ps, rest2)) \<Rightarrow> Some (Inr ((b, c) # ps, rest2))))"

fun deserialize_node :: "nat \<Rightarrow> nat \<Rightarrow> bytes \<Rightarrow> (art_error + art_node \<times> bytes) option" where
  "deserialize_node 0 dl rest = None"
| "deserialize_node (Suc fuel) dl rest =
     (case read_header dl rest of
        Inl e \<Rightarrow> Some (Inl e)
      | Inr ((k, prefix, offs, nc), rest1) \<Rightarrow>
          if k > 3 then Some (Inl (UnknownKind k))
          else case read_children (deserialize_node fuel dl) (min nc (max_children k)) rest1 of
                 None \<Rightarrow> None
               | Some (Inl e) \<Rightarrow> Some (Inl e)
               | Some (Inr (ps, rest2)) \<Rightarrow> Some (Inr (build_node k prefix offs ps, rest2)))"

definition deserialize_tree :: "bytes \<Rightarrow> (art_error + art_node \<times> bytes) option" where
  "deserialize_tree data = deserialize_node (length data + 1) (length data) data"

section \<open>Round trip of the integers\<close>

lemma low7: "ucast ((ucast (v AND 0x7F) OR 0x80) AND 0x7F :: u8) = (v AND 0x7F :: u64)"
  "ucast (ucast (v AND 0x7F) AND 0x7F :: u8) = (v AND 0x7F :: u64)"
  "(ucast (v AND 0x7F) OR 0x80) AND 0x80 \<noteq> (0 :: u8)"
  "ucast (v AND 0x7F) AND 0x80 = (0 :: u8)"
proof -
  have m: "(0x7F :: u64) = mask 7" "(0x7F :: u8) = mask 7" by (simp_all add: mask_eq_exp_minus_1)
  have "(0x80 :: u8) = 2 ^ 7" by simp
  then have h: "bit (0x80 :: u8) n \<longleftrightarrow> n = 7" for n by (simp only: bit_exp_iff) (auto simp: possible_bit_word)
  show "ucast ((ucast (v AND 0x7F) OR 0x80) AND 0x7F :: u8) = (v AND 0x7F :: u64)"
    unfolding m by (rule bit_word_eqI) (simp only: bit_unsigned_iff bit_and_iff bit_or_iff bit_mask_iff h, auto simp: possible_bit_word)
  show "ucast (ucast (v AND 0x7F) AND 0x7F :: u8) = (v AND 0x7F :: u64)"
    unfolding m by (rule bit_word_eqI) (auto simp: bit_simps)
  show "ucast (v AND 0x7F) AND 0x80 = (0 :: u8)"
    unfolding m by (rule bit_word_eqI) (simp only: bit_unsigned_iff bit_and_iff bit_mask_iff h, auto)
  have "bit ((ucast (v AND 0x7F) OR 0x80) AND 0x80 :: u8) 7"
    unfolding m by (simp only: bit_unsigned_iff bit_and_iff bit_or_iff h, simp)
  then show "(ucast (v AND 0x7F) OR 0x80) AND 0x80 \<noteq> (0 :: u8)" by (metis bit_0_eq bot_apply bot_bool_def)
qed

lemma split7: "(v :: u64) = (v AND 0x7F) OR push_bit 7 (drop_bit 7 v)"
proof -
  have m: "(0x7F :: u64) = mask 7" by (simp add: mask_eq_exp_minus_1)
  have "bit v n \<longleftrightarrow> bit ((v AND mask 7) OR push_bit 7 (drop_bit 7 v)) n" if "n < 64" for n
    using that by (cases "n < 7") (auto simp: bit_simps)
  then show ?thesis unfolding m by (intro bit_word_eqI) simp
qed

lemma read_write_varint:
  "shift \<le> 63 \<Longrightarrow> unat v < 2 ^ (64 - shift) \<Longrightarrow>
    read_varint_loop (write_art_varint v @ rest) acc shift = Inr (acc OR push_bit shift v, rest)"
proof (induction v arbitrary: acc shift rule: write_art_varint.induct)
  case (1 v)
  show ?case
  proof (cases "drop_bit 7 v = 0")
    case True
    then have "v AND 0x7F = v" using split7 [of v] by simp
    then show ?thesis
      using True 1(2) low7 [of v] by (simp add: write_art_varint.simps [of v] read_varint_loop.simps [of "_ # _"])
  next
    case False
    let ?w = "drop_bit 7 v"
    have w: "unat ?w = unat v div 128" by (rule unat_drop7)
    have "unat ?w \<noteq> 0" using False by (metis unat_eq_zero)
    then have "128 \<le> unat v" using w by (metis div_less linorder_not_le)
    then have "(2 :: nat) ^ 7 < 2 ^ (64 - shift)" using 1(3) by simp
    then have s: "7 < 64 - shift" by (metis numeral_less_iff power_less_imp_less_exp semiring_norm one_less_numeral_iff)
    have "64 - shift = (64 - (shift + 7)) + 7" using s by simp
    then have "(2 :: nat) ^ (64 - shift) = 2 ^ (64 - (shift + 7)) * 2 ^ 7" by (metis power_add)
    then have b: "unat ?w < 2 ^ (64 - (shift + 7))" using 1(3) w by (simp add: less_mult_imp_div_less)
    have "read_varint_loop (write_art_varint v @ rest) acc shift
        = read_varint_loop (write_art_varint ?w @ rest) (acc OR push_bit shift (v AND 0x7F)) (shift + 7)"
      using False 1(2) low7 [of v]
      by (simp add: write_art_varint.simps [of v] read_varint_loop.simps [of "_ # _"] Let_def)
    also have "\<dots> = Inr (acc OR push_bit shift (v AND 0x7F) OR push_bit (shift + 7) ?w, rest)"
      using 1(1) [OF refl refl False, of "shift + 7"] s b by (simp add: or.assoc)
    also have "acc OR push_bit shift (v AND 0x7F) OR push_bit (shift + 7) ?w = acc OR push_bit shift v"
      by (subst (3) split7) (simp add: push_bit_or push_bit_push_bit or.assoc)
    finally show ?thesis .
  qed
qed

lemma read_art_varint_write [simp]: "read_art_varint (write_art_varint v @ rest) = Inr (v, rest)"
  using read_write_varint [of 0 v rest 0] unsigned_less [of v] by (simp add: read_art_varint_def)

lemma write_nonempty [simp]: "write_art_varint v \<noteq> []"
  by (subst write_art_varint.simps) (simp add: Let_def)

lemma varint_len_write: "varint_len v = length (write_art_varint v)"
proof (induction v rule: varint_len.induct)
  case (1 v)
  have "v \<ge> 0x80 \<longleftrightarrow> unat v div 128 \<noteq> 0" by (simp add: word_le_nat_alt div_eq_0_iff linorder_not_less)
  also have "\<dots> \<longleftrightarrow> drop_bit 7 v \<noteq> 0" by (metis unat_drop7 unat_eq_zero)
  finally show ?case
    using 1 by (simp add: varint_len.simps [of v] write_art_varint.simps [of v] Let_def)
qed

lemma map_varint_len: "map varint_len os = map (length \<circ> write_art_varint) os"
  by (simp add: varint_len_write)

lemma read_offsets_write: "read_offsets (length os) (concat (map write_art_varint os) @ rest) = Inr (os, rest)"
  by (induction os) simp_all

lemma serialized_size: "serialized_node_size n = length (serialize_node n)"
proof (induction n rule: serialized_node_size.induct)
  case (1 n)
  have "sum_list (map (\<lambda>(b, c). 1 + serialized_node_size c) (child_pairs n))
      = length (concat (map (\<lambda>(b, c). b # serialize_node c) (child_pairs n)))"
    using 1 by (induction "child_pairs n") (auto simp: length_concat o_def intro!: arg_cong [where f = sum_list] map_cong)
  then show ?case
    by (simp add: serialized_node_size.simps [of n] serialize_node.simps [of n] varint_len_write length_concat
        map_varint_len)
qed

section \<open>The reader always returns\<close>

lemma read_varint_consumes: "read_varint_loop rest acc shift = Inr (v, rest') \<Longrightarrow> length rest' < length rest"
proof (induction rest acc shift rule: read_varint_loop.induct)
  case (1 rest acc shift)
  then show ?case
    by (auto simp: read_varint_loop.simps [of rest] Let_def split: if_splits list.splits) (meson less_SucI)
qed

lemma read_art_varint_consumes: "read_art_varint rest = Inr (v, rest') \<Longrightarrow> length rest' < length rest"
  by (auto simp: read_art_varint_def intro: read_varint_consumes)

lemma read_offsets_consumes: "read_offsets k rest = Inr (os, rest') \<Longrightarrow> length rest' \<le> length rest"
proof (induction k arbitrary: rest os)
  case (Suc k)
  then show ?case
    by (auto split: sum.splits prod.splits dest!: read_art_varint_consumes) (meson less_imp_le_nat order_trans)
qed simp

lemma read_header_consumes: "read_header dl rest = Inr (h, rest') \<Longrightarrow> length rest' < length rest"
  by (auto simp: read_header_def Let_def split: sum.splits prod.splits if_splits
      dest!: read_art_varint_consumes read_offsets_consumes)

text \<open>A reader returns and consumes input on buffers of up to \<open>m\<close> bytes.\<close>

definition returns :: "nat \<Rightarrow> (bytes \<Rightarrow> (art_error + 'a \<times> bytes) option) \<Rightarrow> bool" where
  "returns m rec \<longleftrightarrow> (\<forall>rest. length rest \<le> m \<longrightarrow>
     (\<exists>r. rec rest = Some r \<and> (\<forall>c rest'. r = Inr (c, rest') \<longrightarrow> length rest' \<le> length rest)))"

lemma returnsE:
  assumes "returns m rec" "length rest \<le> m"
  obtains e where "rec rest = Some (Inl e)" | c rest' where "rec rest = Some (Inr (c, rest'))" "length rest' \<le> length rest"
proof -
  obtain r where "rec rest = Some r" "\<forall>c rest'. r = Inr (c, rest') \<longrightarrow> length rest' \<le> length rest"
    using assms by (auto simp: returns_def)
  then show thesis using that by (cases r) auto
qed

lemma children_return:
  "returns m rec \<Longrightarrow> returns (Suc m) (read_children rec n)"
proof (induction n)
  case (Suc n)
  show ?case
    unfolding returns_def
  proof (intro allI impI)
    fix rest :: bytes
    assume len: "length rest \<le> Suc m"
    show "\<exists>r. read_children rec (Suc n) rest = Some r \<and> (\<forall>c rest'. r = Inr (c, rest') \<longrightarrow> length rest' \<le> length rest)"
    proof (cases rest)
      case (Cons b tl)
      then have tl: "length tl \<le> m" using len by simp
      from returnsE [OF Suc.prems tl] show ?thesis
      proof cases
        case (2 c rest1)
        then have l: "length rest1 \<le> Suc m" using tl by simp
        from returnsE [OF Suc.IH [OF Suc.prems] l] show ?thesis
          using Cons 2 by cases auto
      qed (use Cons in simp)
    qed simp
  qed
qed (simp add: returns_def)

lemma reader_returns: "returns fuel (deserialize_node (Suc fuel) dl)"
proof (induction fuel)
  case 0
  have "read_header dl [] = Inl VarintTruncated"
    by (simp add: read_header_def read_art_varint_def read_varint_loop.simps)
  then show ?case by (simp add: returns_def)
next
  case (Suc fuel)
  show ?case
    unfolding returns_def
  proof (intro allI impI)
    fix rest :: bytes
    assume len: "length rest \<le> Suc fuel"
    let ?out = "deserialize_node (Suc (Suc fuel)) dl rest"
    show "\<exists>r. ?out = Some r \<and> (\<forall>c rest'. r = Inr (c, rest') \<longrightarrow> length rest' \<le> length rest)"
    proof (cases "read_header dl rest")
      case (Inl e)
      then show ?thesis by simp
    next
      case (Inr h)
      obtain k prefix offs nc rest1 where h: "h = ((k, prefix, offs, nc), rest1)" by (metis prod.collapse)
      have l: "length rest1 < length rest" using read_header_consumes Inr h by blast
      have "length rest1 \<le> Suc fuel" using l len by simp
      from returnsE [OF children_return [OF Suc.IH] this, of "min nc (max_children k)"] show ?thesis
        using Inr h l by cases (auto simp del: deserialize_node.simps simp: deserialize_node.simps(2) [of "Suc fuel"])
    qed
  qed
qed

section \<open>Building a node from its children\<close>

lemma arr_build:
  assumes "distinct (map fst ps)" "length ps \<le> cap"
  shows "arr_ok cap (pad cap 0 (map fst ps)) (pad cap None (map (Some \<circ> snd) ps)) (length ps)
    \<and> arr_get (pad cap 0 (map fst ps)) (pad cap None (map (Some \<circ> snd) ps)) (length ps) = map_of ps"
proof -
  let ?ks = "pad cap 0 (map fst ps)" and ?cs = "pad cap None (map (Some \<circ> snd) ps)"
  have ok: "arr_ok cap ?ks ?cs (length ps)"
  proof -
    have "take (length ps) ?ks = map fst ps" by (simp add: pad_def)
    moreover have "?cs ! i \<noteq> None \<longleftrightarrow> i < length ps" if "i < cap" for i using that by (simp add: pad_def nth_append)
    moreover have "length ?ks = cap" "length ?cs = cap" using assms(2) by (simp_all add: pad_def)
    ultimately show ?thesis unfolding arr_ok_def using assms by simp
  qed
  have n: "?ks ! i = fst (ps ! i) \<and> ?cs ! i = Some (snd (ps ! i))" if "i < length ps" for i
    using that by (simp add: pad_def nth_append)
  have "(\<exists>i < length ps. ?ks ! i = b \<and> ?cs ! i = Some x) \<longleftrightarrow> (\<exists>i < length ps. ps ! i = (b, x))" for b x
    using n by (simp add: prod_eq_iff cong: conj_cong)
  then have "arr_get ?ks ?cs (length ps) b = Some x \<longleftrightarrow> map_of ps b = Some x" for b x
    unfolding arr_get_iff [OF ok] map_of_eq_Some_iff [OF assms(1)] in_set_conv_nth by blast
  then show ?thesis using ok by (intro conjI map_eqI)
qed

lemma idx_build:
  assumes "distinct (map fst ps)" "length ps \<le> 48"
  shows "index_ok (build_index (map fst ps)) (pad 48 None (map (Some \<circ> snd) ps)) (length ps)
    \<and> idx_get (build_index (map fst ps)) (pad 48 None (map (Some \<circ> snd) ps)) = map_of ps"
proof -
  let ?ks = "pad 48 0 (map fst ps)" and ?cs = "pad 48 None (map (Some \<circ> snd) ps)"
  have i: "fold (\<lambda>i ix. ix[unat (?ks ! i) := word_of_nat i]) [0..<length ps] (replicate 256 EMPTY_MARKER) = build_index (map fst ps)"
    unfolding build_index_def by (auto simp: pad_def nth_append intro!: fold_cong)
  have "map (\<lambda>i. if i < length ps then ?cs ! i else None) [0..<48] = ?cs"
    using assms(2) by (intro nth_equalityI) (auto simp: pad_def nth_append)
  then show ?thesis
    using grow48 [of 48 ?ks ?cs "length ps" "length ps"] arr_build [OF assms] i by simp
qed

lemma direct_build:
  fixes ps :: "(u8 \<times> 'a) list"
  assumes "distinct (map fst ps)" "direct_ok cs c" "\<forall>b \<in> fst ` set ps. cs ! unat b = None"
  shows "direct_ok (fold (\<lambda>(b, c) cs. cs[unat b := Some c]) ps cs) (c + length ps)
    \<and> (\<lambda>b. fold (\<lambda>(b, c) cs. cs[unat b := Some c]) ps cs ! unat b) = (\<lambda>b. cs ! unat b) ++ map_of ps"
  using assms
proof (induction ps arbitrary: cs c)
  case (Cons e ps)
  obtain b x where e: "e = (b, x)" by (cases e)
  have i: "direct_ok (cs[unat b := Some x]) (c + 1)" "(\<lambda>d. cs[unat b := Some x] ! unat d) = (\<lambda>d. cs ! unat d)(b \<mapsto> x)"
    using direct_insert [OF Cons.prems(2), of b x] Cons.prems(3) e by auto
  have "\<forall>d \<in> fst ` set ps. cs[unat b := Some x] ! unat d = None"
  proof
    fix d assume d: "d \<in> fst ` set ps"
    then have "d \<noteq> b" using Cons.prems(1) e by auto
    then show "cs[unat b := Some x] ! unat d = None" using fun_cong [OF i(2), of d] d Cons.prems(3) by simp
  qed
  from Cons.IH [OF _ i(1) this] Cons.prems(1)
  have r: "direct_ok (fold (\<lambda>(b, c) cs. cs[unat b := Some c]) ps (cs[unat b := Some x])) (c + length (e # ps))"
    "(\<lambda>d. fold (\<lambda>(b, c) cs. cs[unat b := Some c]) ps (cs[unat b := Some x]) ! unat d) = (\<lambda>d. cs ! unat d)(b \<mapsto> x) ++ map_of ps"
    using i(2) by simp_all
  moreover have "(\<lambda>d. cs ! unat d)(b \<mapsto> x) ++ map_of ps = (\<lambda>d. cs ! unat d) ++ (map_of ps)(b \<mapsto> x)"
    using Cons.prems(1) e by (auto simp: fun_eq_iff map_add_def map_of_eq_None_iff [THEN iffD2] split: option.split)
  moreover have "map_of (e # ps) = (map_of ps)(b \<mapsto> x)" using e by (simp add: fun_upd_def)
  ultimately show ?case using e by (simp only: fold_simps prod.case)
qed simp

lemma direct_empty: "direct_ok (replicate 256 None) 0"
  by (simp add: direct_ok_def)

lemma build_node_ok:
  assumes "distinct (map fst ps)" "length ps \<le> max_children k" "k \<le> 3"
  shows "slots_ok (build_node k p offs ps) \<and> get_child (build_node k p offs ps) = map_of ps
    \<and> nd_prefix (build_node k p offs ps) = p \<and> all_offsets (build_node k p offs ps) = offs
    \<and> offs_ok (nd_offsets (build_node k p offs ps)) (nd_overflow (build_node k p offs ps))"
proof -
  have offs: "offs_ok (take 1 offs) (drop 1 offs)" by (cases offs) (simp_all add: offs_ok_def)
  have "unat k \<le> 3" using assms(3) by (simp add: word_le_nat_alt)
  then have "unat k = 0 \<or> unat k = 1 \<or> unat k = 2 \<or> unat k = 3" by linarith
  moreover have "k = word_of_nat n" if "unat k = n" for n unfolding that [symmetric] by simp
  ultimately have "k = word_of_nat 0 \<or> k = word_of_nat 1 \<or> k = word_of_nat 2 \<or> k = word_of_nat 3" by blast
  then have "k = 0 \<or> k = 1 \<or> k = 2 \<or> k = 3" by simp
  then consider "k = 0" | "k = 1" | "k = 2" | "k = 3" by blast
  then show ?thesis
  proof cases
    case 1
    then have b: "build_node k p offs ps = Node4 p (pad 4 0 (map fst ps)) (pad 4 None (map (Some \<circ> snd) ps))
        (take 1 offs) (drop 1 offs) (length ps)" by (simp add: build_node_def)
    have "length ps \<le> 4" using assms(2) 1 by (simp add: max_children_def)
    from arr_build [OF assms(1) this] show ?thesis unfolding b using offs by (simp add: get_child_eqs all_offsets_def)
  next
    case 2
    then have b: "build_node k p offs ps = Node16 p (pad 16 0 (map fst ps)) (pad 16 None (map (Some \<circ> snd) ps))
        (take 1 offs) (drop 1 offs) (length ps)" by (simp add: build_node_def)
    have "length ps \<le> 16" using assms(2) 2 by (simp add: max_children_def)
    from arr_build [OF assms(1) this] show ?thesis unfolding b using offs by (simp add: get_child_eqs all_offsets_def)
  next
    case 3
    then have b: "build_node k p offs ps = Node48 p (build_index (map fst ps)) (pad 48 None (map (Some \<circ> snd) ps))
        (take 1 offs) (drop 1 offs) (length ps)" by (simp add: build_node_def)
    have "length ps \<le> 48" using assms(2) 3 by (simp add: max_children_def)
    from idx_build [OF assms(1) this] show ?thesis unfolding b using offs by (simp add: get_child_eqs all_offsets_def)
  next
    case 4
    then have b: "build_node k p offs ps = Node256 p (build_direct ps) (take 1 offs) (drop 1 offs) (length ps)"
      by (simp add: build_node_def)
    have "\<forall>b \<in> fst ` set ps. replicate 256 None ! unat b = None" using unat_byte by simp
    from direct_build [OF assms(1) direct_empty this]
    have "direct_ok (build_direct ps) (length ps)" "(\<lambda>b. build_direct ps ! unat b) = map_of ps"
      by (simp_all add: build_direct_def unat_byte map_add_def fun_eq_iff split: option.splits)
    then show ?thesis unfolding b using offs by (simp add: get_child_eqs all_offsets_def)
  qed
qed

section \<open>Round trip of trees\<close>

definition same_tree :: "art_node \<Rightarrow> art_node \<Rightarrow> bool" where
  "same_tree n n' \<longleftrightarrow> art_ok n' \<and> find_all n' = find_all n"

text \<open>A tree is readable when the reader returns an equal tree, whatever follows it in the buffer.\<close>

definition readable :: "art_node \<Rightarrow> bool" where
  "readable n \<longleftrightarrow> (\<forall>fuel dl rest. length (serialize_node n @ rest) < fuel \<longrightarrow> length (serialize_node n @ rest) \<le> dl \<longrightarrow> dl < 2 ^ 64 \<longrightarrow>
     (\<exists>n'. deserialize_node fuel dl (serialize_node n @ rest) = Some (Inr (n', rest)) \<and> same_tree n n'))"

lemma children_length: "slots_ok n \<Longrightarrow> length (child_pairs n) = nd_count n"
proof -
  assume ok: "slots_ok n"
  note c = child_pairs_ok [OF ok]
  have "dom (get_child n) = set (map fst (child_pairs n))" using c by (metis dom_map_of_conv_image_fst list.set_map)
  then show ?thesis using count_card [OF ok] c by (metis distinct_card length_map)
qed

lemma count_fits: "slots_ok n \<Longrightarrow> nd_count n \<le> max_children (ucast (kind_code (kind n))) \<and> ucast (kind_code (kind n)) \<le> (3 :: u8)"
proof (cases n)
  case (Node256 p cs os ov c)
  assume "slots_ok n"
  moreover have "card {b. b < 256 \<and> cs ! b \<noteq> None} \<le> card {..<256 :: nat}" by (rule card_mono) auto
  ultimately have "c \<le> 256" using Node256 by (simp add: direct_ok_def)
  then show ?thesis using Node256 by (simp add: kind_def kind_code_def max_children_def)
qed (simp_all add: arr_ok_def index_ok_def kind_def kind_code_def max_children_def)

lemma read_children_write:
  assumes "\<forall>(b, c) \<in> set ps. readable c" "length (concat (map (\<lambda>(b, c). b # serialize_node c) ps) @ rest) \<le> fuel"
    and "length (concat (map (\<lambda>(b, c). b # serialize_node c) ps) @ rest) \<le> dl" "dl < 2 ^ 64"
  shows "\<exists>qs. read_children (deserialize_node fuel dl) (length ps) (concat (map (\<lambda>(b, c). b # serialize_node c) ps) @ rest) = Some (Inr (qs, rest))
    \<and> list_all2 (\<lambda>(b, c) (b', c'). b = b' \<and> same_tree c c') ps qs"
  using assms
proof (induction ps)
  case (Cons e ps)
  obtain b c where e: "e = (b, c)" by (cases e)
  let ?more = "concat (map (\<lambda>(b, c). b # serialize_node c) ps) @ rest"
  have all: "concat (map (\<lambda>(b, c). b # serialize_node c) (e # ps)) @ rest = b # serialize_node c @ ?more" using e by simp
  have "length (serialize_node c @ ?more) < fuel" "length (serialize_node c @ ?more) \<le> dl"
    using Cons.prems(2,3) unfolding all by simp_all
  moreover have "readable c" using Cons.prems(1) e by simp
  ultimately obtain c' where c': "deserialize_node fuel dl (serialize_node c @ ?more) = Some (Inr (c', ?more))" "same_tree c c'"
    using Cons.prems(4) unfolding readable_def by blast
  obtain qs where "read_children (deserialize_node fuel dl) (length ps) ?more = Some (Inr (qs, rest))"
      "list_all2 (\<lambda>(b, c) (b', c'). b = b' \<and> same_tree c c') ps qs"
    using Cons.IH Cons.prems unfolding all by fastforce
  then show ?case unfolding all using c' e by simp
qed simp

lemma write_pos: "0 < length (write_art_varint v)"
  by simp

lemma offsets_shorter: "length os \<le> length (concat (map write_art_varint os))"
proof (induction os)
  case (Cons off os)
  then show ?case using write_pos [of off] by (simp only: list.map concat.simps length_append list.size)
qed simp

lemma read_header_write:
  assumes "length (nd_prefix n) < 2 ^ 64" "length (all_offsets n) \<le> dl" "dl < 2 ^ 64" "nd_count n < 2 ^ 64"
  shows "read_header dl (serialize_node n @ rest) = Inr ((ucast (kind_code (kind n)), nd_prefix n, all_offsets n, nd_count n),
    concat (map (\<lambda>(b, c). b # serialize_node c) (child_pairs n)) @ rest)"
proof -
  have u: "unat (word_of_nat m :: u64) = m" if "m < 2 ^ 64" for m
    using that by (simp add: unsigned_of_nat take_bit_eq_mod)
  show ?thesis
    using assms u [of "length (nd_prefix n)"] u [of "length (all_offsets n)"] u [of "nd_count n"]
    by (simp add: read_header_def serialize_node.simps [of n] read_offsets_write Let_def)
qed

lemma list_all2_children:
  assumes "list_all2 (\<lambda>(b, c) (b', c'). b = b' \<and> same_tree c c') ps qs" "distinct (map fst ps)"
  shows "map fst qs = map fst ps \<and> (\<forall>b. rel_option same_tree (map_of ps b) (map_of qs b))"
  using assms by (induction rule: list_all2_induct) auto

lemma art_readable: "art_ok n \<Longrightarrow> readable n"
proof (induction rule: art_ok.induct)
  case (art_okI n)
  have s: "slots_ok n" using art_okI.hyps(1) by (simp add: node_ok_def)
  note cp = child_pairs_ok [OF s]
  have kids: "\<forall>(b, c) \<in> set (child_pairs n). readable c"
    using art_okI.IH cp by (auto simp: map_of_eq_Some_iff [symmetric])
  show ?case
    unfolding readable_def
  proof (intro allI impI)
    fix fuel dl rest
    assume f: "length (serialize_node n @ rest) < fuel" and d: "length (serialize_node n @ rest) \<le> dl" "dl < 2 ^ 64"
    let ?k = "ucast (kind_code (kind n)) :: u8"
    let ?more = "concat (map (\<lambda>(b, c). b # serialize_node c) (child_pairs n)) @ rest"
    have "length (nd_prefix n) + length (all_offsets n) + length ?more < length (serialize_node n @ rest)"
      using offsets_shorter [of "all_offsets n"] write_pos [of "kind_code (kind n)"]
      unfolding serialize_node.simps [of n] length_append by linarith
    then have bounds: "length (nd_prefix n) < 2 ^ 64" "length (all_offsets n) \<le> dl" "length ?more < length (serialize_node n @ rest)"
      using d by linarith+
    have fits: "nd_count n \<le> max_children ?k" "?k \<le> 3" using count_fits [OF s] by auto
    then have "nd_count n < 2 ^ 64" by (auto simp: max_children_def split: if_splits)
    note h = read_header_write [OF bounds(1,2) d(2) this, of rest]
    obtain fuel' where fuel': "fuel = Suc fuel'" using f by (cases fuel) auto
    obtain qs where qs: "read_children (deserialize_node fuel' dl) (length (child_pairs n)) ?more = Some (Inr (qs, rest))"
        "list_all2 (\<lambda>(b, c) (b', c'). b = b' \<and> same_tree c c') (child_pairs n) qs"
      using read_children_write [OF kids, of rest fuel' dl] f d bounds(3) fuel' by auto
    let ?n = "build_node ?k (nd_prefix n) (all_offsets n) qs"
    have q: "map fst qs = map fst (child_pairs n)" "\<forall>b. rel_option same_tree (get_child n b) (map_of qs b)"
      using list_all2_children [OF qs(2)] cp by auto
    have len: "length qs = nd_count n" using qs(2) children_length [OF s] by (simp add: list_all2_lengthD)
    have b: "slots_ok ?n" "get_child ?n = map_of qs" "nd_prefix ?n = nd_prefix n" "all_offsets ?n = all_offsets n"
        "offs_ok (nd_offsets ?n) (nd_overflow ?n)"
      using build_node_ok [of qs ?k] q(1) cp len fits by auto
    have "art_ok c'" if "get_child ?n x = Some c'" for x c'
      using spec [OF q(2), of x] that b(2) by (auto simp: same_tree_def elim: option.rel_cases)
    then have "art_ok ?n" using b(1,5) by (auto simp: node_ok_def intro: art_ok.intros)
    moreover have "below ?n x r = below n x r" for x r
      using spec [OF q(2), of x] b(2) by (auto simp: below_def same_tree_def elim: option.rel_cases)
    then have "find_all ?n = find_all n" using b by (intro find_all_eqI) auto
    moreover have "deserialize_node fuel dl (serialize_node n @ rest) = Some (Inr (?n, rest))"
      using h qs(1) fits children_length [OF s] by (simp add: fuel' min_absorb1)
    ultimately show "\<exists>n'. deserialize_node fuel dl (serialize_node n @ rest) = Some (Inr (n', rest)) \<and> same_tree n n'"
      by (auto simp: same_tree_def)
  qed
qed

section \<open>Properties\<close>

text \<open>C36. Writing a well-formed tree and reading it back gives a well-formed tree with the same offsets under
  every key and no bytes left over, and the size computed without writing is the length of what is written.\<close>

theorem art_serialize_roundtrip:
  assumes "art_ok (root idx)" "length (serialize_tree idx) < 2 ^ 64"
  shows "\<exists>r. deserialize_tree (serialize_tree idx) = Some (Inr (r, [])) \<and> art_ok r \<and> find_all r = find_all (root idx)
    \<and> unat (serialized_tree_size idx) = length (serialize_tree idx)"
proof -
  let ?d = "serialize_node (root idx)"
  have "\<exists>n'. deserialize_node (length ?d + 1) (length ?d) (?d @ []) = Some (Inr (n', [])) \<and> same_tree (root idx) n'"
    using art_readable [OF assms(1)] assms(2) unfolding readable_def serialize_tree_def by (metis append_Nil2 less_add_one order_refl)
  moreover have "unat (word_of_nat (length ?d) :: u64) = length ?d"
    using assms(2) by (simp add: serialize_tree_def unsigned_of_nat take_bit_eq_mod)
  ultimately show ?thesis
    by (auto simp: deserialize_tree_def serialize_tree_def same_tree_def serialized_tree_size_def serialized_size)
qed

definition one_leaf :: art_index where
  "one_leaf = (art_new ''i'')\<lparr>root := set_prefix [2] (add_offset 5 new_node4)\<rparr>"

theorem art_serialize_roundtrip_witness:
  "\<exists>r. deserialize_tree (serialize_tree one_leaf) = Some (Inr (r, [])) \<and> find_all r [2] = [5]"
proof -
  have v: "write_art_varint 0 = [0]" "write_art_varint 1 = [1]" "write_art_varint 5 = [5]"
    by (simp_all add: write_art_varint.simps)
  have "serialize_tree one_leaf = [0, 1, 2, 1, 5, 0]"
    unfolding serialize_tree_def one_leaf_def
    by (subst serialize_node.simps)
      (simp add: new_node4_def add_offset_def kind_def kind_code_def all_offsets_def v List.map_filter_simps)
  then have "length (serialize_tree one_leaf) < 2 ^ 64" by simp
  then show ?thesis
    using art_serialize_roundtrip [of one_leaf] new_leaf [of "[2]" 5] by (auto simp: one_leaf_def)
qed


end
