(* ===== verification/Art_Key.thy ===== *)
theory Art_Key
  imports Art_Correct Zone_Map
begin

text \<open>
  Keys of the radix-tree index (\<^verbatim>\<open>akar-storage/src/art_key.rs\<close>): byte encodings of the runtime values whose
  lexicographic order is the order of the values, and the use \<^verbatim>\<open>table.rs\<close> makes of the index through them. A float
  is its bit pattern, a string its UTF-8 bytes.
\<close>

section \<open>Keys\<close>

text \<open>\<^verbatim>\<open>bytes[0] ^= 0x80\<close> on a big-endian integer.\<close>

definition flip_first :: "bytes \<Rightarrow> bytes" where
  "flip_first bs = bs[0 := bs ! 0 XOR 0x80]"

definition from_bool :: "bool \<Rightarrow> bytes" where
  "from_bool v = [if v then 0x01 else 0x00]"

definition from_int64 :: "u64 \<Rightarrow> bytes" where
  "from_int64 v = flip_first (be_bytes 8 (unat v))"

definition from_int32 :: "u32 \<Rightarrow> bytes" where
  "from_int32 v = flip_first (be_bytes 4 (unat v))"

definition from_int16 :: "u16 \<Rightarrow> bytes" where
  "from_int16 v = flip_first (be_bytes 2 (unat v))"

definition from_int8 :: "u8 \<Rightarrow> bytes" where
  "from_int8 v = [v XOR 0x80]"

definition from_uint64 :: "u64 \<Rightarrow> bytes" where
  "from_uint64 v = be_bytes 8 (unat v)"

definition from_uint32 :: "u32 \<Rightarrow> bytes" where
  "from_uint32 v = be_bytes 4 (unat v)"

definition from_uint16 :: "u16 \<Rightarrow> bytes" where
  "from_uint16 v = be_bytes 2 (unat v)"

definition from_uint8 :: "u8 \<Rightarrow> bytes" where
  "from_uint8 v = [v]"

definition from_double :: "u64 \<Rightarrow> bytes" where
  "from_double v = be_bytes 8 (unat (if drop_bit 63 v \<noteq> 0 then NOT v else v XOR push_bit 63 1))"

definition from_float :: "u32 \<Rightarrow> bytes" where
  "from_float v = be_bytes 4 (unat (if drop_bit 31 v \<noteq> 0 then NOT v else v XOR push_bit 31 1))"

text \<open>The loop shared by \<^verbatim>\<open>from_string\<close> and \<^verbatim>\<open>from_blob\<close>.\<close>

fun escape :: "bytes \<Rightarrow> bytes" where
  "escape [] = []"
| "escape (b # bs) = (if b = 0x00 then [0x01, 0x01] else if b = 0x01 then [0x01, 0x02] else [b]) @ escape bs"

definition from_blob :: "bytes \<Rightarrow> bytes" where
  "from_blob bs = escape bs @ [0x00]"

definition from_string :: "string \<Rightarrow> bytes" where
  "from_string s = escape (map of_char s) @ [0x00]"

definition from_int128 :: "128 word \<Rightarrow> bytes" where
  "from_int128 v =
     (let high = (ucast (drop_bit 64 v) :: u64); low = (ucast v :: u64);
          high_encoded = high XOR push_bit 63 1
      in be_bytes 8 (unat high_encoded) @ be_bytes 8 (unat low))"

definition from_uint128 :: "128 word \<Rightarrow> bytes" where
  "from_uint128 v =
     (let high = (ucast (drop_bit 64 v) :: u64); low = (ucast v :: u64)
      in be_bytes 8 (unat high) @ be_bytes 8 (unat low))"

definition from_interval :: "u32 \<Rightarrow> u32 \<Rightarrow> u64 \<Rightarrow> bytes" where
  "from_interval mo d us = flip_first (be_bytes 4 (unat mo)) @ flip_first (be_bytes 4 (unat d)) @ flip_first (be_bytes 8 (unat us))"

text \<open>\<^verbatim>\<open>compute_bytes\<close> receives the key of the payload, which \<open>from_value\<close> computes by recursion.\<close>

definition compute_bytes :: "string \<Rightarrow> bytes option \<Rightarrow> bytes" where
  "compute_bytes tag inner =
     be_bytes 4 (unat (word_of_nat (length tag) :: u32)) @ map of_char tag
       @ (case inner of Some key \<Rightarrow> key | None \<Rightarrow> [])"

text \<open>\<open>js\<close> is the printer of the JSON library.\<close>

fun from_value :: "('j \<Rightarrow> string) \<Rightarrow> 'j db_value \<Rightarrow> bytes option" where
  "from_value js VNull = None"
| "from_value js (VBool v) = Some (from_bool v)"
| "from_value js (VInt64 v) = Some (from_int64 v)"
| "from_value js (VInt32 v) = Some (from_int32 v)"
| "from_value js (VInt16 v) = Some (from_int16 v)"
| "from_value js (VInt8 v) = Some (from_int8 v)"
| "from_value js (VUInt64 v) = Some (from_uint64 v)"
| "from_value js (VUInt32 v) = Some (from_uint32 v)"
| "from_value js (VUInt16 v) = Some (from_uint16 v)"
| "from_value js (VUInt8 v) = Some (from_uint8 v)"
| "from_value js (VDouble v) = Some (from_double v)"
| "from_value js (VFloat v) = Some (from_float v)"
| "from_value js (VString v) = Some (from_string v)"
| "from_value js (VBlob v) = Some (from_blob v)"
| "from_value js (VDate v) = Some (from_int32 v)"
| "from_value js (VTimestamp v) = Some (from_int64 v)"
| "from_value js (VTimestampTz v) = Some (from_int64 v)"
| "from_value js (VTimestampNs v) = Some (from_int64 v)"
| "from_value js (VTimestampMs v) = Some (from_int64 v)"
| "from_value js (VTimestampSec v) = Some (from_int64 v)"
| "from_value js (VInt128 v) = Some (from_int128 v)"
| "from_value js (VInterval i) = Some (from_interval (months i) (days i) (micros i))"
| "from_value js (VInternalID i) = Some (be_bytes 8 (unat (table_id i)) @ be_bytes 8 (unat (offset i)))"
| "from_value js (VUInt128 v) = Some (from_uint128 v)"
| "from_value js (VDTime v) = Some (from_int64 v)"
| "from_value js (VJson v) = Some (from_string (js v))"
| "from_value js (VUnion tag val) = Some (compute_bytes tag (from_value js val))"
| "from_value js (VList _) = None"
| "from_value js (VMap _) = None"
| "from_value js (VStruct _) = None"

section \<open>Big-endian order\<close>

lemma snoc_less: "length xs = length ys \<Longrightarrow> xs @ [x] < ys @ [y] \<longleftrightarrow> xs < ys \<or> xs = ys \<and> x < (y :: 'a::linorder)"
  by (induction xs ys rule: list_induct2) auto

lemma length_be_bytes [simp]: "length (be_bytes n v) = n"
  by (simp add: be_bytes_def)

lemma be_bytes_Suc: "be_bytes (Suc n) v = be_bytes n (v div 256) @ [word_of_nat v]"
  by (simp add: be_bytes_def)

lemma be_bytes_0 [simp]: "be_bytes 0 v = []"
  by (simp add: be_bytes_def)

lemma unat_low_byte: "unat (word_of_nat v :: u8) = v mod 256"
  by (simp add: unat_of_nat)

lemma be_bytes_inj: "a < 256 ^ n \<Longrightarrow> b < 256 ^ n \<Longrightarrow> be_bytes n a = be_bytes n b \<longleftrightarrow> a = b"
  by (metis be_bytes_def mod_less nat_of_le_bytes rev_rev_ident)

lemma less_div_mod: "(a :: nat) < b \<longleftrightarrow> a div n < b div n \<or> a div n = b div n \<and> a mod n < b mod n"
proof (cases "a div n" "b div n" rule: linorder_cases)
  case less
  then have "a < b" by (meson div_le_mono leD leI)
  then show ?thesis using less by simp
next
  case equal
  have "a = a div n * n + a mod n" "b = b div n * n + b mod n" by simp_all
  then show ?thesis using equal by (metis nat_add_left_cancel_less less_irrefl)
next
  case greater
  then have "b < a" by (meson div_le_mono leD leI)
  then show ?thesis using greater by simp
qed

lemma be_bytes_less: "a < 256 ^ n \<Longrightarrow> b < 256 ^ n \<Longrightarrow> be_bytes n a < be_bytes n b \<longleftrightarrow> a < b"
proof (induction n arbitrary: a b)
  case (Suc n)
  have d: "a div 256 < 256 ^ n" "b div 256 < 256 ^ n" using Suc.prems by (simp_all add: div_less_iff_less_mult mult.commute)
  have "be_bytes (Suc n) a < be_bytes (Suc n) b \<longleftrightarrow> a div 256 < b div 256 \<or> a div 256 = b div 256 \<and> a mod 256 < b mod 256"
    using Suc.IH [OF d] be_bytes_inj [OF d] by (simp add: be_bytes_Suc snoc_less word_less_nat_alt unat_low_byte)
  also have "\<dots> \<longleftrightarrow> a < b" by (rule less_div_mod [symmetric])
  finally show ?case .
qed simp

lemma be_bytes_append: "be_bytes (m + n) v = be_bytes m (v div 256 ^ n) @ be_bytes n v"
  by (induction n arbitrary: v) (simp_all add: be_bytes_Suc div_mult2_eq)

lemma be_bytes_hd: "be_bytes (Suc n) v = word_of_nat (v div 256 ^ n) # be_bytes n v"
  using be_bytes_append [of 1 n v] by (simp add: be_bytes_Suc [of 0])

lemma be_bytes_cmp: "a < 256 ^ n \<Longrightarrow> b < 256 ^ n \<Longrightarrow> cmp_lin (be_bytes n a) (be_bytes n b) = cmp_lin a b"
  by (simp add: cmp_lin_def be_bytes_less be_bytes_inj)

section \<open>Sign bits\<close>

lemma top_bit_unat:
  fixes w :: "'a::len word"
  assumes "LENGTH('a) = Suc k"
  shows "bit w k \<longleftrightarrow> 2 ^ k \<le> unat w"
proof -
  have "unat w < 2 ^ Suc k" using unsigned_less [of w] assms by simp
  then have d: "unat w div 2 ^ k < 2" by (simp add: div_less_iff_less_mult mult.commute)
  have "bit w k \<longleftrightarrow> odd (unat w div 2 ^ k)"
    using assms by (simp add: bit_iff_odd [symmetric] bit_unsigned_iff)
  also have "\<dots> \<longleftrightarrow> unat w div 2 ^ k \<noteq> 0" using d by (metis even_zero less_2_cases odd_one One_nat_def)
  also have "\<dots> \<longleftrightarrow> 2 ^ k \<le> unat w" by (simp add: div_eq_0_iff not_less)
  finally show ?thesis .
qed

lemma drop_top_bit:
  fixes w :: "'a::len word"
  assumes "LENGTH('a) = Suc k"
  shows "drop_bit k w \<noteq> 0 \<longleftrightarrow> 2 ^ k \<le> unat w"
proof -
  have "drop_bit k w = 0 \<longleftrightarrow> unat (drop_bit k w) = 0" by (simp only: unat_eq_0)
  also have "\<dots> \<longleftrightarrow> unat w div 2 ^ k = 0" unfolding unat_drop_bit_eq unfolding drop_bit_eq_div ..
  finally show ?thesis by (auto simp only: div_eq_0_iff not_less; simp)
qed

lemma unat_add_top:
  fixes w :: "'a::len word"
  assumes "LENGTH('a) = Suc k" "\<not> bit w k"
  shows "unat (w OR 2 ^ k) = unat w + 2 ^ k"
proof -
  have "w OR 2 ^ k = w + 2 ^ k"
    using assms(2) by (intro disjunctive_add [symmetric]) (auto simp: bit_exp_iff)
  moreover have "unat (2 ^ k :: 'a word) = 2 ^ k" 
  proof -
    have "(2 ^ k :: 'a word) = word_of_nat (2 ^ k)" by simp
    then show ?thesis using assms(1) by (simp only: unat_of_nat) simp
  qed
  moreover have "unat w + 2 ^ k < 2 ^ LENGTH('a)" using assms top_bit_unat [OF assms(1), of w] by simp
  ultimately show ?thesis by (simp add: unat_word_ariths)
qed

lemma unat_flip_top:
  fixes w :: "'a::len word"
  assumes "LENGTH('a) = Suc k"
  shows "unat (w XOR 2 ^ k) = (if unat w < 2 ^ k then unat w + 2 ^ k else unat w - 2 ^ k)"
proof (cases "bit w k")
  case False
  then have "w XOR 2 ^ k = w OR 2 ^ k"
    by (intro bit_word_eqI) (auto simp: bit_simps)
  then show ?thesis using False unat_add_top [OF assms False] top_bit_unat [OF assms, of w] by simp
next
  case True
  let ?v = "w XOR 2 ^ k"
  have "\<not> bit ?v k" using True assms by (simp add: bit_simps)
  moreover have "?v OR 2 ^ k = w" using True by (intro bit_word_eqI) (auto simp: bit_simps)
  ultimately have "unat w = unat ?v + 2 ^ k" using unat_add_top [OF assms, of ?v] by simp
  then show ?thesis by simp
qed

lemma sint_top:
  fixes w :: "'a::len word"
  assumes "LENGTH('a) = Suc k"
  shows "sint w = (if unat w < 2 ^ k then int (unat w) else int (unat w) - 2 ^ Suc k)"
proof -
  have "uint w < 2 ^ Suc k" using uint_bounded [of w] assms by simp
  then have "take_bit (Suc k) (uint w) = uint w" by (simp only: take_bit_int_eq_self_iff) simp
  then have "sint w = uint w - 2 ^ Suc k * of_bool (bit w k)"
    using assms by (simp only: sint_uint signed_take_bit_eq_take_bit_minus diff_Suc_1) (simp add: bit_unsigned_iff)
  then show ?thesis using top_bit_unat [OF assms, of w] by (simp add: uint_nat not_less [symmetric] del: of_nat_unat)
qed

lemma flip_top_less:
  fixes a b :: "'a::len word"
  assumes "LENGTH('a) = Suc k"
  shows "unat (a XOR 2 ^ k) < unat (b XOR 2 ^ k) \<longleftrightarrow> sint a < sint b"
proof -
  have l: "unat a < 2 * 2 ^ k" "unat b < 2 * 2 ^ k" using unsigned_less [of a] unsigned_less [of b] assms by simp_all
  define p where "p = (2 ^ k :: nat)"
  have "2 ^ Suc k = int (2 * p)" by (simp add: p_def)
  then show ?thesis unfolding unat_flip_top [OF assms] sint_top [OF assms] using l
    by (simp only: p_def [symmetric]) (auto simp del: of_nat_unat)
qed

section \<open>Every encoding is a comparison\<close>

lemma be_bytes_mod: "be_bytes n v = be_bytes n (v mod 256 ^ n)"
  using le_bytes_nat_of_le [of "le_bytes n v"] by (simp only: be_bytes_def length_le_bytes nat_of_le_bytes)

lemma be_bytes_add: "be_bytes n (v + c * 256 ^ n) = be_bytes n v"
  using be_bytes_mod [of n "v + c * 256 ^ n"] be_bytes_mod [of n v] by simp

lemma flip_byte: "q < 256 \<Longrightarrow> (word_of_nat q :: u8) XOR 0x80 = word_of_nat (if q < 128 then q + 128 else q - 128)"
proof -
  assume q: "q < 256"
  have "unat ((word_of_nat q :: u8) XOR 2 ^ 7) = (if q < 128 then q + 128 else q - 128)"
    using q unat_flip_top [where 'a = 8 and k = 7, of "word_of_nat q"] by (simp add: unat_low_byte)
  then have "unat ((word_of_nat q :: u8) XOR 0x80) = unat (word_of_nat (if q < 128 then q + 128 else q - 128) :: u8)"
    using q by (simp add: unat_low_byte)
  then show ?thesis by (simp only: word_unat_eq_iff)
qed

lemma flip_first_be:
  fixes w :: "'a::len word"
  assumes "LENGTH('a) = 8 * Suc n"
  shows "flip_first (be_bytes (Suc n) (unat w)) = be_bytes (Suc n) (unat (w XOR 2 ^ (LENGTH('a) - 1)))"
proof -
  let ?v = "unat w" and ?B = "256 ^ n :: nat"
  have p: "2 ^ (LENGTH('a) - 1) = 128 * ?B" "2 ^ LENGTH('a) = 256 * ?B"
    using assms by (simp_all add: power_add power_mult)
  have lt: "?v < 256 * ?B" using unsigned_less [of w] p(2) by metis
  then have q: "?v div ?B < 256" by (simp add: div_less_iff_less_mult)
  have f: "unat (w XOR 2 ^ (LENGTH('a) - 1)) = (if ?v < 128 * ?B then ?v + 128 * ?B else ?v - 128 * ?B)"
    using unat_flip_top [of "LENGTH('a) - 1" w] assms p(1) by simp
  have small: "?v div ?B < 128 \<longleftrightarrow> ?v < 128 * ?B" by (simp add: div_less_iff_less_mult)
  have "flip_first (be_bytes (Suc n) ?v)
      = word_of_nat (if ?v div ?B < 128 then ?v div ?B + 128 else ?v div ?B - 128) # be_bytes n ?v"
    by (simp only: flip_first_def be_bytes_hd nth_Cons_0 list_update_code flip_byte [OF q])
  also have "\<dots> = be_bytes (Suc n) (unat (w XOR 2 ^ (LENGTH('a) - 1)))"
  proof (cases "?v < 128 * ?B")
    case True
    then show ?thesis using be_bytes_add [of n ?v 128] by (simp only: f small be_bytes_hd if_True) simp
  next
    case False
    then obtain u where u: "?v = u + 128 * ?B" by (metis add.commute le_Suc_ex not_less)
    show ?thesis using False be_bytes_add [of n u 128]
      by (simp only: f small be_bytes_hd if_False) (simp add: u)
  qed
  finally show ?thesis .
qed

lemma int_key_cmp:
  fixes a b :: "'a::len word"
  assumes "LENGTH('a) = 8 * Suc n"
  shows "cmp_lin (flip_first (be_bytes (Suc n) (unat a))) (flip_first (be_bytes (Suc n) (unat b))) = cmp_lin (sint a) (sint b)"
proof -
  have k: "LENGTH('a) = Suc (LENGTH('a) - 1)" using assms by simp
  have "256 ^ Suc n = (2 :: nat) ^ LENGTH('a)" using assms by (simp add: power_add power_mult)
  then have b: "unat w < 256 ^ Suc n" for w :: "'a word" using unsigned_less [of w] by metis
  have "cmp_lin (unat (a XOR 2 ^ (LENGTH('a) - 1))) (unat (b XOR 2 ^ (LENGTH('a) - 1))) = cmp_lin (sint a) (sint b)"
    using flip_top_less [OF k, of a b] flip_top_less [OF k, of b a] by (auto simp: cmp_lin_def) 
  then show ?thesis by (simp only: flip_first_be [OF assms] be_bytes_cmp [OF b b])
qed

lemma uint_key_cmp:
  fixes a b :: "'a::len word"
  assumes "LENGTH('a) = 8 * n"
  shows "cmp_lin (be_bytes n (unat a)) (be_bytes n (unat b)) = cmp_lin a b"
proof -
  have "256 ^ n = (2 :: nat) ^ LENGTH('a)" using assms by (simp add: power_mult)
  then have b: "unat w < 256 ^ n" for w :: "'a word" using unsigned_less [of w] by metis
  show ?thesis unfolding be_bytes_cmp [OF b b] by (auto simp: cmp_lin_def word_less_nat_alt word_unat_eq_iff)
qed

lemma append_cmp: "length a = length b \<Longrightarrow> cmp_lin (a @ c) (b @ d) = (if a = b then cmp_lin c d else cmp_lin a (b :: 'a::linorder list))"
  by (induction a b rule: list_induct2) (auto simp: cmp_lin_def split: if_splits)

lemma split128: "be_bytes 8 (unat (ucast (drop_bit 64 v) :: u64)) @ be_bytes 8 (unat (ucast v :: u64)) = be_bytes 16 (unat (v :: 128 word))"
proof -
  have h: "unat (ucast (drop_bit 64 v) :: u64) = unat v div 256 ^ 8"
  proof -
    have "unat (drop_bit 64 v) = unat v div 2 ^ 64" unfolding unat_drop_bit_eq unfolding drop_bit_eq_div ..
    moreover have "unat v < 2 ^ 128" using unsigned_less [of v] by simp
    ultimately show ?thesis by (simp add: unsigned_ucast_eq take_bit_nat_eq_self_iff div_less_iff_less_mult)
  qed
  have "unat (ucast v :: u64) = unat v mod 256 ^ 8" by (simp add: unsigned_ucast_eq take_bit_eq_mod)
  then have l: "be_bytes 8 (unat (ucast v :: u64)) = be_bytes 8 (unat v)" using be_bytes_mod [of 8 "unat v"] by simp
  show ?thesis using be_bytes_append [of 8 8 "unat v"] by (simp add: h l)
qed

lemma uint128_key_cmp: "cmp_lin (from_uint128 a) (from_uint128 b) = cmp_lin a b"
  using uint_key_cmp [where 'a = 128 and n = 16, of a b] by (simp add: from_uint128_def Let_def split128)

lemma int128_key: "from_int128 v = flip_first (be_bytes 16 (unat v))"
proof -
  let ?h = "ucast (drop_bit 64 v) :: u64" and ?l = "ucast v :: u64"
  have "flip_first (be_bytes 8 (unat ?h) @ be_bytes 8 (unat ?l)) = flip_first (be_bytes 8 (unat ?h)) @ be_bytes 8 (unat ?l)"
    by (simp add: flip_first_def list_update_append nth_append)
  also have "flip_first (be_bytes 8 (unat ?h)) = be_bytes 8 (unat (?h XOR 2 ^ 63))"
    using flip_first_be [where 'a = 64 and n = 7, of ?h] by simp
  finally show ?thesis by (simp only: split128 from_int128_def Let_def) (simp add: push_bit_eq_mult)
qed

lemma int128_key_cmp: "cmp_lin (from_int128 a) (from_int128 b) = cmp_lin (sint a) (sint b)"
  using int_key_cmp [where 'a = 128 and n = 15, of a b] by (simp add: int128_key)

lemma escape_less: "escape a @ [0] < escape b @ [0] \<longleftrightarrow> a < b"
proof (induction a arbitrary: b)
  case Nil
  then show ?case by (cases b) (auto simp: word_gt_0)
next
  case (Cons x a)
  show ?case
  proof (cases b)
    case Nil
    then show ?thesis by auto
  next
    case (Cons y b')
    have "z \<noteq> 0 \<Longrightarrow> z \<noteq> 1 \<Longrightarrow> 1 < z" for z :: u8 by (simp add: word_less_nat_alt word_unat_eq_iff)
    then show ?thesis using Cons.IH [of b'] Cons by (auto simp: word_gt_0)
  qed
qed

lemma escape_inj: "escape a = escape b \<longleftrightarrow> a = b"
  using escape_less [of a b] escape_less [of b a] by (metis linorder_neq_iff less_irrefl)

lemma blob_key_cmp: "cmp_lin (from_blob a) (from_blob b) = cmp_lin a b"
  by (simp add: cmp_lin_def from_blob_def escape_less escape_inj)

lemma of_char_byte: "(of_char c :: u8) < of_char d \<longleftrightarrow> c < d" "(of_char c :: u8) = of_char d \<longleftrightarrow> c = d"
proof -
  have "unat (of_char c :: u8) = of_char c" for c :: char
    by (metis of_nat_of_char unat_low_byte of_char_mod_256 mod_less_divisor zero_less_numeral mod_less)
  then show "(of_char c :: u8) < of_char d \<longleftrightarrow> c < d" "(of_char c :: u8) = of_char d \<longleftrightarrow> c = d"
    by (simp_all add: word_less_nat_alt word_unat_eq_iff less_char_def)
qed

lemma string_key_cmp: "cmp_lin (from_string a) (from_string b) = cmp_lin a b"
proof -
  have "map of_char a < (map of_char b :: bytes) \<longleftrightarrow> a < b"
  proof (induction a arbitrary: b)
    case Nil
    show ?case by (cases b) simp_all
  next
    case (Cons c a)
    then show ?case by (cases b) (simp_all add: of_char_byte)
  qed
  moreover have "map of_char a = (map of_char b :: bytes) \<longleftrightarrow> a = b"
    by (rule inj_map_eq_map) (simp add: inj_def of_char_byte)
  ultimately show ?thesis by (simp add: cmp_lin_def from_string_def escape_less escape_inj)
qed

lemma unat_NOT: "unat (NOT w) = 2 ^ LENGTH('a) - 1 - unat (w :: 'a::len word)"
proof -
  have "NOT w = - 1 - w" by (simp add: not_eq_complement)
  moreover have "unat (- 1 - w) = unat (- 1 :: 'a word) - unat w" by (rule unat_sub) simp
  ultimately show ?thesis by (simp add: unsigned_minus_1_eq_mask mask_eq_exp_minus_1)
qed

text \<open>The number an encoded float denotes: above the middle for positive patterns, below it for negative ones.\<close>

lemma magnitude:
  fixes w :: "'a::len word"
  assumes "LENGTH('a) = Suc k"
  shows "unat (w AND mask k) = (if unat w < 2 ^ k then unat w else unat w - 2 ^ k)"
proof -
  have u: "unat (w AND mask k) = unat w mod 2 ^ k"
    by (simp only: take_bit_eq_mask [symmetric] unsigned_take_bit_eq) (simp add: take_bit_eq_mod)
  have "unat w < 2 * 2 ^ k" using unsigned_less [of w] assms by simp
  then show ?thesis unfolding u by (auto simp: le_mod_geq)
qed

lemma float_rank:
  fixes w :: "'a::len word"
  assumes "LENGTH('a) = Suc k"
  defines "e \<equiv> unat (if drop_bit k w \<noteq> 0 then NOT w else w XOR 2 ^ k)"
    and "m \<equiv> (if bit w k then - uint (w AND mask k) else uint (w AND mask k))"
  shows "int e = 2 ^ k + m - of_bool (bit w k)"
proof -
  define p where "p = (2 ^ k :: nat)"
  have u: "unat w < 2 * p" using unsigned_less [of w] assms(1) by (simp add: p_def)
  have b: "bit w k \<longleftrightarrow> \<not> unat w < p" using top_bit_unat [OF assms(1), of w] by (simp add: p_def not_less)
  have d: "drop_bit k w \<noteq> 0 \<longleftrightarrow> \<not> unat w < p" using drop_top_bit [OF assms(1), of w] by (simp only: p_def not_less)
  have mg: "uint (w AND mask k) = int (if unat w < p then unat w else unat w - p)"
    unfolding p_def magnitude [OF assms(1), symmetric] by simp
  have n: "unat (NOT w) = 2 * p - 1 - unat w" using unat_NOT [of w] assms(1) by (simp add: p_def)
  have x: "unat (w XOR 2 ^ k) = (if unat w < p then unat w + p else unat w - p)"
    unfolding p_def by (rule unat_flip_top [OF assms(1)])
  have "2 ^ k = int p" by (simp add: p_def)
  then show ?thesis unfolding e_def m_def b d mg using u
    by (cases "unat w < p") (simp_all only: if_True if_False n x simp_thms, simp_all)
qed

lemma float_cmp:
  fixes a b :: "'a::len word"
  assumes k: "LENGTH('a) = Suc k"
  defines "e \<equiv> \<lambda>w :: 'a word. unat (if drop_bit k w \<noteq> 0 then NOT w else w XOR 2 ^ k)"
    and "m \<equiv> \<lambda>w :: 'a word. (if bit w k then - uint (w AND mask k) else uint (w AND mask k))"
  assumes "m a \<noteq> 0 \<or> m b \<noteq> 0 \<or> a = b"
  shows "cmp_lin (e a) (e b) = cmp_lin (m a) (m b)"
proof -
  have r: "int (e w) = 2 ^ k + m w - of_bool (bit w k)" for w unfolding e_def m_def by (rule float_rank [OF k])
  have s: "bit w k \<Longrightarrow> m w \<le> 0" "\<not> bit w k \<Longrightarrow> 0 \<le> m w" for w by (simp_all add: m_def)
  have z: "bit a k = bit b k \<or> m a \<noteq> 0 \<or> m b \<noteq> 0" using assms(4) by auto
  have "e a < e b \<longleftrightarrow> m a < m b"
    using r [of a] r [of b] s [of a] s [of b] z by (cases "bit a k"; cases "bit b k"; simp; linarith)
  moreover have "e a = e b \<longleftrightarrow> m a = m b"
    using r [of a] r [of b] s [of a] s [of b] z by (cases "bit a k"; cases "bit b k"; simp; linarith)
  ultimately show ?thesis by (simp add: cmp_lin_def)
qed


lemma double_key_cmp:
  assumes "f64_key a \<noteq> 0 \<or> f64_key b \<noteq> 0 \<or> a = b"
  shows "cmp_lin (from_double a) (from_double b) = cmp_lin (f64_key a) (f64_key b)"
proof -
  have m: "mask 63 = (0x7FFFFFFFFFFFFFFF :: u64)" by (simp add: mask_eq_exp_minus_1)
  have b: "unat w < 256 ^ 8" for w :: u64 using unsigned_less [of w] by simp
  show ?thesis
    using float_cmp [where 'a = 64 and k = 63, of a b] assms
    by (simp only: from_double_def be_bytes_cmp [OF b b] f64_key_def m push_bit_of_1) simp
qed

lemma float_key_cmp:
  assumes "f32_key a \<noteq> 0 \<or> f32_key b \<noteq> 0 \<or> a = b"
  shows "cmp_lin (from_float a) (from_float b) = cmp_lin (f32_key a) (f32_key b)"
proof -
  have m: "mask 31 = (0x7FFFFFFF :: u32)" by (simp add: mask_eq_exp_minus_1)
  have b: "unat w < 256 ^ 4" for w :: u32 using unsigned_less [of w] by simp
  show ?thesis
    using float_cmp [where 'a = 32 and k = 31, of a b] assms
    by (simp only: from_float_def be_bytes_cmp [OF b b] f32_key_def m push_bit_of_1) simp
qed

section \<open>Keys of a column\<close>

fun float_zero :: "'j db_value \<Rightarrow> bool" where
  "float_zero (VDouble x) = (f64_key x = 0)"
| "float_zero (VFloat x) = (f32_key x = 0)"
| "float_zero _ = False"

lemma bool_key_cmp: "cmp_lin (from_bool a) (from_bool b) = cmp_lin a b"
  by (auto simp: cmp_lin_def from_bool_def)

lemma uint8_key_cmp: "cmp_lin (from_uint8 a) (from_uint8 b) = cmp_lin a b"
  by (simp add: cmp_lin_def from_uint8_def)

lemma int8_key: "from_int8 v = flip_first (be_bytes 1 (unat v))"
  by (simp add: from_int8_def flip_first_def be_bytes_Suc [of 0])

lemma id_key_cmp:
  "cmp_lin (be_bytes 8 (unat (table_id a)) @ be_bytes 8 (unat (offset a)))
     (be_bytes 8 (unat (table_id b)) @ be_bytes 8 (unat (offset b)))
   = cmp_lin (table_id a, offset a) (table_id b, offset b)"
proof -
  have t: "cmp_lin (be_bytes 8 (unat (table_id a))) (be_bytes 8 (unat (table_id b))) = cmp_lin (table_id a) (table_id b)"
    and o: "cmp_lin (be_bytes 8 (unat (offset a))) (be_bytes 8 (unat (offset b))) = cmp_lin (offset a) (offset b)"
    by (rule uint_key_cmp; simp)+
  have "be_bytes 8 (unat (table_id a)) = be_bytes 8 (unat (table_id b)) \<longleftrightarrow> table_id a = table_id b"
    using t by (metis cmp_lin_simps(2))
  then show ?thesis unfolding append_cmp [OF trans [OF length_be_bytes length_be_bytes [symmetric]]] t o
    by (auto simp: cmp_lin_def)
qed

lemma int_keys_cmp:
  "cmp_lin (from_int64 a) (from_int64 b) = cmp_lin (sint a) (sint b)"
  "cmp_lin (from_int32 c) (from_int32 d) = cmp_lin (sint c) (sint d)"
  "cmp_lin (from_int16 e) (from_int16 f) = cmp_lin (sint e) (sint f)"
  "cmp_lin (from_int8 g) (from_int8 h) = cmp_lin (sint g) (sint h)"
  using int_key_cmp [where 'a = 64 and n = 7, of a b] int_key_cmp [where 'a = 32 and n = 3, of c d]
    int_key_cmp [where 'a = 16 and n = 1, of e f] int_key_cmp [where 'a = 8 and n = 0, of g h]
  by (simp_all only: from_int64_def from_int32_def from_int16_def int8_key) (simp_all add: numeral_2_eq_2)

lemma uint_keys_cmp:
  "cmp_lin (from_uint64 a) (from_uint64 b) = cmp_lin a b"
  "cmp_lin (from_uint32 c) (from_uint32 d) = cmp_lin c d"
  "cmp_lin (from_uint16 e) (from_uint16 f) = cmp_lin e f"
  unfolding from_uint64_def from_uint32_def from_uint16_def by (rule uint_key_cmp; simp)+

lemmas key_cmps = bool_key_cmp int_keys_cmp uint_keys_cmp uint8_key_cmp uint128_key_cmp int128_key_cmp string_key_cmp
  id_key_cmp

lemma key_order:
  assumes "value_cmp a b = Some ord"
  shows "\<exists>ka kb. from_value js a = Some ka \<and> from_value js b = Some kb
    \<and> (ord = cmp_lin ka kb \<or> float_zero a \<and> float_zero b \<and> a \<noteq> b)"
proof (cases a)
  case (VDouble x)
  with assms obtain y where y: "b = VDouble y" "ord = cmp_lin (f64_key x) (f64_key y)"
    by (auto simp: value_cmp_def f64_partial_cmp_def split: db_value.splits if_splits)
  then show ?thesis using VDouble double_key_cmp [of x y] by (cases "f64_key x \<noteq> 0 \<or> f64_key y \<noteq> 0 \<or> x = y") auto
next
  case (VFloat x)
  with assms obtain y where y: "b = VFloat y" "ord = cmp_lin (f32_key x) (f32_key y)"
    by (auto simp: value_cmp_def f32_partial_cmp_def split: db_value.splits if_splits)
  then show ?thesis using VFloat float_key_cmp [of x y] by (cases "f32_key x \<noteq> 0 \<or> f32_key y \<noteq> 0 \<or> x = y") auto
qed (use assms in \<open>simp add: value_cmp_def split: db_value.splits; (simp add: key_cmps)?\<close>)+


text \<open>The type of a column by its values; compound types have no keys, and a union none of a common format.\<close>

definition key_kind :: "'j db_value \<Rightarrow> nat option" where
  "key_kind v = (case v of VBlob _ \<Rightarrow> Some 23 | VInterval _ \<Rightarrow> Some 24 | VDTime _ \<Rightarrow> Some 25 | VJson _ \<Rightarrow> Some 26
     | _ \<Rightarrow> vkind v)"

definition key_width :: "nat \<Rightarrow> nat option" where
  "key_width t =
     (if t \<in> {15, 23, 26} then None
      else Some (if t \<in> {2, 6, 10} then 1 else if t \<in> {5, 9} then 2 else if t \<in> {4, 8, 14, 16} then 4
        else if t \<in> {11, 12, 22, 24} then 16 else 8))"

definition column_keys :: "('j \<Rightarrow> string) \<Rightarrow> nat \<Rightarrow> bytes set" where
  "column_keys js t = {k. \<exists>v. key_kind v = Some t \<and> from_value js v = Some k}"

lemma length_flip_first [simp]: "length (flip_first bs) = length bs"
  by (simp add: flip_first_def)

lemmas key_defs = from_bool_def from_int64_def from_int32_def from_int16_def from_int8_def from_uint64_def
  from_uint32_def from_uint16_def from_uint8_def from_double_def from_float_def from_int128_def from_uint128_def
  from_interval_def from_string_def from_blob_def

lemma key_shape:
  assumes "key_kind v = Some t" "from_value js v = Some k"
  shows "case key_width t of Some w \<Rightarrow> length k = w \<and> 0 < w | None \<Rightarrow> \<exists>bs. k = escape bs @ [0]"
  using assms
  by (cases v) (auto simp: key_kind_def vkind_def key_width_def key_defs Let_def split: if_splits)

lemma escape_no_zero: "0 \<notin> set (escape bs)"
  by (induction bs) auto

lemma column_key_shape:
  "k \<in> column_keys js t \<Longrightarrow> case key_width t of Some w \<Rightarrow> length k = w \<and> 0 < w | None \<Rightarrow> \<exists>bs. k = escape bs @ [0]"
  using key_shape by (auto simp: column_keys_def)

lemma column_keys_prefix_free: "prefix_free (column_keys js t)"
proof -
  have "s = []" if ks: "k \<in> column_keys js t" "k @ s \<in> column_keys js t" for k s
  proof (cases "key_width t")
    case None
    then obtain x y where "k = escape x @ [0]" "k @ s = escape y @ [0]"
      using column_key_shape [OF ks(1)] column_key_shape [OF ks(2)] by auto
    then have "escape x @ 0 # s = escape y @ 0 # []" by simp
    then show ?thesis using append_Cons_eq_iff [of 0 "escape y" "[]" "escape x" s] escape_no_zero [of y] by simp
  next
    case (Some w)
    then show ?thesis using column_key_shape [OF ks(1)] column_key_shape [OF ks(2)] by auto
  qed
  then show ?thesis by (simp add: prefix_free_def)
qed

lemma column_keys_nonempty: "[] \<notin> column_keys js t"
  using column_key_shape [of "[]" js t] by (auto split: option.splits)

section \<open>The primary-key index of a table\<close>

text \<open>
  How \<^verbatim>\<open>table.rs\<close> uses the index: rows whose key has no encoding are skipped, and bounds are encoded before the
  scan.
\<close>

definition pk_art_insert :: "('j \<Rightarrow> string) \<Rightarrow> 'j db_value \<Rightarrow> u64 \<Rightarrow> art_index \<Rightarrow> art_index option" where
  "pk_art_insert js pk off idx = (case from_value js pk of Some key \<Rightarrow> art_insert key off idx | None \<Rightarrow> Some idx)"

definition pk_art_delete :: "('j \<Rightarrow> string) \<Rightarrow> 'j db_value \<Rightarrow> u64 \<Rightarrow> art_index \<Rightarrow> art_index" where
  "pk_art_delete js pk off idx = (case from_value js pk of Some key \<Rightarrow> art_delete key off idx | None \<Rightarrow> idx)"

definition lookup_by_pk_range ::
  "('j \<Rightarrow> string) \<Rightarrow> art_index option \<Rightarrow> 'j db_value option \<Rightarrow> bool \<Rightarrow> 'j db_value option \<Rightarrow> bool \<Rightarrow> u64 \<Rightarrow> u64 list" where
  "lookup_by_pk_range js art_idx lower lower_inclusive upper upper_inclusive max_results =
     (case art_idx of
        Some idx \<Rightarrow> range_scan (Option.bind lower (from_value js)) lower_inclusive
          (Option.bind upper (from_value js)) upper_inclusive max_results idx
      | None \<Rightarrow> [])"

text \<open>The values of a column of kind \<open>t\<close> that its comparison orders strictly: no NaN and no negative zero.\<close>

definition ordered_value :: "nat \<Rightarrow> 'j db_value \<Rightarrow> bool" where
  "ordered_value t v \<longleftrightarrow> vkind v = Some t \<and> vkey v \<noteq> None \<and> v \<noteq> VDouble 0x8000000000000000 \<and> v \<noteq> VFloat 0x80000000"

definition in_bounds :: "'j db_value option \<Rightarrow> bool \<Rightarrow> 'j db_value option \<Rightarrow> bool \<Rightarrow> 'j db_value \<Rightarrow> bool" where
  "in_bounds lower li upper ui v \<longleftrightarrow>
     (case lower of None \<Rightarrow> True | Some l \<Rightarrow> value_cmp l v = Some Less \<or> li \<and> value_cmp l v = Some Equal)
     \<and> (case upper of None \<Rightarrow> True | Some u \<Rightarrow> value_cmp v u = Some Less \<or> ui \<and> value_cmp v u = Some Equal)"

lemma magnitude_inj:
  fixes v w :: "'a::len word"
  assumes "LENGTH('a) = Suc k" "v AND mask k = w AND mask k" "bit v k = bit w k"
  shows "v = w"
proof (rule bit_word_eqI)
  fix n
  assume "n < LENGTH('a)"
  then consider "n < k" | "n = k" using assms(1) by linarith
  then show "bit v n = bit w n"
  proof cases
    case 1
    have "bit (v AND mask k) n = bit (w AND mask k) n" using assms(2) by simp
    then show ?thesis using 1 assms(1) by (simp add: bit_simps)
  qed (use assms(3) in simp)
qed

lemma signed_magnitude_inj:
  fixes v w :: "'a::len word"
  assumes k: "LENGTH('a) = Suc k"
  defines "m \<equiv> \<lambda>w :: 'a word. (if bit w k then - uint (w AND mask k) else uint (w AND mask k))"
  assumes "m v = m w" "v \<noteq> 2 ^ k" "w \<noteq> 2 ^ k"
  shows "v = w"
proof -
  have z: "bit x k = False" if x: "x \<noteq> 2 ^ k" "x AND mask k = 0" for x :: "'a word"
  proof (rule ccontr)
    assume b: "bit x k \<noteq> False"
    have "2 ^ k AND mask k = (0 :: 'a word)" by (rule bit_word_eqI) (simp add: bit_and_iff bit_exp_iff bit_mask_iff)
    moreover have "bit (2 ^ k :: 'a word) k" using k by (simp add: bit_exp_iff)
    ultimately have "x = 2 ^ k" using magnitude_inj [OF k, of x "2 ^ k"] x(2) b by simp
    then show False using x(1) by simp
  qed
  have n: "\<bar>m x\<bar> = uint (x AND mask k)" for x by (simp add: m_def)
  have "uint (v AND mask k) = uint (w AND mask k)" using assms(3) n [of v] n [of w] by simp
  then have e: "v AND mask k = w AND mask k" by (simp only: word_uint_eq_iff)
  show ?thesis
  proof (cases "v AND mask k = 0")
    case True
    then show ?thesis using magnitude_inj [OF k e] z [of v] z [of w] e assms(4,5) by simp
  next
    case False
    then have "uint (v AND mask k) \<noteq> 0" by (simp only: uint_0_iff not_False_eq_True)
    then have "bit v k = bit w k" using assms(3) e by (auto simp: m_def split: if_splits)
    then show ?thesis using magnitude_inj [OF k e] by simp
  qed
qed

lemma zero_rank:
  fixes v w :: "'a::len word"
  assumes k: "LENGTH('a) = Suc k"
  defines "e \<equiv> \<lambda>w :: 'a word. unat (if drop_bit k w \<noteq> 0 then NOT w else w XOR 2 ^ k)"
    and "m \<equiv> \<lambda>w :: 'a word. (if bit w k then - uint (w AND mask k) else uint (w AND mask k))"
  assumes "m v = 0" "m w = 0" "e v = e w"
  shows "v = w"
proof -
  have r: "int (e x) = 2 ^ k + m x - of_bool (bit x k)" for x unfolding e_def m_def by (rule float_rank [OF k])
  have b: "bit v k = bit w k" using r [of v] r [of w] assms(4-6) by (cases "bit v k"; cases "bit w k") simp_all
  have "uint (x AND mask k) = 0" if "m x = 0" for x using that by (simp add: m_def split: if_splits)
  then have "v AND mask k = w AND mask k" using assms(4,5) by (simp only: word_uint_eq_iff)
  then show ?thesis using b by (rule magnitude_inj [OF k])
qed

lemma zero_keys_differ:
  "from_double a = from_double b \<Longrightarrow> f64_key a = 0 \<Longrightarrow> f64_key b = 0 \<Longrightarrow> a = b"
  "from_float c = from_float d \<Longrightarrow> f32_key c = 0 \<Longrightarrow> f32_key d = 0 \<Longrightarrow> c = d"
proof -
  have b8: "unat w < 256 ^ 8" for w :: u64 using unsigned_less [of w] by simp
  have b4: "unat w < 256 ^ 4" for w :: u32 using unsigned_less [of w] by simp
  have m: "mask 63 = (0x7FFFFFFFFFFFFFFF :: u64)" by (simp add: mask_eq_exp_minus_1)
  have m': "mask 31 = (0x7FFFFFFF :: u32)" by (simp add: mask_eq_exp_minus_1)
  show "from_double a = from_double b \<Longrightarrow> f64_key a = 0 \<Longrightarrow> f64_key b = 0 \<Longrightarrow> a = b"
    using zero_rank [where 'a = 64 and k = 63, of a b]
    by (simp only: from_double_def be_bytes_inj [OF b8 b8] f64_key_def m push_bit_of_1) simp
  show "from_float c = from_float d \<Longrightarrow> f32_key c = 0 \<Longrightarrow> f32_key d = 0 \<Longrightarrow> c = d"
    using zero_rank [where 'a = 32 and k = 31, of c d]
    by (simp only: from_float_def be_bytes_inj [OF b4 b4] f32_key_def m' push_bit_of_1) simp
qed

lemma f64_key_inj:
  assumes "f64_key a = f64_key b" "a \<noteq> 0x8000000000000000" "b \<noteq> 0x8000000000000000"
  shows "a = b"
proof (rule signed_magnitude_inj [where k = 63])
  have m: "mask 63 = (0x7FFFFFFFFFFFFFFF :: u64)" by (simp add: mask_eq_exp_minus_1)
  show "(if bit a 63 then - uint (a AND mask 63) else uint (a AND mask 63))
      = (if bit b 63 then - uint (b AND mask 63) else uint (b AND mask 63))"
    using assms(1) by (simp only: f64_key_def m)
qed (use assms(2,3) in simp_all)

lemma f32_key_inj:
  assumes "f32_key a = f32_key b" "a \<noteq> 0x80000000" "b \<noteq> 0x80000000"
  shows "a = b"
proof (rule signed_magnitude_inj [where k = 31])
  have m: "mask 31 = (0x7FFFFFFF :: u32)" by (simp add: mask_eq_exp_minus_1)
  show "(if bit a 31 then - uint (a AND mask 31) else uint (a AND mask 31))
      = (if bit b 31 then - uint (b AND mask 31) else uint (b AND mask 31))"
    using assms(1) by (simp only: f32_key_def m)
qed (use assms(2,3) in simp_all)

text \<open>The value with a given comparison key, for the kinds whose keys determine it.\<close>

definition unkey :: "nat \<times> int list \<Rightarrow> 'j db_value" where
  "unkey p = (case p of (t, xs) \<Rightarrow>
     if t = 15 then VString (map char_of xs) else
     if t = 22 then VInternalID \<lparr>table_id = word_of_int (xs ! 0), offset = word_of_int (xs ! 1)\<rparr> else
     let i = xs ! 0 in
       if t = 2 then VBool (i = 1) else if t = 3 then VInt64 (word_of_int i) else if t = 4 then VInt32 (word_of_int i)
       else if t = 5 then VInt16 (word_of_int i) else if t = 6 then VInt8 (word_of_int i)
       else if t = 7 then VUInt64 (word_of_int i) else if t = 8 then VUInt32 (word_of_int i)
       else if t = 9 then VUInt16 (word_of_int i) else if t = 10 then VUInt8 (word_of_int i)
       else if t = 11 then VInt128 (word_of_int i) else if t = 12 then VUInt128 (word_of_int i)
       else if t = 16 then VDate (word_of_int i) else if t = 17 then VTimestamp (word_of_int i)
       else if t = 18 then VTimestampTz (word_of_int i) else if t = 19 then VTimestampNs (word_of_int i)
       else if t = 20 then VTimestampMs (word_of_int i) else VTimestampSec (word_of_int i))"

lemma vkey_unkey:
  assumes "vkey a = Some p"
  shows "if fst p = 13 then \<exists>x. a = VDouble x \<and> p = (13, [f64_key x])
    else if fst p = 14 then \<exists>x. a = VFloat x \<and> p = (14, [f32_key x]) else a = unkey p"
  using assms by (cases a) (auto simp: vkey_def unkey_def o_def split: if_splits)

lemma vkey_inj:
  assumes "vkey a = vkey b" "ordered_value t a" "ordered_value t b"
  shows "a = b"
proof -
  obtain p where a: "vkey a = Some p" using assms(2) by (auto simp: ordered_value_def)
  then have b: "vkey b = Some p" using assms(1) by simp
  consider (d) "fst p = 13" | (f) "fst p = 14" | (o) "fst p \<noteq> 13" "fst p \<noteq> 14" by blast
  then show ?thesis
  proof cases
    case d
    then obtain x y where "a = VDouble x" "b = VDouble y" "f64_key x = f64_key y"
      using vkey_unkey [OF a] vkey_unkey [OF b] by auto
    then show ?thesis using assms(2,3) f64_key_inj [of x y] by (simp add: ordered_value_def)
  next
    case f
    then obtain x y where "a = VFloat x" "b = VFloat y" "f32_key x = f32_key y"
      using vkey_unkey [OF a] vkey_unkey [OF b] by auto
    then show ?thesis using assms(2,3) f32_key_inj [of x y] by (simp add: ordered_value_def)
  next
    case o
    then show ?thesis using vkey_unkey [OF a] vkey_unkey [OF b] by simp
  qed
qed

lemma zero_vkey: "float_zero a \<Longrightarrow> float_zero b \<Longrightarrow> ordered_value t a \<Longrightarrow> ordered_value t b \<Longrightarrow> vkey a = vkey b"
  by (cases a; simp; cases b; simp add: ordered_value_def vkind_def vkey_def split: if_splits)

definition pk_key :: "('j \<Rightarrow> string) \<Rightarrow> 'j db_value \<Rightarrow> bytes" where
  "pk_key js v = the (from_value js v)"

lemma ordered_vkey: "ordered_value t v \<Longrightarrow> \<exists>x. vkey v = Some (t, x)"
  using vkind_key [of v] by (auto simp: ordered_value_def)

lemma ordered_cmp:
  assumes "ordered_value t a" "ordered_value t b"
  shows "value_cmp a b = Some (cmp_lin (pk_key js a) (pk_key js b))" "from_value js a = Some (pk_key js a)"
proof -
  obtain x y where "vkey a = Some (t, x)" "vkey b = Some (t, y)" using assms [THEN ordered_vkey] by blast
  then have v: "value_cmp a b = Some (cmp_lin x y)" by (simp only: value_cmp_key key_cmp_def) simp
  obtain ka kb where k: "from_value js a = Some ka" "from_value js b = Some kb"
      "cmp_lin x y = cmp_lin ka kb \<or> float_zero a \<and> float_zero b \<and> a \<noteq> b"
    using key_order [OF v, of js] by blast
  have "\<not> (float_zero a \<and> float_zero b \<and> a \<noteq> b)" using vkey_inj [OF zero_vkey assms] assms by blast
  then show "value_cmp a b = Some (cmp_lin (pk_key js a) (pk_key js b))" "from_value js a = Some (pk_key js a)"
    using k v by (simp_all only: pk_key_def option.sel) simp_all
qed

definition column_values :: "nat \<Rightarrow> 'j db_value set" where
  "column_values t = {v. ordered_value t v}"

lemma pk_key_facts:
  "v \<in> column_values t \<Longrightarrow> from_value js v = Some (pk_key js v)"
  "v \<in> column_values t \<Longrightarrow> pk_key js v \<in> column_keys js t"
  "v \<in> column_values t \<Longrightarrow> w \<in> column_values t \<Longrightarrow> value_cmp v w = Some (cmp_lin (pk_key js v) (pk_key js w))"
  "inj_on (pk_key js) (column_values t)"
proof -
  show f: "v \<in> column_values t \<Longrightarrow> from_value js v = Some (pk_key js v)" for v
    using ordered_cmp(2) by (simp add: column_values_def)
  have "vkind v = Some k \<Longrightarrow> key_kind v = Some k" for v :: "'a db_value" and k
    by (cases v) (simp_all add: key_kind_def vkind_def)
  then have "v \<in> column_values t \<Longrightarrow> key_kind v = Some t" by (simp add: column_values_def ordered_value_def)
  then show "v \<in> column_values t \<Longrightarrow> pk_key js v \<in> column_keys js t" using f by (auto simp: column_keys_def)
  show "v \<in> column_values t \<Longrightarrow> w \<in> column_values t \<Longrightarrow> value_cmp v w = Some (cmp_lin (pk_key js v) (pk_key js w))"
    using ordered_cmp(1) by (simp add: column_values_def)
  show "inj_on (pk_key js) (column_values t)"
  proof (rule inj_onI)
    fix v w :: "'a db_value"
    assume v: "v \<in> column_values t" "w \<in> column_values t" "pk_key js v = pk_key js w"
    then have o: "ordered_value t v" "ordered_value t w" by (simp_all add: column_values_def)
    obtain x y where k: "vkey v = Some (t, x)" "vkey w = Some (t, y)" using o [THEN ordered_vkey] by blast
    have "value_cmp v w = Some (cmp_lin x y)" using k by (simp only: value_cmp_key key_cmp_def) simp
    moreover have "value_cmp v w = Some (cmp_lin (pk_key js w) (pk_key js w))" using ordered_cmp(1) [OF o, of js] v(3) by simp
    ultimately have "x = y" by (metis cmp_lin_simps(2) option.inject)
    then show "v = w" using vkey_inj [OF _ o] k by simp
  qed
qed

definition encode_op :: "('j \<Rightarrow> string) \<Rightarrow> ('j db_value, u64) store_op \<Rightarrow> (bytes, u64) store_op" where
  "encode_op js = map_store_op (pk_key js) id"

lemma op_key_encode: "op_key (encode_op js op) = pk_key js (op_key op)"
  by (cases op) (simp_all add: encode_op_def)

lemma encode_run:
  "\<forall>op \<in> set ops. op_key op \<in> column_values t \<Longrightarrow>
    store_run (pk_art_insert js) (pk_art_delete js) ops idx = store_run art_insert art_delete (map (encode_op js) ops) idx"
proof (induction ops arbitrary: idx)
  case (Cons op ops)
  then show ?case
    by (cases op) (auto simp: encode_op_def pk_art_insert_def pk_art_delete_def pk_key_facts(1) [where t = t] split: option.split)
qed simp

text \<open>The multimap over values and the multimap over their keys.\<close>

definition encodes :: "('j \<Rightarrow> string) \<Rightarrow> nat \<Rightarrow> ('j db_value \<Rightarrow> u64 list) \<Rightarrow> (bytes \<Rightarrow> u64 list) \<Rightarrow> bool" where
  "encodes js t m b \<longleftrightarrow> (\<forall>v \<in> column_values t. b (pk_key js v) = m v) \<and> (\<forall>k. k \<notin> pk_key js ` column_values t \<longrightarrow> b k = [])
     \<and> (\<forall>v. v \<notin> column_values t \<longrightarrow> m v = []) \<and> finite {k. b k \<noteq> []}"

lemma encodes_upd:
  assumes "encodes js t m b" "v \<in> column_values t"
  shows "encodes js t (m(v := f (m v))) (b(pk_key js v := f (b (pk_key js v))))"
proof -
  have "pk_key js w = pk_key js v \<longleftrightarrow> w = v" if "w \<in> column_values t" for w
    using that assms(2) pk_key_facts(4) [of js t] by (metis inj_onD)
  moreover have "finite {k. (b(pk_key js v := f (b (pk_key js v)))) k \<noteq> []}"
    by (rule finite_subset [of _ "insert (pk_key js v) {k. b k \<noteq> []}"]) (use assms(1) in \<open>auto simp: encodes_def\<close>)
  ultimately show ?thesis using assms unfolding encodes_def by (intro conjI) auto
qed

lemma encodes_fold:
  "\<forall>op \<in> set ops. op_key op \<in> column_values t \<Longrightarrow> encodes js t m b \<Longrightarrow>
    encodes js t (fold spec_op ops m) (fold spec_op (map (encode_op js) ops) b)"
proof (induction ops arbitrary: m b)
  case (Cons op ops)
  have "encodes js t (spec_op op m) (spec_op (encode_op js op) b)"
  proof (cases op)
    case (Ins v off)
    then show ?thesis using encodes_upd [OF Cons.prems(2), of v "\<lambda>xs. xs @ [off]"] Cons.prems(1) by (simp add: encode_op_def)
  next
    case (Del v off)
    then show ?thesis using encodes_upd [OF Cons.prems(2), of v "remove1 off"] Cons.prems(1) by (simp add: encode_op_def)
  qed
  then show ?case using Cons by simp
qed simp

lemma bounds_encoded:
  assumes "v \<in> column_values t" "\<forall>l. lower = Some l \<longrightarrow> l \<in> column_values t" "\<forall>u. upper = Some u \<longrightarrow> u \<in> column_values t"
  shows "between (Option.bind lower (from_value js)) li (Option.bind upper (from_value js)) ui (pk_key js v)
    \<longleftrightarrow> in_bounds lower li upper ui v"
proof -
  have c: "(value_cmp a b = Some Less) = (pk_key js a < pk_key js b)" "(value_cmp a b = Some Equal) = (pk_key js a = pk_key js b)"
    if "a \<in> column_values t" "b \<in> column_values t" for a b
    using pk_key_facts(3) [OF that, of js] by simp_all
  have "(case Option.bind lower (from_value js) of None \<Rightarrow> True | Some l \<Rightarrow> if li then l \<le> pk_key js v else l < pk_key js v)
      = (case lower of None \<Rightarrow> True | Some l \<Rightarrow> value_cmp l v = Some Less \<or> li \<and> value_cmp l v = Some Equal)"
    using assms(1,2) by (cases lower) (auto simp: pk_key_facts(1) [where t = t] c le_less [where 'a = bytes])
  moreover have "(case Option.bind upper (from_value js) of None \<Rightarrow> True | Some u \<Rightarrow> if ui then pk_key js v \<le> u else pk_key js v < u)
      = (case upper of None \<Rightarrow> True | Some u \<Rightarrow> value_cmp v u = Some Less \<or> ui \<and> value_cmp v u = Some Equal)"
    using assms(1,3) by (cases upper) (auto simp: pk_key_facts(1) [where t = t] c le_less [where 'a = bytes])
  ultimately show ?thesis unfolding between_def in_bounds_def by (rule arg_cong2 [where f = "(\<and>)"])
qed

lemma spec_scan_values:
  assumes e: "encodes js t m b" and "\<forall>l. lower = Some l \<longrightarrow> l \<in> column_values t" "\<forall>u. upper = Some u \<longrightarrow> u \<in> column_values t"
  shows "\<exists>vs. sorted_wrt (\<lambda>v w. value_cmp v w = Some Less) vs \<and> set vs = {v. m v \<noteq> [] \<and> in_bounds lower li upper ui v}
    \<and> spec_scan (Option.bind lower (from_value js)) li (Option.bind upper (from_value js)) ui b = concat (map m vs)"
proof -
  let ?P = "between (Option.bind lower (from_value js)) li (Option.bind upper (from_value js)) ui"
  let ?ks = "filter ?P (sorted_list_of_set {k. b k \<noteq> []})" and ?C = "column_values t :: 'a db_value set"
  define vs where "vs = map (inv_into ?C (pk_key js)) ?ks"
  have fin: "finite {k. b k \<noteq> []}" using e by (simp add: encodes_def)
  have ks: "set ?ks = {k. b k \<noteq> [] \<and> ?P k}" using fin by auto
  have "b k \<noteq> [] \<Longrightarrow> k \<in> pk_key js ` ?C" for k using e by (auto simp: encodes_def)
  then have inv: "inv_into ?C (pk_key js) k \<in> ?C" "pk_key js (inv_into ?C (pk_key js) k) = k" if "k \<in> set ?ks" for k
    using that unfolding ks by (auto intro: inv_into_into f_inv_into_f)
  have keys: "map (pk_key js) vs = ?ks" unfolding vs_def map_map o_def by (rule map_idI) (rule inv(2))
  have sub: "set vs \<subseteq> ?C" unfolding vs_def using inv(1) by auto
  have "sorted_wrt (<) ?ks" by (intro sorted_wrt_filter) simp
  then have "sorted_wrt (\<lambda>v w. pk_key js v < pk_key js w) vs" unfolding keys [symmetric] by (simp add: sorted_wrt_map)
  then have "sorted_wrt (\<lambda>v w. value_cmp v w = Some Less) vs"
    using sub by (elim sorted_wrt_mono_rel [rotated]) (simp add: pk_key_facts(3) [where t = t and js = js] subset_iff)
  moreover have "v \<in> set vs \<longleftrightarrow> m v \<noteq> [] \<and> in_bounds lower li upper ui v" for v
  proof (cases "v \<in> ?C")
    case True
    have "v \<in> set vs \<longleftrightarrow> pk_key js v \<in> set (map (pk_key js) vs)"
      using True sub pk_key_facts(4) [of js t] by (auto simp: inj_on_def subset_iff)
    also have "\<dots> \<longleftrightarrow> m v \<noteq> [] \<and> in_bounds lower li upper ui v"
      unfolding keys ks using True e bounds_encoded [OF True assms(2,3)] by (simp add: encodes_def)
    finally show ?thesis .
  next
    case False
    then show ?thesis using sub e by (auto simp: encodes_def)
  qed
  moreover have "map b ?ks = map m vs" unfolding keys [symmetric] using e sub by (auto simp: encodes_def)
  ultimately show ?thesis by (auto simp: spec_scan_def)
qed

lemma key_zeros:
  assumes "value_cmp a b = Some ord" "float_zero a" "float_zero b" "a \<noteq> b"
  shows "ord = Equal \<and> from_value js a \<noteq> from_value js b"
proof (cases a)
  case (VDouble x)
  with assms obtain y where y: "b = VDouble y" "ord = cmp_lin (f64_key x) (f64_key y)"
    by (auto simp: value_cmp_def f64_partial_cmp_def split: db_value.splits if_splits)
  then show ?thesis using assms(2-4) VDouble zero_keys_differ(1) [of x y] by auto
next
  case (VFloat x)
  with assms obtain y where y: "b = VFloat y" "ord = cmp_lin (f32_key x) (f32_key y)"
    by (auto simp: value_cmp_def f32_partial_cmp_def split: db_value.splits if_splits)
  then show ?thesis using assms(2-4) VFloat zero_keys_differ(2) [of x y] by auto
qed (use assms(2) in simp_all)

section \<open>Properties\<close>

text \<open>C38. Keys preserve order: whenever the value comparison orders two values, both have keys, and the
  lexicographic order of the keys is the order of the values. The one exception are the two floating-point zeros,
  which compare equal and have different keys.\<close>

theorem art_key_order:
  assumes "value_cmp a b = Some ord"
  shows "\<exists>ka kb. from_value js a = Some ka \<and> from_value js b = Some kb
    \<and> (if float_zero a \<and> float_zero b \<and> a \<noteq> b then ord = Equal \<and> ka \<noteq> kb else cmp_lin ka kb = ord)"
proof -
  obtain ka kb where k: "from_value js a = Some ka" "from_value js b = Some kb"
      "ord = cmp_lin ka kb \<or> float_zero a \<and> float_zero b \<and> a \<noteq> b"
    using key_order [OF assms, of js] by blast
  have "ord = Equal \<and> ka \<noteq> kb" if "float_zero a \<and> float_zero b \<and> a \<noteq> b"
    using key_zeros [OF assms, of js] that k by simp
  then show ?thesis using k by auto
qed

text \<open>C39. A table's range scan over its primary-key index answers the range query. After any sequence of
  insertions and deletions of values of one ordered column type (no NaN, no negative zero), none of which panics,
  \<open>lookup_by_pk_range\<close> returns the row offsets of exactly the stored values within the bounds, in ascending order of
  the values, cut off at the limit.\<close>

theorem pk_range_scan:
  assumes ops: "\<forall>op \<in> set ops. ordered_value t (op_key op)" "length ops < 2 ^ 64"
    and bounds: "\<forall>l. lower = Some l \<longrightarrow> ordered_value t l" "\<forall>u. upper = Some u \<longrightarrow> ordered_value t u"
  defines "m \<equiv> fold spec_op ops (\<lambda>_. [])"
  shows "\<exists>idx vs. store_run (pk_art_insert js) (pk_art_delete js) ops (art_new name) = Some idx
    \<and> sorted_wrt (\<lambda>v w. value_cmp v w = Some Less) vs \<and> set vs = {v. m v \<noteq> [] \<and> in_bounds lower li upper ui v}
    \<and> lookup_by_pk_range js (Some idx) lower li upper ui mx = take (unat mx) (concat (map m vs))"
proof -
  have c: "\<forall>op \<in> set ops. op_key op \<in> column_values t" using ops(1) by (simp add: column_values_def)
  have b: "\<forall>l. lower = Some l \<longrightarrow> l \<in> column_values t" "\<forall>u. upper = Some u \<longrightarrow> u \<in> column_values t"
    using bounds by (auto simp: column_values_def)
  have k: "\<forall>op \<in> set (map (encode_op js) ops). op_key op \<in> column_keys js t"
    using c pk_key_facts(2) by (auto simp: op_key_encode)
  let ?b = "fold spec_op (map (encode_op js) ops) (\<lambda>_. [])"
  have store: "art_store_ok (column_keys js t) (length (map (encode_op js) ops) + 0) (art_new name)"
    using new_store_ok [OF column_keys_prefix_free column_keys_nonempty] ops(2) by simp
  from art.run_refines [OF store k] obtain idx where
    idx: "store_run art_insert art_delete (map (encode_op js) ops) (art_new name) = Some idx"
      "art_store_ok (column_keys js t) 0 idx" "find_all (root idx) = fold spec_op (map (encode_op js) ops) (find_all (root (art_new name)))"
    by blast
  have f: "find_all (root idx) = ?b" using idx(3) by (simp add: art_new_def new_node4_tree)
  have "encodes js t (\<lambda>_. []) (\<lambda>_. [])" by (simp add: encodes_def)
  from encodes_fold [OF c this] have e: "encodes js t m ?b" by (simp add: m_def)
  from spec_scan_values [OF e b, of li ui] obtain vs where vs: "sorted_wrt (\<lambda>v w. value_cmp v w = Some Less) vs"
      "set vs = {v. m v \<noteq> [] \<and> in_bounds lower li upper ui v}"
      "spec_scan (Option.bind lower (from_value js)) li (Option.bind upper (from_value js)) ui ?b = concat (map m vs)"
    by blast
  have "lookup_by_pk_range js (Some idx) lower li upper ui mx = take (unat mx) (concat (map m vs))"
    using range_scan_spec [of idx] idx(2) f vs(3) by (simp add: lookup_by_pk_range_def art_store_ok_def)
  then show ?thesis using encode_run [OF c] idx(1) vs(1,2) by auto
qed

theorem art_key_order_witness:
  "\<exists>ka kb. from_value (\<lambda>_ :: unit. []) (VInt64 (- 5)) = Some ka \<and> from_value (\<lambda>_ :: unit. []) (VInt64 3) = Some kb \<and> ka < kb"
proof -
  have "value_cmp (VInt64 (- 5)) (VInt64 3 :: unit db_value) = Some Less" by (simp add: value_cmp_def)
  from art_key_order [OF this, of "\<lambda>_. []"] show ?thesis by simp
qed

lemma strict_singleton:
  assumes "sorted_wrt R xs" "set xs = {x}" "\<not> R x x"
  shows "xs = [x]"
  using assms by (cases xs; cases "tl xs") auto

theorem pk_range_scan_witness:
  "\<exists>idx. store_run (pk_art_insert (\<lambda>_ :: unit. [])) (pk_art_delete (\<lambda>_. []))
      [Ins (VInt64 5) 0, Ins (VInt64 (- 3)) 1, Ins (VInt64 9) 2, Ins (VInt64 4) 7, Del (VInt64 4) 7] (art_new ''pk'') = Some idx
    \<and> lookup_by_pk_range (\<lambda>_ :: unit. []) (Some idx) (Some (VInt64 (- 3))) True (Some (VInt64 5)) False 10 = [1]"
proof -
  let ?ops = "[Ins (VInt64 5) 0, Ins (VInt64 (- 3)) 1, Ins (VInt64 9) 2, Ins (VInt64 4) 7, Del (VInt64 4) 7] :: (unit db_value, u64) store_op list"
  let ?m = "fold spec_op ?ops (\<lambda>_. [])"
  have o: "ordered_value 3 (VInt64 x :: unit db_value)" for x by (simp add: ordered_value_def vkind_def vkey_def)
  have m: "{v. ?m v \<noteq> [] \<and> in_bounds (Some (VInt64 (- 3))) True (Some (VInt64 5)) False v} = {VInt64 (- 3)}"
    by (auto simp: in_bounds_def value_cmp_def split: if_splits)
  have a: "\<forall>op \<in> set ?ops. ordered_value 3 (op_key op)" "length ?ops < 2 ^ 64" using o by simp_all
  have b: "\<forall>l. Some (VInt64 (- 3) :: unit db_value) = Some l \<longrightarrow> ordered_value 3 l"
    "\<forall>u. Some (VInt64 5 :: unit db_value) = Some u \<longrightarrow> ordered_value 3 u" using o by simp_all
  obtain idx vs where r: "store_run (pk_art_insert (\<lambda>_ :: unit. [])) (pk_art_delete (\<lambda>_. [])) ?ops (art_new ''pk'') = Some idx"
      "sorted_wrt (\<lambda>v w. value_cmp v w = Some Less) vs"
      "set vs = {v. ?m v \<noteq> [] \<and> in_bounds (Some (VInt64 (- 3))) True (Some (VInt64 5)) False v}"
      "lookup_by_pk_range (\<lambda>_ :: unit. []) (Some idx) (Some (VInt64 (- 3))) True (Some (VInt64 5)) False 10 = take (unat (10 :: u64)) (concat (map ?m vs))"
    using pk_range_scan [OF a b, where js = "\<lambda>_. []" and name = "''pk''" and li = True and ui = False and mx = 10] that by blast
  have "vs = [VInt64 (- 3)]" using strict_singleton [OF r(2) r(3) [unfolded m]] by (simp add: value_cmp_def)
  then have "concat (map ?m vs) = [1]" by simp
  then show ?thesis using r(1,4) by (intro exI [of _ idx] conjI) simp_all
qed

end
