(* ===== verification/Csr.thy ===== *)
theory Csr
  imports Akar_Prelude
begin

text \<open>
  The compressed sparse row index of graph edges (\<^verbatim>\<open>akar-storage/src/csr.rs\<close>): degrees are counted in 32-bit
  words that wrap, offsets are their running sums, and a second pass over the edges places every neighbour.
  \<open>None\<close> is an index out of range, a panic of the code.
\<close>

section \<open>The index\<close>

type_synonym edge = "u64 \<times> u64"

record csr_index =
  num_nodes :: nat
  num_edges :: nat
  fwd_offsets :: "nat list"
  fwd_adjacency :: "u64 list"
  rev_offsets :: "nat list"
  rev_adjacency :: "u64 list"

definition csr_new :: csr_index where
  "csr_new = \<lparr>num_nodes = 0, num_edges = 0, fwd_offsets = [], fwd_adjacency = [], rev_offsets = [], rev_adjacency = []\<rparr>"

text \<open>One step of the counting loop, on one of the two arrays.\<close>

definition bump :: "nat \<Rightarrow> u32 list \<Rightarrow> u32 list" where
  "bump i degree = (if i < length degree then degree[i := degree ! i + 1] else degree)"

fun count_degrees :: "edge list \<Rightarrow> u32 list \<times> u32 list \<Rightarrow> u32 list \<times> u32 list" where
  "count_degrees [] degs = degs"
| "count_degrees ((src, dst) # edges) (fwd_degree, rev_degree) =
     count_degrees edges (bump (unat src) fwd_degree, bump (unat dst) rev_degree)"

fun push_offsets_from :: "nat \<Rightarrow> u32 list \<Rightarrow> nat list" where
  "push_offsets_from tot [] = []"
| "push_offsets_from tot (d # ds) = (let tot = tot + unat d in tot # push_offsets_from tot ds)"

definition build_offsets :: "u32 list \<Rightarrow> nat list" where
  "build_offsets degree = 0 # push_offsets_from 0 degree"

fun fill_adjacency :: "(edge \<Rightarrow> nat) \<Rightarrow> (edge \<Rightarrow> u64) \<Rightarrow> nat \<Rightarrow> edge list \<Rightarrow> nat list \<Rightarrow> u64 list \<Rightarrow> u64 list option" where
  "fill_adjacency key val n [] pos adj = Some adj"
| "fill_adjacency key val n (e # edges) pos adj =
     (let s = key e in
      if s < n then
        let idx = pos ! s in
        if idx < length adj then fill_adjacency key val n edges (pos[s := idx + 1]) (adj[idx := val e]) else None
      else fill_adjacency key val n edges pos adj)"

definition csr_build :: "edge list \<Rightarrow> nat \<Rightarrow> csr_index option" where
  "csr_build edges n =
     (let (fwd_degree, rev_degree) = count_degrees edges (replicate n 0, replicate n 0);
          fwd_offs = build_offsets fwd_degree; rev_offs = build_offsets rev_degree
      in case fill_adjacency (unat \<circ> fst) snd n edges fwd_offs (replicate (last fwd_offs) 0) of
           None \<Rightarrow> None
         | Some fwd_adj \<Rightarrow>
             (case fill_adjacency (unat \<circ> snd) fst n edges rev_offs (replicate (last rev_offs) 0) of
                None \<Rightarrow> None
              | Some rev_adj \<Rightarrow>
                  Some \<lparr>num_nodes = n, num_edges = length edges, fwd_offsets = fwd_offs, fwd_adjacency = fwd_adj,
                        rev_offsets = rev_offs, rev_adjacency = rev_adj\<rparr>))"

text \<open>\<^verbatim>\<open>adjacency[offsets[pos]..offsets[pos + 1]]\<close>.\<close>

definition neighbor_slice :: "nat list \<Rightarrow> u64 list \<Rightarrow> nat \<Rightarrow> u64 list option" where
  "neighbor_slice offsets adj p =
     (if p + 1 < length offsets \<and> offsets ! p \<le> offsets ! (p + 1) \<and> offsets ! (p + 1) \<le> length adj
      then Some (slice (offsets ! p) (offsets ! (p + 1)) adj) else None)"

definition get_neighbors :: "csr_index \<Rightarrow> u64 \<Rightarrow> bool \<Rightarrow> u64 list option" where
  "get_neighbors idx node_id is_fwd =
     (let p = unat node_id in
      if p \<ge> num_nodes idx then Some []
      else if is_fwd then neighbor_slice (fwd_offsets idx) (fwd_adjacency idx) p
      else neighbor_slice (rev_offsets idx) (rev_adjacency idx) p)"

definition csr_add_edge :: "u64 \<Rightarrow> u64 \<Rightarrow> csr_index \<Rightarrow> string + unit" where
  "csr_add_edge src_id dst_id idx = Inl ''CsrIndex is immutable after build(); use build() to construct from edges''"

section \<open>Counting\<close>

definition occurs :: "(edge \<Rightarrow> nat) \<Rightarrow> edge list \<Rightarrow> nat \<Rightarrow> nat" where
  "occurs key edges i = length (filter (\<lambda>e. key e = i) edges)"

lemma occurs_simps [simp]:
  "occurs key [] i = 0"
  "occurs key (e # es) i = (if key e = i then Suc (occurs key es i) else occurs key es i)"
  "occurs key (es @ fs) i = occurs key es i + occurs key fs i"
  by (simp_all add: occurs_def)

lemma occurs_le: "occurs key es i \<le> length es"
  by (simp add: occurs_def)

lemma bump_map:
  "bump s (map (\<lambda>i. word_of_nat (f i)) [0..<n]) = map (\<lambda>i. word_of_nat (if i = s then Suc (f i) else f i)) [0..<n]"
  by (auto simp: bump_def intro!: nth_equalityI simp: nth_list_update add.commute)

lemma count_degrees_occurs:
  "count_degrees es (map (\<lambda>i. word_of_nat (f i)) [0..<n], map (\<lambda>i. word_of_nat (g i)) [0..<n])
    = (map (\<lambda>i. word_of_nat (f i + occurs (unat \<circ> fst) es i)) [0..<n],
       map (\<lambda>i. word_of_nat (g i + occurs (unat \<circ> snd) es i)) [0..<n])"
proof (induction es arbitrary: f g)
  case (Cons e es)
  obtain a b where e: "e = (a, b)" by (cases e)
  have "(\<lambda>i. word_of_nat ((if i = unat a then Suc (f i) else f i) + occurs (unat \<circ> fst) es i) :: u32)
      = (\<lambda>i. word_of_nat (f i + occurs (unat \<circ> fst) (e # es) i))"
    "(\<lambda>i. word_of_nat ((if i = unat b then Suc (g i) else g i) + occurs (unat \<circ> snd) es i) :: u32)
      = (\<lambda>i. word_of_nat (g i + occurs (unat \<circ> snd) (e # es) i))"
    by (auto simp: fun_eq_iff e)
  then show ?case using Cons.IH [of "\<lambda>i. if i = unat a then Suc (f i) else f i" "\<lambda>i. if i = unat b then Suc (g i) else g i"]
    by (simp only: e count_degrees.simps bump_map)
qed simp

definition start :: "(edge \<Rightarrow> nat) \<Rightarrow> edge list \<Rightarrow> nat \<Rightarrow> nat" where
  "start key es i = (\<Sum>j<i. occurs key es j)"

lemma push_offsets_nth:
  "length (push_offsets_from t ds) = length ds"
  "i < length ds \<Longrightarrow> push_offsets_from t ds ! i = t + sum_list (map unat (take (Suc i) ds))"
proof (induction ds arbitrary: t i)
  case (Cons d ds)
  {
    case 1
    show ?case using Cons.IH(1) by (simp add: Let_def)
  next
    case 2
    then show ?case using Cons.IH(2) by (cases i) (simp_all add: Let_def)
  }
qed simp_all

lemma build_offsets_start:
  assumes "ds = map (\<lambda>i. word_of_nat (occurs key es i)) [0..<n]" "length es < 2 ^ 32"
  shows "length (build_offsets ds) = Suc n" "i \<le> n \<Longrightarrow> build_offsets ds ! i = start key es i"
proof -
  show "length (build_offsets ds) = Suc n" using assms(1) by (simp add: build_offsets_def push_offsets_nth)
  have "unat (word_of_nat (occurs key es j) :: u32) = occurs key es j" for j
    using occurs_le [of key es j] assms(2) by (simp add: unat_of_nat take_bit_nat_eq_self_iff)
  then have "map unat ds = map (occurs key es) [0..<n]" using assms(1) by simp
  then have "sum_list (map unat (take i ds)) = start key es i" if "i \<le> n" for i
    using that by (simp add: take_map [symmetric] start_def) (simp add: take_map take_upt sum_list_distinct_conv_sum_set atLeast0LessThan)
  moreover have "build_offsets ds ! i = sum_list (map unat (take i ds))" if "i \<le> n"
    using that assms(1) by (cases i) (simp_all add: build_offsets_def push_offsets_nth)
  ultimately show "i \<le> n \<Longrightarrow> build_offsets ds ! i = start key es i" by simp
qed

lemma start_mono: "i < k \<Longrightarrow> start key es i + occurs key es i \<le> start key es k"
proof -
  assume "i < k"
  then have "start key es (Suc i) \<le> start key es k" unfolding start_def by (intro sum_mono2) auto
  then show ?thesis by (simp add: start_def)
qed

section \<open>Filling\<close>

text \<open>After the edges \<open>ps\<close> of \<open>es\<close> every slot of a node that they fill holds its neighbour.\<close>

definition filled :: "(edge \<Rightarrow> nat) \<Rightarrow> (edge \<Rightarrow> u64) \<Rightarrow> nat \<Rightarrow> edge list \<Rightarrow> edge list \<Rightarrow> u64 list \<Rightarrow> bool" where
  "filled key val n es ps adj \<longleftrightarrow> length adj = start key es n
     \<and> (\<forall>i<n. \<forall>j < occurs key ps i. adj ! (start key es i + j) = val (filter (\<lambda>e. key e = i) ps ! j))"

lemma fill_ok:
  assumes "es = ps @ qs" "length pos = m" "n \<le> m" "\<forall>i<n. pos ! i = start key es i + occurs key ps i" "filled key val n es ps adj"
  shows "\<exists>adj'. fill_adjacency key val n qs pos adj = Some adj' \<and> filled key val n es es adj'"
  using assms
proof (induction qs arbitrary: ps pos adj)
  case (Cons e qs)
  show ?case
  proof (cases "key e < n")
    case False
    then have "filled key val n es (ps @ [e]) adj" using Cons.prems(5) by (auto simp: filled_def)
    then show ?thesis using Cons.IH [of "ps @ [e]" pos adj] Cons.prems False by simp
  next
    case True
    let ?s = "key e"
    let ?idx = "start key es ?s + occurs key ps ?s"
    have "occurs key ps ?s < occurs key es ?s" using Cons.prems(1) by simp
    moreover have "start key es ?s + occurs key es ?s \<le> start key es n" using start_mono [OF True] .
    ultimately have idx: "?idx < length adj" using Cons.prems(5) by (simp add: filled_def)
    have "filled key val n es (ps @ [e]) (adj[?idx := val e])"
    proof -
      have "(adj[?idx := val e]) ! (start key es i + j) = val (filter (\<lambda>e. key e = i) (ps @ [e]) ! j)"
        if ij: "i < n" "j < occurs key (ps @ [e]) i" for i j
      proof (cases "i = ?s \<and> j = occurs key ps ?s")
        case True
        then show ?thesis using idx by (simp add: nth_append occurs_def)
      next
        case False
        then have j: "j < occurs key ps i" using ij(2) by (auto split: if_splits)
        have "start key es i + j \<noteq> ?idx"
        proof (cases i ?s rule: linorder_cases)
          case less
          have "j < occurs key es i" using j Cons.prems(1) by simp
          then show ?thesis using start_mono [OF less, of key es] by simp
        next
          case greater
          have "occurs key ps ?s < occurs key es ?s" using Cons.prems(1) by simp
          then show ?thesis using start_mono [OF greater, of key es] by simp
        qed (use False j in auto)
        then show ?thesis using j ij(1) Cons.prems(5) by (simp add: filled_def nth_append occurs_def)
      qed
      then show ?thesis using Cons.prems(5) by (simp add: filled_def)
    qed
    moreover have "\<forall>i<n. (pos[?s := ?idx + 1]) ! i = start key es i + occurs key (ps @ [e]) i"
      using Cons.prems(2-4) True by (auto simp: nth_list_update)
    ultimately show ?thesis
      using Cons.IH [of "ps @ [e]" "pos[?s := ?idx + 1]" "adj[?idx := val e]"] Cons.prems True idx by (simp add: Let_def)
  qed
qed simp

lemma neighbor_slice_ok:
  assumes "length offs = Suc n" "\<forall>i \<le> n. offs ! i = start key es i" "filled key val n es es adj" "p < n"
  shows "neighbor_slice offs adj p = Some (map val (filter (\<lambda>e. key e = p) es))"
proof -
  have s: "start key es (Suc p) = start key es p + occurs key es p" by (simp add: start_def)
  have l: "start key es p + occurs key es p \<le> length adj" using start_mono [OF assms(4), of key es] assms(3) by (simp add: filled_def)
  have "slice (start key es p) (start key es (Suc p)) adj = map val (filter (\<lambda>e. key e = p) es)"
    by (rule nth_equalityI) (use s l assms(3,4) in \<open>auto simp: slice_def filled_def occurs_def\<close>)
  then show ?thesis using assms(1,2,4) s l by (simp add: neighbor_slice_def)
qed

lemma side_ok:
  assumes "ds = map (\<lambda>i. word_of_nat (occurs key es i)) [0..<n]" "length es < 2 ^ 32"
  shows "\<exists>adj. fill_adjacency key val n es (build_offsets ds) (replicate (last (build_offsets ds)) 0) = Some adj
    \<and> (\<forall>p<n. neighbor_slice (build_offsets ds) adj p = Some (map val (filter (\<lambda>e. key e = p) es)))"
proof -
  let ?o = "build_offsets ds"
  note o = build_offsets_start [OF assms]
  have "?o \<noteq> []" by (simp add: build_offsets_def)
  then have l: "last ?o = start key es n" using o by (simp add: last_conv_nth)
  have "filled key val n es [] (replicate (last ?o) 0)" by (simp add: filled_def l)
  then obtain adj where "fill_adjacency key val n es ?o (replicate (last ?o) 0) = Some adj" "filled key val n es es adj"
    using fill_ok [of es "[]" es ?o "Suc n" n key val "replicate (last ?o) 0"] o by auto
  then show ?thesis using neighbor_slice_ok [of ?o n key es val adj] o by auto
qed

section \<open>Properties\<close>

text \<open>C40. The index answers neighbourhood queries: for fewer than 2^32 edges, building never panics, and for every
  node the forward neighbours are the destinations of its outgoing edges and the reverse neighbours the sources of
  its incoming edges, with multiplicity and in the order of the edge list; a node out of range has none.\<close>

theorem csr_neighbors:
  assumes "length edges < 2 ^ 32"
  shows "\<exists>idx. csr_build edges n = Some idx \<and> num_nodes idx = n \<and> num_edges idx = length edges
    \<and> (\<forall>v. get_neighbors idx v True = Some (if unat v < n then map snd (filter (\<lambda>e. fst e = v) edges) else [])
       \<and> get_neighbors idx v False = Some (if unat v < n then map fst (filter (\<lambda>e. snd e = v) edges) else []))"
proof -
  let ?f = "map (\<lambda>i. word_of_nat (occurs (unat \<circ> fst) edges i)) [0..<n] :: u32 list"
  let ?r = "map (\<lambda>i. word_of_nat (occurs (unat \<circ> snd) edges i)) [0..<n] :: u32 list"
  have "replicate n 0 = map (\<lambda>i. word_of_nat 0 :: u32) [0..<n]" by (simp add: map_replicate_const)
  then have d: "count_degrees edges (replicate n 0, replicate n 0) = (?f, ?r)"
    using count_degrees_occurs [of edges "\<lambda>_. 0" n "\<lambda>_. 0"] by simp
  obtain fa where fa: "fill_adjacency (unat \<circ> fst) snd n edges (build_offsets ?f) (replicate (last (build_offsets ?f)) 0) = Some fa"
      "\<forall>p<n. neighbor_slice (build_offsets ?f) fa p = Some (map snd (filter (\<lambda>e. (unat \<circ> fst) e = p) edges))"
    using side_ok [OF refl assms, where key = "unat \<circ> fst" and n = n and val = snd] by blast
  obtain ra where ra: "fill_adjacency (unat \<circ> snd) fst n edges (build_offsets ?r) (replicate (last (build_offsets ?r)) 0) = Some ra"
      "\<forall>p<n. neighbor_slice (build_offsets ?r) ra p = Some (map fst (filter (\<lambda>e. (unat \<circ> snd) e = p) edges))"
    using side_ok [OF refl assms, where key = "unat \<circ> snd" and n = n and val = fst] by blast
  show ?thesis using d fa ra by (simp add: csr_build_def get_neighbors_def word_unat_eq_iff)
qed

theorem csr_neighbors_witness:
  "\<exists>idx. csr_build [(0, 1), (0, 2), (2, 0), (7, 1)] 3 = Some idx
    \<and> get_neighbors idx 0 True = Some [1, 2] \<and> get_neighbors idx 1 False = Some [0, 7] \<and> get_neighbors idx 7 True = Some []"
proof -
  have "length [(0, 1), (0, 2), (2, 0), (7, 1 :: u64)] < 2 ^ 32" by simp
  from csr_neighbors [OF this, of 3] show ?thesis by auto
qed

end
